(* ===== verification/Prelude.thy ===== *)
theory Prelude
  imports Main "HOL-Library.Word" "HOL-Library.Signed_Division"
begin

text \<open>
  The vocabulary every component shares: machine integers and the conversions C makes
  between them, the ways a process stops, sequencing of steps that can stop the process,
  and running a handler over a sequence of events.

  Unsigned C integers are words of their width, so that \<open>++count\<close> wraps as it does in
  the code. Signed C integers are \<open>int\<close>: their overflow is undefined in C, so the model
  reads them as exact numbers. A conversion between the two is always written out.
\<close>

section \<open>Machine integers\<close>

type_synonym u8 = "8 word"
type_synonym u16 = "16 word"
type_synonym u32 = "32 word"
type_synonym u64 = "64 word"

text \<open>
  \<open>u64_to_int\<close> is the conversion of a \<open>uint64_t\<close> to the 32 bit \<open>int\<close> that C
  makes in \<open>grant = limit - count\<close>: the low 32 bits, read as two's complement.
\<close>

definition u64_to_int :: "u64 \<Rightarrow> int" where
  "u64_to_int x = sint (ucast x :: u32)"

lemma u64_to_int_small:
  assumes "unat x < 2 ^ 31"
  shows "u64_to_int x = int (unat x)"
proof -
  have u: "uint x < 2 ^ 31"
    using assms by (metis uint_nat of_nat_less_numeral_power_cancel_iff)
  have "signed_take_bit 31 (uint x) = uint x"
    by (rule signed_take_bit_int_eq_self) (use u in \<open>auto intro: order_trans [OF _ uint_ge_0]\<close>)
  moreover have "take_bit 32 (uint x) = uint x"
    by (rule take_bit_int_eq_self) (use u in auto)
  ultimately have "u64_to_int x = uint x"
    by (simp add: u64_to_int_def sint_uint unsigned_ucast_eq)
  then show ?thesis by simp
qed

lemma unat_word_of_int:
  assumes "0 \<le> k" and "k < 2 ^ 64"
  shows "unat (word_of_int k :: u64) = nat k"
proof -
  have "take_bit 64 k = k" using assms by (rule take_bit_int_eq_self)
  then show ?thesis by (simp add: unsigned_of_int)
qed

lemma unat_Suc_word:
  assumes "(x::u64) < y"
  shows "unat (x + 1) = Suc (unat x)"
proof -
  have "unat x < unat y" "unat y < 2 ^ LENGTH(64)"
    using assms by (simp_all only: word_less_nat_alt unsigned_less)
  then have "Suc (unat x) < 2 ^ 64" by simp
  then show ?thesis by (simp add: unat_word_ariths)
qed

lemma inc_le_word:
  assumes "(x::u64) < y"
  shows "x + 1 \<le> y"
  using assms by (simp add: word_le_nat_alt unat_Suc_word word_less_nat_alt)

section \<open>How a process stops\<close>

text \<open>
  \<open>Exit n\<close> is \<open>exit(n)\<close>, \<open>Abort\<close> is \<open>abort()\<close> or a failed \<open>assert\<close>, and
  \<open>Hang\<close> is a loop of the code that never ends.
\<close>

datatype halt = Exit int | Abort | Hang

text \<open>
  A step of the code either stops the process (\<open>Inl\<close>) or goes on with a value
  (\<open>Inr\<close>). \<open>bnd\<close> is the sequencing of C statements under that reading.
\<close>

definition bnd :: "halt + 'a \<Rightarrow> ('a \<Rightarrow> halt + 'b) \<Rightarrow> halt + 'b" where
  "bnd m f = (case m of Inl h \<Rightarrow> Inl h | Inr x \<Rightarrow> f x)"

named_theorems bnd_rules

lemma bnd_Inl [simp, bnd_rules]: "bnd (Inl h) f = Inl h"
  by (simp add: bnd_def)

lemma bnd_Inr [simp, bnd_rules]: "bnd (Inr x) f = f x"
  by (simp add: bnd_def)

lemma bnd_eq_Inr [bnd_rules]: "(bnd m f = Inr y) = (\<exists>x. m = Inr x \<and> f x = Inr y)"
  by (cases m) simp_all

lemma bnd_eq_Inl: "(bnd m f = Inl h) = (m = Inl h \<or> (\<exists>x. m = Inr x \<and> f x = Inl h))"
  by (cases m) auto

lemma bnd_assoc: "bnd (bnd m f) g = bnd m (\<lambda>x. bnd (f x) g)"
  by (cases m) simp_all

lemma bnd_cong [fundef_cong]:
  assumes "m = m'" and "\<And>x. m' = Inr x \<Longrightarrow> f x = f' x"
  shows "bnd m f = bnd m' f'"
  using assms by (cases m') simp_all

section \<open>Running a handler over events\<close>

fun run :: "('s \<Rightarrow> 'e \<Rightarrow> halt + 's) \<Rightarrow> 's \<Rightarrow> 'e list \<Rightarrow> halt + 's" where
  "run f s [] = Inr s"
| "run f s (e # es) = bnd (f s e) (\<lambda>s'. run f s' es)"

lemma run_append: "run f s (es @ fs) = bnd (run f s es) (\<lambda>s'. run f s' fs)"
  by (induction es arbitrary: s) (simp_all add: bnd_assoc)

lemma run_preserves:
  assumes step: "\<And>s e s'. P s \<Longrightarrow> e \<in> set es \<Longrightarrow> f s e = Inr s' \<Longrightarrow> P s'"
    and "P s" and "run f s es = Inr s'"
  shows "P s'"
  using assms
proof (induction es arbitrary: s)
  case Nil
  then show ?case by simp
next
  case (Cons e es)
  from Cons.prems(3) obtain t where t: "f s e = Inr t" "run f t es = Inr s'"
    by (auto simp: bnd_eq_Inr)
  have "P t" using Cons.prems(1) [OF Cons.prems(2) _ t(1)] by simp
  moreover have "\<And>s e s'. P s \<Longrightarrow> e \<in> set es \<Longrightarrow> f s e = Inr s' \<Longrightarrow> P s'"
    using Cons.prems(1) by (meson list.set_intros(2))
  ultimately show ?case using Cons.IH t(2) by blast
qed

text \<open>A law that speaks of the events handled so far.\<close>

lemma run_history:
  assumes step: "\<And>hs s e s'. P hs s \<Longrightarrow> e \<in> set es \<Longrightarrow> f s e = Inr s' \<Longrightarrow> P (hs @ [e]) s'"
    and "P hs s" and "run f s es = Inr s'"
  shows "P (hs @ es) s'"
  using assms
proof (induction es arbitrary: hs s)
  case Nil
  then show ?case by simp
next
  case (Cons e es)
  from Cons.prems(3) obtain t where t: "f s e = Inr t" "run f t es = Inr s'"
    by (auto simp: bnd_eq_Inr)
  have "P (hs @ [e]) t" using Cons.prems(1) [OF Cons.prems(2) _ t(1)] by simp
  moreover have "\<And>hs s e s'. P hs s \<Longrightarrow> e \<in> set es \<Longrightarrow> f s e = Inr s' \<Longrightarrow> P (hs @ [e]) s'"
    using Cons.prems(1) by (meson list.set_intros(2))
  ultimately have "P ((hs @ [e]) @ es) s'" by (rule Cons.IH [OF _ _ t(2), rotated])
  then show ?case by simp
qed

section \<open>Lists of calls\<close>

definition calls :: "('a \<Rightarrow> bool) \<Rightarrow> 'a list \<Rightarrow> nat" where
  "calls P cs = length (filter P cs)"

lemma calls_simps [simp]:
  "calls P [] = 0"
  "calls P (c # cs) = (if P c then Suc (calls P cs) else calls P cs)"
  "calls P (cs @ ds) = calls P cs + calls P ds"
  by (simp_all add: calls_def)

lemma map_upt_split: "map f [0..<m + n] = map f [0..<m] @ map (\<lambda>i. f (m + i)) [0..<n]"
proof -
  have "[m..<m + n] = map (\<lambda>i. m + i) [0..<n]"
    by (simp add: map_add_upt add.commute)
  then show ?thesis by (simp add: upt_add_eq_append [of 0 m n] comp_def)
qed

end
