(* ===== verification/Proton.thy ===== *)
theory Proton
  imports Prelude
begin

text \<open>
  The interface to the Qpid Proton C library, which is not part of the repository. A call
  that changes the library's state is a value of \<open>pn_call\<close> appended to the log \<open>out\<close>
  of the process; what a query returns is an argument of the definition that makes the
  query. Nothing here says what the library does with a call.

  \<open>PnConnectionReject\<close> is \<open>pn_connection_close()\<close> on a connection other than the client's own.
  A client that works on several links at once tags the calls on one of them with
  \<open>OnLink\<close> and the link's number; a server of several connections tags those on a session or a
  connection likewise.
\<close>

section \<open>Dispositions and calls\<close>

text \<open>\<open>pn_delivery_remote_state()\<close>: the delivery states the sources name, or another code.\<close>

datatype disposition =
    PN_RECEIVED | PN_ACCEPTED | PN_REJECTED | PN_RELEASED | PN_MODIFIED | PN_OTHER u64

datatype snd_settle_mode = PN_SND_UNSETTLED | PN_SND_SETTLED | PN_SND_MIXED

datatype (discs_sels) pn_call =
    PnConnectionOpen
  | PnConnectionClose
  | PnConnectionWake
  | PnConnectionReject
  | PnProactorListen string
  | PnListenerAccept
  | PnAcceptorClose
  | PnSession
  | PnSessionOpen
  | PnSessionClose
  | PnSessionFree
  | PnSender string
  | PnReceiver string
  | PnSetTarget string
  | PnSetSource string
  | PnSetContainer string
  | PnSetHostname string
  | PnProactorConnect string
  | PnProactorConnect2 "string \<times> string"
  | PnSetSndSettleMode snd_settle_mode
  | PnLinkOpen
  | PnLinkClose
  | PnLinkFree
  | PnLinkFlow int
  | PnDelivery u64
  | PnLinkSend "u8 list"
  | PnLinkAdvance
  | PnUpdate disposition
  | PnSettle
  | PnClear
  | PnReactorWakeup
  | PnProactorInterrupt
  | PnSetTimeout u32
  | PnSetMaxFrame u32
  | PnSetIncomingWindow u32 u32
  | OnLink nat pn_call
  | OnSession nat pn_call
  | OnConnection nat pn_call

section \<open>The part of the process every client has\<close>

text \<open>
  \<open>out\<close> is the log of calls, oldest first; \<open>clk\<close> counts the clock readings made so far,
  so that each one gets an answer of its own from the environment.
\<close>

record world =
  clk :: nat
  out :: "pn_call list"

definition emit :: "pn_call list \<Rightarrow> 'a world_scheme \<Rightarrow> 'a world_scheme" where
  "emit cs s = s\<lparr>out := out s @ cs\<rparr>"

lemma emit_world [simp]:
  "out (emit cs s) = out s @ cs"
  "clk (emit cs s) = clk s"
  by (simp_all add: emit_def)

lemma emit_emit [simp]: "emit ds (emit cs s) = emit (cs @ ds) s"
  by (simp add: emit_def)

text \<open>The bytes written to the link so far, in order.\<close>

fun sent_bytes :: "pn_call list \<Rightarrow> u8 list" where
  "sent_bytes [] = []"
| "sent_bytes (PnLinkSend bs # cs) = bs @ sent_bytes cs"
| "sent_bytes (c # cs) = sent_bytes cs"

lemma sent_bytes_append [simp]: "sent_bytes (cs @ ds) = sent_bytes cs @ sent_bytes ds"
  by (induction cs rule: sent_bytes.induct) simp_all

text \<open>The credit granted so far with \<open>pn_link_flow()\<close>.\<close>

fun flows :: "pn_call list \<Rightarrow> int" where
  "flows [] = 0"
| "flows (PnLinkFlow n # cs) = n + flows cs"
| "flows (c # cs) = flows cs"

lemma flows_append [simp]: "flows (cs @ ds) = flows cs + flows ds"
  by (induction cs rule: flows.induct) simp_all

text \<open>The tags of the deliveries created so far, in order.\<close>

fun tags :: "pn_call list \<Rightarrow> u64 list" where
  "tags [] = []"
| "tags (PnDelivery t # cs) = t # tags cs"
| "tags (c # cs) = tags cs"

lemma tags_append [simp]: "tags (cs @ ds) = tags cs @ tags ds"
  by (induction cs rule: tags.induct) simp_all

abbreviation deliveries :: "pn_call list \<Rightarrow> nat" where
  "deliveries cs \<equiv> calls is_PnDelivery cs"

abbreviation settles :: "pn_call list \<Rightarrow> nat" where
  "settles cs \<equiv> calls (\<lambda>c. c = PnSettle) cs"

abbreviation advances :: "pn_call list \<Rightarrow> nat" where
  "advances cs \<equiv> calls (\<lambda>c. c = PnLinkAdvance) cs"

abbreviation closings :: "pn_call list \<Rightarrow> nat" where
  "closings cs \<equiv> calls (\<lambda>c. c = PnLinkClose \<or> c = PnSessionClose) cs"

lemma closings_none: "closings cs = 0 \<longleftrightarrow> PnLinkClose \<notin> set cs \<and> PnSessionClose \<notin> set cs"
  by (auto simp: calls_def filter_empty_conv)

lemma deliveries_tags: "deliveries cs = length (tags cs)"
  by (induction cs rule: tags.induct) simp_all

end
