(* ===== verification/CLib.thy ===== *)
theory CLib
  imports Proton
begin

text \<open>
  What the clients use of the C library and of POSIX: the clocks, \<open>sscanf\<close> and
  \<open>printf\<close> of integers, and the string searches that split an address into host and
  port. The clock answers from the environment: \<open>clock c n\<close> is what the \<open>n\<close>-th
  reading of the process gets from \<open>clock_gettime(c)\<close>, a time or an \<open>errno\<close>.
\<close>

section \<open>Clocks\<close>

record timespec =
  tv_sec :: int
  tv_nsec :: int

datatype clockid = CLOCK_REALTIME | CLOCK_MONOTONIC | CLOCK_MONOTONIC_RAW

type_synonym clock = "clockid \<Rightarrow> nat \<Rightarrow> int + timespec"

definition clock_gettime ::
    "clock \<Rightarrow> clockid \<Rightarrow> 'a world_scheme \<Rightarrow> halt + timespec \<times> 'a world_scheme" where
  "clock_gettime clock c s =
     (case clock c (clk s) of Inl errno \<Rightarrow> Inl (Exit errno) | Inr ts \<Rightarrow> Inr (ts, s\<lparr>clk := Suc (clk s)\<rparr>))"

text \<open>\<open>USECS_PER_SECOND\<close>, and wall-clock time in microseconds as the two forms of the code
  have it: \<open>int64_t\<close> in some clients, \<open>uint64_t\<close> in the others.\<close>

definition USECS_PER_SECOND :: int where
  "USECS_PER_SECOND = 1000000"

definition now_usec :: "clock \<Rightarrow> 'a world_scheme \<Rightarrow> halt + int \<times> 'a world_scheme" where
  "now_usec clock s =
     bnd (clock_gettime clock CLOCK_REALTIME s)
       (\<lambda>(ts, s). Inr (USECS_PER_SECOND * tv_sec ts + tv_nsec ts sdiv 1000, s))"

definition now_usec_u64 :: "clock \<Rightarrow> 'a world_scheme \<Rightarrow> halt + u64 \<times> 'a world_scheme" where
  "now_usec_u64 clock s =
     bnd (clock_gettime clock CLOCK_REALTIME s)
       (\<lambda>(ts, s). Inr (word_of_int USECS_PER_SECOND * word_of_int (tv_sec ts)
                        + word_of_int (tv_nsec ts sdiv 1000), s))"

definition now_timespec :: "clock \<Rightarrow> 'a world_scheme \<Rightarrow> halt + timespec \<times> 'a world_scheme" where
  "now_timespec clock s = clock_gettime clock CLOCK_MONOTONIC s"

definition diff_timespec_usec :: "timespec \<Rightarrow> timespec \<Rightarrow> int" where
  "diff_timespec_usec start end' =
     (tv_sec end' - tv_sec start) * USECS_PER_SECOND
     + ((tv_nsec end' - tv_nsec start) + 500) sdiv 1000"

text \<open>A reading changes nothing but the number of readings made.\<close>

lemma clock_gettime_Inr:
  "clock_gettime clock c s = Inr (ts, s') \<Longrightarrow> s' = s\<lparr>clk := Suc (clk s)\<rparr>"
  by (simp add: clock_gettime_def split: sum.splits)

lemma now_usec_Inr: "now_usec clock s = Inr (t, s') \<Longrightarrow> s' = s\<lparr>clk := Suc (clk s)\<rparr>"
  by (auto simp: now_usec_def bnd_eq_Inr dest: clock_gettime_Inr)

lemma now_usec_u64_Inr: "now_usec_u64 clock s = Inr (t, s') \<Longrightarrow> s' = s\<lparr>clk := Suc (clk s)\<rparr>"
  by (auto simp: now_usec_u64_def bnd_eq_Inr dest: clock_gettime_Inr)

lemma now_timespec_Inr: "now_timespec clock s = Inr (t, s') \<Longrightarrow> s' = s\<lparr>clk := Suc (clk s)\<rparr>"
  by (auto simp: now_timespec_def dest: clock_gettime_Inr)

text \<open>What a reading returns depends on the clock and the number of readings before it only.\<close>

lemma now_usec_same_clk:
  "now_usec clock s = Inr (t, s1) \<Longrightarrow> clk u = clk s \<Longrightarrow> now_usec clock u = Inr (t, u\<lparr>clk := Suc (clk u)\<rparr>)"
  by (auto simp: now_usec_def clock_gettime_def split: sum.splits)

text \<open>A clock that never fails: the answers POSIX gives for the clocks the code asks.\<close>

definition clock_works :: "clock \<Rightarrow> bool" where
  "clock_works clock \<longleftrightarrow> (\<forall>c n. \<not> isl (clock c n))"

lemma clock_gettime_works:
  assumes "clock_works clock"
  obtains ts where "clock_gettime clock c s = Inr (ts, s\<lparr>clk := Suc (clk s)\<rparr>)"
proof (cases "clock c (clk s)")
  case (Inl e)
  have "\<not> isl (clock c (clk s))" using assms by (simp add: clock_works_def)
  with Inl show ?thesis by simp
next
  case (Inr ts)
  then show ?thesis using that by (simp add: clock_gettime_def)
qed

lemma now_works:
  assumes "clock_works clock"
  shows "\<exists>t. now_usec clock s = Inr (t, s\<lparr>clk := Suc (clk s)\<rparr>)"
    and "\<exists>t. now_usec_u64 clock s = Inr (t, s\<lparr>clk := Suc (clk s)\<rparr>)"
    and "\<exists>ts. now_timespec clock s = Inr (ts, s\<lparr>clk := Suc (clk s)\<rparr>)"
proof -
  obtain ts where "clock_gettime clock CLOCK_REALTIME s = Inr (ts, s\<lparr>clk := Suc (clk s)\<rparr>)"
    using assms by (rule clock_gettime_works)
  then show "\<exists>t. now_usec clock s = Inr (t, s\<lparr>clk := Suc (clk s)\<rparr>)"
    "\<exists>t. now_usec_u64 clock s = Inr (t, s\<lparr>clk := Suc (clk s)\<rparr>)"
    by (simp_all add: now_usec_def now_usec_u64_def)
  obtain us where "clock_gettime clock CLOCK_MONOTONIC s = Inr (us, s\<lparr>clk := Suc (clk s)\<rparr>)"
    using assms by (rule clock_gettime_works)
  then show "\<exists>ts. now_timespec clock s = Inr (ts, s\<lparr>clk := Suc (clk s)\<rparr>)"
    by (simp add: now_timespec_def)
qed

text \<open>A clock that counts seconds, for concrete runs.\<close>

definition steady_clock :: clock where
  "steady_clock c n = Inr \<lparr>tv_sec = int n, tv_nsec = 0\<rparr>"

lemma steady_clock_works: "clock_works steady_clock"
  by (simp add: clock_works_def steady_clock_def)

lemma steady_now [simp]:
  "now_usec steady_clock s = Inr (1000000 * int (clk s), s\<lparr>clk := Suc (clk s)\<rparr>)"
  "now_usec_u64 steady_clock s = Inr (1000000 * of_nat (clk s), s\<lparr>clk := Suc (clk s)\<rparr>)"
  "now_timespec steady_clock s = Inr (\<lparr>tv_sec = int (clk s), tv_nsec = 0\<rparr>, s\<lparr>clk := Suc (clk s)\<rparr>)"
  by (simp_all add: now_usec_def now_usec_u64_def now_timespec_def clock_gettime_def steady_clock_def
      USECS_PER_SECOND_def)

text \<open>The time between two readings in nanoseconds, the quantity \<open>diff_timespec_usec\<close> rounds.\<close>

definition elapsed_nsec :: "timespec \<Rightarrow> timespec \<Rightarrow> int" where
  "elapsed_nsec start end' =
     (tv_sec end' - tv_sec start) * 1000000000 + (tv_nsec end' - tv_nsec start)"

lemma sdiv_1000_bounds:
  "(0::int) \<le> d \<Longrightarrow> 1000 * (d sdiv 1000) \<le> d \<and> d < 1000 * (d sdiv 1000) + 1000"
  "d \<le> 0 \<Longrightarrow> d \<le> 1000 * (d sdiv 1000) \<and> 1000 * (d sdiv 1000) < d + 1000"
  by (auto simp: signed_divide_int_def sgn_if)

lemma diff_timespec_usec_error:
  "-500 < 1000 * diff_timespec_usec a b - elapsed_nsec a b"
  "1000 * diff_timespec_usec a b - elapsed_nsec a b < 1500"
  using sdiv_1000_bounds [of "tv_nsec b - tv_nsec a + 500"]
  by (cases "0 \<le> tv_nsec b - tv_nsec a + 500";
      simp add: diff_timespec_usec_def elapsed_nsec_def USECS_PER_SECOND_def)+

section \<open>Reading integers: \<open>sscanf\<close>\<close>

definition is_space :: "char \<Rightarrow> bool" where
  "is_space c \<longleftrightarrow> c = CHR '' '' \<or> (9 \<le> (of_char c :: nat) \<and> (of_char c :: nat) \<le> 13)"

definition is_digit :: "char \<Rightarrow> bool" where
  "is_digit c \<longleftrightarrow> 48 \<le> (of_char c :: nat) \<and> (of_char c :: nat) \<le> 57"

fun read_digits :: "nat \<Rightarrow> string \<Rightarrow> nat" where
  "read_digits acc [] = acc"
| "read_digits acc (c # cs) =
     (if is_digit c then read_digits (10 * acc + (of_char c - 48)) cs else acc)"

definition read_sign :: "string \<Rightarrow> bool \<times> string" where
  "read_sign s =
     (case s of [] \<Rightarrow> (False, s)
      | c # cs \<Rightarrow> if c = CHR ''-'' then (True, cs) else if c = CHR ''+'' then (False, cs) else (False, s))"

text \<open>
  White space, an optional sign and at least one digit; \<open>None\<close> when there is no digit,
  which \<open>sscanf\<close> reports as a count other than 1.
\<close>

definition scan_number :: "string \<Rightarrow> (bool \<times> nat) option" where
  "scan_number s =
     (let (neg, ds) = read_sign (dropWhile is_space s)
      in if ds \<noteq> [] \<and> is_digit (hd ds) then Some (neg, read_digits 0 ds) else None)"

text \<open>The conversions behind \<open>%lu\<close>, \<open>%u\<close>, \<open>%hhu\<close> and \<open>%d\<close>: \<open>strtoul\<close> and \<open>strtol\<close>
  saturate at 64 bits, and a narrower target keeps the low bits.\<close>

definition strtoul :: "bool \<times> nat \<Rightarrow> u64" where
  "strtoul n = (if 2 ^ 64 \<le> snd n then - 1 else if fst n then - of_nat (snd n) else of_nat (snd n))"

definition strtol :: "bool \<times> nat \<Rightarrow> int" where
  "strtol n = max (- (2 ^ 63)) (min (2 ^ 63 - 1) (if fst n then - int (snd n) else int (snd n)))"

definition scan_u64 :: "string \<Rightarrow> u64 option" where
  "scan_u64 s = map_option strtoul (scan_number s)"

definition scan_u32 :: "string \<Rightarrow> u32 option" where
  "scan_u32 s = map_option (\<lambda>n. ucast (strtoul n)) (scan_number s)"

definition scan_u8 :: "string \<Rightarrow> u8 option" where
  "scan_u8 s = map_option (\<lambda>n. ucast (strtoul n)) (scan_number s)"

definition scan_int :: "string \<Rightarrow> int option" where
  "scan_int s = map_option (\<lambda>n. sint (word_of_int (strtol n) :: u32)) (scan_number s)"

definition atoi :: "string \<Rightarrow> int" where
  "atoi s = (case scan_number s of None \<Rightarrow> 0 | Some n \<Rightarrow> sint (word_of_int (strtol n) :: u32))"

section \<open>Printing integers\<close>

definition digit_char :: "nat \<Rightarrow> char" where
  "digit_char n = char_of (48 + n)"

fun show_nat :: "nat \<Rightarrow> string" where
  "show_nat n = (if n < 10 then [digit_char n] else show_nat (n div 10) @ [digit_char (n mod 10)])"

declare show_nat.simps [simp del]

lemma of_digit_char: "n < 10 \<Longrightarrow> (of_char (digit_char n) :: nat) = 48 + n"
  by (simp add: digit_char_def)

lemma is_digit_digit_char [simp]: "n < 10 \<Longrightarrow> is_digit (digit_char n)"
  by (simp add: is_digit_def of_digit_char)

lemma show_nat_digits: "c \<in> set (show_nat n) \<Longrightarrow> is_digit c"
proof (induction n rule: show_nat.induct)
  case (1 n)
  then show ?case by (subst (asm) show_nat.simps) (auto split: if_splits)
qed

lemma show_nat_nonempty [simp]: "show_nat n \<noteq> []"
  by (subst show_nat.simps) simp

lemma read_digits_append:
  "\<forall>c\<in>set ds. is_digit c \<Longrightarrow> read_digits acc (ds @ es) = read_digits (read_digits acc ds) es"
  by (induction ds arbitrary: acc) auto

lemma read_digits_stop: "es = [] \<or> \<not> is_digit (hd es) \<Longrightarrow> read_digits acc es = acc"
  by (cases es) auto

lemma read_digits_show_nat: "read_digits 0 (show_nat n) = n"
proof (induction n rule: show_nat.induct)
  case (1 n)
  show ?case
  proof (cases "n < 10")
    case True
    then show ?thesis by (subst show_nat.simps) (simp add: of_digit_char)
  next
    case False
    have "read_digits 0 (show_nat (n div 10) @ [digit_char (n mod 10)])
        = read_digits (n div 10) [digit_char (n mod 10)]"
      using "1.IH" [OF False] by (subst read_digits_append) (auto intro: show_nat_digits)
    also have "\<dots> = n" by (simp add: of_digit_char)
    finally show ?thesis using False by (subst show_nat.simps) simp
  qed
qed

lemma read_digits_show_nat_append:
  "es = [] \<or> \<not> is_digit (hd es) \<Longrightarrow> read_digits 0 (show_nat n @ es) = n"
  by (subst read_digits_append) (auto simp: read_digits_show_nat read_digits_stop intro: show_nat_digits)

lemma is_digit_hd_show_nat: "is_digit (hd (show_nat n))"
  by (rule show_nat_digits) (rule hd_in_set, simp)

lemma digit_not_space: "is_digit c \<Longrightarrow> \<not> is_space c \<and> c \<noteq> CHR ''-'' \<and> c \<noteq> CHR ''+''"
  by (auto simp: is_digit_def is_space_def)

lemma scan_number_show_nat:
  assumes "es = [] \<or> \<not> is_digit (hd es)"
  shows "scan_number (show_nat n @ es) = Some (False, n)"
proof -
  obtain c cs where c: "show_nat n = c # cs" by (cases "show_nat n") auto
  have "is_digit c" using is_digit_hd_show_nat [of n] c by simp
  then have "read_sign (dropWhile is_space (show_nat n @ es)) = (False, show_nat n @ es)"
    using digit_not_space [of c] by (simp add: c read_sign_def)
  then show ?thesis
    using read_digits_show_nat_append [OF assms, of n] \<open>is_digit c\<close> by (simp add: scan_number_def c)
qed

lemma scan_u64_show_nat: "n < 2 ^ 64 \<Longrightarrow> scan_u64 (show_nat n) = Some (of_nat n)"
  using scan_number_show_nat [of "[]" n] by (simp add: scan_u64_def strtoul_def)

lemma show_nat_inject: "show_nat m = show_nat n \<Longrightarrow> m = n"
  by (metis read_digits_show_nat)

lemma length_show_nat: "n < 10 ^ k \<Longrightarrow> 0 < k \<Longrightarrow> length (show_nat n) \<le> k"
proof (induction k arbitrary: n)
  case 0
  then show ?case by simp
next
  case (Suc k)
  show ?case
  proof (cases "n < 10")
    case True
    then show ?thesis by (subst show_nat.simps) simp
  next
    case False
    then have "0 < k" "n div 10 < 10 ^ k"
      using Suc.prems by (cases k; simp add: div_less_iff_less_mult mult.commute)+
    then show ?thesis using Suc.IH False by (subst show_nat.simps) simp
  qed
qed

section \<open>Splitting addresses: \<open>strchr\<close>, \<open>strrchr\<close>, \<open>strncmp\<close>\<close>

text \<open>The text before and after the first, or the last, occurrence of a character.\<close>

fun split_first :: "char \<Rightarrow> string \<Rightarrow> (string \<times> string) option" where
  "split_first c [] = None"
| "split_first c (x # xs) =
     (if x = c then Some ([], xs) else map_option (\<lambda>(a, b). (x # a, b)) (split_first c xs))"

definition split_last :: "char \<Rightarrow> string \<Rightarrow> (string \<times> string) option" where
  "split_last c s = map_option (\<lambda>(a, b). (rev b, rev a)) (split_first c (rev s))"

definition has_prefix :: "string \<Rightarrow> string \<Rightarrow> bool" where
  "has_prefix p s \<longleftrightarrow> take (length p) s = p"

lemma split_first_eq: "c \<notin> set a \<Longrightarrow> split_first c (a @ c # b) = Some (a, b)"
  by (induction a) auto

lemma split_first_None: "split_first c s = None \<longleftrightarrow> c \<notin> set s"
  by (induction s) auto

lemma split_last_eq: "c \<notin> set b \<Longrightarrow> split_last c (a @ c # b) = Some (a, b)"
  by (simp add: split_last_def split_first_eq)

lemma split_last_None: "split_last c s = None \<longleftrightarrow> c \<notin> set s"
  by (simp add: split_last_def split_first_None)

end
