(* ===== verification/Encode.thy ===== *)
theory Encode
  imports Complex_Main CLib
begin

text \<open>
  Building a message and encoding it into a buffer that is doubled until the message
  fits, as \<open>generate_message()\<close> of every sending client does
  (\<open>benchmarks/clients/src/\<close>). The encoder \<open>pn_message_encode()\<close> belongs to the
  Proton library and is an argument: a message and a buffer size give the encoded bytes,
  \<open>PN_OVERFLOW\<close>, or another error.
\<close>

section \<open>Filling a \<open>pn_data_t\<close>\<close>

datatype data_call =
    DClear
  | DRewind
  | DPutMap
  | DPutList
  | DEnter
  | DExit
  | DPutSymbol string
  | DPutString string
  | DPutBinary "u8 list"
  | DPutChar char
  | DPutByte u8
  | DPutShort int
  | DPutLong int
  | DPutUlong u64
  | DPutDouble rat
  | DPutBool bool

text \<open>
  The AMQP values such a sequence of calls spells, and the sequence for a value: the
  compound's own \<open>put\<close>, its items between \<open>enter\<close> and \<open>exit\<close>, the keys and the values
  of a map alternating.
\<close>

datatype amqp =
    ASymbol string
  | AString string
  | ABinary "u8 list"
  | AChar char
  | AByte u8
  | AShort int
  | ALong int
  | AUlong u64
  | ADouble rat
  | ABool bool
  | AMap "(string \<times> amqp) list"
  | AList "amqp list"

fun put_value :: "amqp \<Rightarrow> data_call list" where
  "put_value (ASymbol x) = [DPutSymbol x]"
| "put_value (AString x) = [DPutString x]"
| "put_value (ABinary x) = [DPutBinary x]"
| "put_value (AChar x) = [DPutChar x]"
| "put_value (AByte x) = [DPutByte x]"
| "put_value (AShort x) = [DPutShort x]"
| "put_value (ALong x) = [DPutLong x]"
| "put_value (AUlong x) = [DPutUlong x]"
| "put_value (ADouble x) = [DPutDouble x]"
| "put_value (ABool x) = [DPutBool x]"
| "put_value (AMap es) =
     [DPutMap, DEnter] @ concat (map (\<lambda>(k, v). DPutSymbol k # put_value v) es) @ [DExit]"
| "put_value (AList vs) = [DPutList, DEnter] @ concat (map put_value vs) @ [DExit]"

text \<open>The dummy message annotations of \<open>sender.c\<close> and \<open>blocking-sender.c\<close>.\<close>

definition bytes_of :: "string \<Rightarrow> u8 list" where
  "bytes_of s = map of_char s"

definition big_string :: string where
  "big_string = CHR ''+'' # concat (replicate 100 ''0123456789'')"

text \<open>\<open>pn_bytes(sizeof(big_string), big_string)\<close>: the array with its terminating zero.\<close>

definition big_string_array :: string where
  "big_string_array = big_string @ [CHR 0x00]"

definition add_message_annotations :: "data_call list" where
  "add_message_annotations =
    [DClear, DPutMap, DEnter,
     DPutSymbol ''my-key'', DPutString ''my-data'',
     DPutSymbol ''my-other-key'', DPutString ''my-other-data'',
     DPutSymbol ''my-map'', DPutMap, DEnter,
       DPutSymbol ''my-map-key1'', DPutChar CHR ''X'',
       DPutSymbol ''my-map-key2'', DPutByte 0x12,
       DPutSymbol ''my-map-key3'', DPutString ''Are We Not Men?'',
       DPutSymbol ''my-last-key'', DPutBinary (bytes_of big_string_array),
     DExit,
     DPutSymbol ''my-ulong'', DPutUlong 0xDEADBEEFCAFEBEEF,
     DPutSymbol ''my-list'', DPutList, DEnter,
       DPutString big_string_array, DPutDouble 3.1415, DPutShort 1966,
     DExit,
     DPutSymbol ''my-bool'', DPutBool False,
     DExit]"

definition annotations_value :: amqp where
  "annotations_value = AMap
     [(''my-key'', AString ''my-data''),
      (''my-other-key'', AString ''my-other-data''),
      (''my-map'', AMap
         [(''my-map-key1'', AChar CHR ''X''),
          (''my-map-key2'', AByte 0x12),
          (''my-map-key3'', AString ''Are We Not Men?''),
          (''my-last-key'', ABinary (bytes_of big_string_array))]),
      (''my-ulong'', AUlong 0xDEADBEEFCAFEBEEF),
      (''my-list'', AList [AString big_string_array, ADouble 3.1415, AShort 1966]),
      (''my-bool'', ABool False)]"

lemma annotations_calls: "add_message_annotations = DClear # put_value annotations_value"
  by (simp add: add_message_annotations_def annotations_value_def)

section \<open>The encoder\<close>

record message =
  msg_address :: "string option"
  msg_priority :: "u8 option"
  msg_annotations :: "data_call list"
  msg_body :: "data_call list"

datatype enc_result = Encoded "u8 list" | PN_OVERFLOW | EncError int

type_synonym encoder = "message \<Rightarrow> u64 \<Rightarrow> enc_result"

text \<open>
  The documented behaviour of the encoder for a message whose encoding is \<open>bs\<close>: it
  succeeds exactly when the buffer is large enough.
\<close>

definition encodes_as :: "encoder \<Rightarrow> message \<Rightarrow> u8 list \<Rightarrow> bool" where
  "encodes_as enc m bs \<longleftrightarrow>
     (\<forall>sz. enc m sz = (if unat sz < length bs then PN_OVERFLOW else Encoded bs))"

definition encoder_works :: "encoder \<Rightarrow> bool" where
  "encoder_works enc \<longleftrightarrow> (\<forall>m. \<exists>bs. length bs \<le> 2 ^ 63 \<and> encodes_as enc m bs)"

text \<open>An encoder that answers every message with the same bytes, for concrete instances.\<close>

definition fixed_encoder :: "u8 list \<Rightarrow> encoder" where
  "fixed_encoder bs m sz = (if unat sz < length bs then PN_OVERFLOW else Encoded bs)"

lemma fixed_encoder: "encodes_as (fixed_encoder bs) m bs"
  by (simp add: encodes_as_def fixed_encoder_def)

lemma fixed_encoder_works: "length bs \<le> 2 ^ 63 \<Longrightarrow> encoder_works (fixed_encoder bs)"
  using fixed_encoder by (auto simp: encoder_works_def)

section \<open>The doubling loop\<close>

text \<open>
  \<open>do { rc = pn_message_encode(...); if (rc == PN_OVERFLOW) { ... *= 2; ... } }
  while (rc == PN_OVERFLOW)\<close>: the size of the buffer at the end and the last result.
  \<open>None\<close> is a loop that never ends.
\<close>

partial_function (option) encode_loop :: "(u64 \<Rightarrow> enc_result) \<Rightarrow> u64 \<Rightarrow> (u64 \<times> enc_result) option" where
  "encode_loop enc sz =
     (case enc sz of
        PN_OVERFLOW \<Rightarrow> encode_loop enc (sz * 2)
      | Encoded bs \<Rightarrow> Some (sz, Encoded bs)
      | EncError rc \<Rightarrow> Some (sz, EncError rc))"

lemma unat_double:
  assumes "unat (x::u64) < 2 ^ 63"
  shows "unat (x * 2) = 2 * unat x"
  using assms by (simp add: unat_word_ariths)

lemma encode_loop_returns:
  assumes "encodes_as enc m bs" and "0 < unat sz" and "length bs \<le> 2 ^ 63"
  shows "\<exists>sz'. encode_loop (enc m) sz = Some (sz', Encoded bs)
           \<and> length bs \<le> unat sz' \<and> (sz' = sz \<or> unat sz' < 2 * length bs)"
  using assms(2)
proof (induction "length bs - unat sz" arbitrary: sz rule: less_induct)
  case less
  show ?case
  proof (cases "unat sz < length bs")
    case False
    then show ?thesis
      using assms(1) by (subst encode_loop.simps) (simp add: encodes_as_def)
  next
    case True
    have d: "unat (sz * 2) = 2 * unat sz"
      using True assms(3) by (intro unat_double) simp
    have step: "encode_loop (enc m) sz = encode_loop (enc m) (sz * 2)"
      using True assms(1) by (subst encode_loop.simps) (simp add: encodes_as_def)
    have "length bs - unat (sz * 2) < length bs - unat sz" "0 < unat (sz * 2)"
      using d less.prems True by auto
    then obtain sz' where "encode_loop (enc m) (sz * 2) = Some (sz', Encoded bs)"
      "length bs \<le> unat sz'" "sz' = sz * 2 \<or> unat sz' < 2 * length bs"
      using less.hyps by blast
    then show ?thesis using step d True by auto
  qed
qed

lemma encode_loop_fixed:
  assumes "length bs \<le> unat sz"
  shows "encode_loop (fixed_encoder bs m) sz = Some (sz, Encoded bs)"
  using assms by (subst encode_loop.simps) (simp add: fixed_encoder_def)

text \<open>A buffer of size 0 would never grow: the loop would not end.\<close>

lemma encode_loop_zero_lemma:
  assumes "encode_loop f sz = Some r" and "f 0 = PN_OVERFLOW"
  shows "sz \<noteq> 0"
proof (rule encode_loop.raw_induct [where P = "\<lambda>f sz r. f 0 = PN_OVERFLOW \<longrightarrow> sz \<noteq> 0", OF _ assms(1),
      THEN mp, OF _ assms(2)])
  fix g :: "(u64 \<Rightarrow> enc_result) \<Rightarrow> u64 \<Rightarrow> (u64 \<times> enc_result) option" and enc sz r
  assume IH: "\<And>enc sz r. g enc sz = Some r \<Longrightarrow> enc 0 = PN_OVERFLOW \<longrightarrow> sz \<noteq> 0"
    and eq: "(case enc sz of PN_OVERFLOW \<Rightarrow> g enc (sz * 2)
        | Encoded bs \<Rightarrow> Some (sz, Encoded bs) | EncError rc \<Rightarrow> Some (sz, EncError rc)) = Some r"
  show "enc 0 = PN_OVERFLOW \<longrightarrow> sz \<noteq> 0"
    using eq IH by (fastforce split: enc_result.splits)
qed

lemma encode_loop_zero:
  assumes "encodes_as enc m bs" and "bs \<noteq> []"
  shows "encode_loop (enc m) 0 = None"
proof (rule ccontr)
  assume "encode_loop (enc m) 0 \<noteq> None"
  then obtain r where "encode_loop (enc m) 0 = Some r" by auto
  then have "(0::u64) \<noteq> 0"
    by (rule encode_loop_zero_lemma) (use assms in \<open>simp add: encodes_as_def\<close>)
  then show False by simp
qed

end
