(* ===== verification/Stats.thy ===== *)
theory Stats
  imports Complex_Main CLib
begin

text \<open>
  The running statistics the clients keep (number of samples, sum, sum of squares, largest
  and smallest sample) and the mean and variance their reports compute from them by
  integer division. The contract of such an accumulator is a locale: the components that
  keep statistics interpret it on their own update code.
\<close>

section \<open>The variance of the report never goes below zero\<close>

definition sum_sq :: "nat list \<Rightarrow> nat" where
  "sum_sq xs = sum_list (map (\<lambda>x. x * x) xs)"

lemma sum_sq_simps [simp]:
  "sum_sq [] = 0"
  "sum_sq (x # xs) = x * x + sum_sq xs"
  by (simp_all add: sum_sq_def)

lemma two_times_le_squares: "2 * x * y \<le> x * x + y * (y::nat)"
proof -
  have "0 \<le> (int x - int y) * (int x - int y)" by simp
  then have "int (2 * x * y) \<le> int (x * x + y * y)" by (simp add: algebra_simps)
  then show ?thesis by (simp only: of_nat_le_iff)
qed

lemma cross_terms: "2 * x * sum_list xs \<le> length xs * (x * x) + sum_sq xs"
proof (induction xs)
  case Nil
  then show ?case by simp
next
  case (Cons y ys)
  then show ?case using two_times_le_squares [of x y] by (simp add: algebra_simps)
qed

lemma square_sum_le: "sum_list xs * sum_list xs \<le> length xs * sum_sq xs"
proof (induction xs)
  case Nil
  then show ?case by simp
next
  case (Cons x xs)
  then show ?case using cross_terms [of x xs] by (simp add: algebra_simps)
qed

lemma mean_square_le:
  assumes "0 < n" and "S * S \<le> n * Q"
  shows "(S div n) * (S div n) \<le> Q div (n::nat)"
proof -
  define m where "m = S div n"
  have "m * n \<le> S" by (simp add: m_def)
  then have "(m * n) * (m * n) \<le> S * S" by (intro mult_le_mono) simp_all
  also have "\<dots> \<le> n * Q" by (rule assms(2))
  finally have "n * (m * m * n) \<le> n * Q" by (simp add: algebra_simps)
  then have "m * m * n \<le> Q" using assms(1) by simp
  then have "m * m \<le> Q div n" using assms(1) by (simp add: less_eq_div_iff_mult_less_eq)
  then show ?thesis by (simp add: m_def)
qed

lemma sum_le_sum_sq: "sum_list xs \<le> sum_sq xs"
proof (induction xs)
  case Nil
  then show ?case by simp
next
  case (Cons x xs)
  have "x \<le> x * x" by (cases x) simp_all
  then show ?case using Cons.IH by (simp add: add_mono)
qed

section \<open>The report on unsigned 64 bit accumulators\<close>

text \<open>
  \<open>imean = total / n; isos = sum_of_squares / n; isos = isos - (imean * imean)\<close>.
\<close>

definition mean_u64 :: "u64 \<Rightarrow> u64 \<Rightarrow> u64" where
  "mean_u64 tot n = tot div n"

definition variance_u64 :: "u64 \<Rightarrow> u64 \<Rightarrow> u64 \<Rightarrow> u64" where
  "variance_u64 tot sumsq n = sumsq div n - mean_u64 tot n * mean_u64 tot n"

definition nat_variance :: "nat list \<Rightarrow> nat" where
  "nat_variance xs =
     sum_sq xs div length xs - (sum_list xs div length xs) * (sum_list xs div length xs)"

lemma unat_of_nat_u64: "n < 2 ^ 64 \<Longrightarrow> unat (of_nat n :: u64) = n"
  by (simp add: unat_of_nat take_bit_nat_eq_self)

lemma variance_u64_exact:
  assumes "xs \<noteq> []" and "sum_sq xs < 2 ^ 64" and "length xs < 2 ^ 64"
  shows "unat (mean_u64 (of_nat (sum_list xs)) (of_nat (length xs))) = sum_list xs div length xs"
    and "unat (variance_u64 (of_nat (sum_list xs)) (of_nat (sum_sq xs)) (of_nat (length xs)))
           = nat_variance xs"
proof -
  let ?n = "length xs" and ?S = "sum_list xs" and ?Q = "sum_sq xs"
  have n: "0 < ?n" using assms(1) by simp
  have S: "?S < 2 ^ 64" using sum_le_sum_sq [of xs] assms(2) by linarith
  show mean: "unat (mean_u64 (of_nat ?S) (of_nat ?n)) = ?S div ?n"
    using S assms(3) by (simp add: mean_u64_def unat_div_distrib unat_of_nat_u64)
  have sq: "(?S div ?n) * (?S div ?n) \<le> ?Q div ?n"
    using n square_sum_le by (rule mean_square_le)
  moreover have "?Q div ?n < 2 ^ 64"
    using assms(2) by (metis div_le_dividend order_le_less_trans)
  ultimately have mm: "unat (mean_u64 (of_nat ?S) (of_nat ?n) * mean_u64 (of_nat ?S) (of_nat ?n))
      = (?S div ?n) * (?S div ?n)"
    using mean by (simp add: unat_mult_lem [THEN iffD1])
  have q: "unat (of_nat ?Q div of_nat ?n :: u64) = ?Q div ?n"
    using assms(2,3) by (simp add: unat_div_distrib unat_of_nat_u64)
  show "unat (variance_u64 (of_nat ?S) (of_nat ?Q) (of_nat ?n)) = nat_variance xs"
    unfolding variance_u64_def nat_variance_def
    by (subst unat_sub) (use sq mm q in \<open>simp_all add: word_le_nat_alt\<close>)
qed

section \<open>The contract of an accumulator\<close>

locale sample_accumulator =
  fixes add :: "'s \<Rightarrow> 'v::{comm_ring_1, linorder} \<Rightarrow> 's"
    and total :: "'s \<Rightarrow> 'v"
    and sumsq :: "'s \<Rightarrow> 'v"
    and largest :: "'s \<Rightarrow> 'v"
  assumes total_add: "total (add s x) = total s + x"
    and sumsq_add: "sumsq (add s x) = sumsq s + x * x"
    and largest_add: "largest (add s x) = max (largest s) x"
begin

lemma total_fold: "total (foldl add s xs) = total s + sum_list xs"
  by (induction xs arbitrary: s) (simp_all add: total_add algebra_simps)

lemma sumsq_fold: "sumsq (foldl add s xs) = sumsq s + sum_list (map (\<lambda>x. x * x) xs)"
  by (induction xs arbitrary: s) (simp_all add: sumsq_add algebra_simps)

lemma largest_fold: "largest (foldl add s xs) = foldl max (largest s) xs"
  by (induction xs arbitrary: s) (simp_all add: largest_add)

lemma largest_fold_bound: "x \<in> set xs \<Longrightarrow> x \<le> largest (foldl add s xs)"
proof (induction xs arbitrary: s)
  case Nil
  then show ?case by simp
next
  case (Cons y ys)
  have mono: "a \<le> foldl max a zs" for a :: 'v and zs
    by (induction zs arbitrary: a) (auto intro: order_trans [OF max.cobounded1])
  show ?case using Cons.prems Cons.IH [of "add s y"] mono [of "max (largest s) y" ys]
    by (auto simp: largest_fold largest_add)
qed

lemma largest_fold_attained: "largest (foldl add s xs) \<in> insert (largest s) (set xs)"
proof (induction xs arbitrary: s)
  case Nil
  then show ?case by simp
next
  case (Cons y ys)
  then show ?case using Cons.IH [of "add s y"] by (auto simp: largest_add max_def split: if_splits)
qed

end

text \<open>An accumulator of latencies also keeps the smallest sample.\<close>

locale latency_accumulator = sample_accumulator add total sumsq largest
  for add :: "'s \<Rightarrow> 'v::{comm_ring_1, linorder} \<Rightarrow> 's"
    and total :: "'s \<Rightarrow> 'v"
    and sumsq :: "'s \<Rightarrow> 'v"
    and largest :: "'s \<Rightarrow> 'v" +
  fixes least :: "'s \<Rightarrow> 'v"
  assumes least_add: "least (add s x) = min (least s) x"
begin

lemma least_fold_bound: "x \<in> insert (least s) (set xs) \<Longrightarrow> least (foldl add s xs) \<le> x"
proof (induction xs arbitrary: s x)
  case Nil
  then show ?case by simp
next
  case (Cons y ys)
  have "least (foldl add (add s y) ys) \<le> min (least s) y"
    using Cons.IH [of "least (add s y)" "add s y"] by (simp add: least_add)
  then show ?case using Cons.IH [of x "add s y"] Cons.prems by auto
qed

lemma least_fold_attained: "least (foldl add s xs) \<in> insert (least s) (set xs)"
proof (induction xs arbitrary: s)
  case Nil
  then show ?case by simp
next
  case (Cons y ys)
  then show ?case using Cons.IH [of "add s y"] by (auto simp: least_add min_def split: if_splits)
qed

end

text \<open>
  What the contract gives a report on unsigned accumulators that start at zero: as long as
  the sum of squares of the samples fits in 64 bits, mean and variance are exact, and the
  subtraction in the variance does not wrap.
\<close>

lemma sum_list_of_nat_u64: "sum_list (map of_nat ns) = (of_nat (sum_list ns) :: u64)"
  by (induction ns) simp_all

lemma sum_sq_of_nat_u64:
  "sum_list (map (\<lambda>x. x * x) (map of_nat ns)) = (of_nat (sum_sq ns) :: u64)"
  by (induction ns) simp_all

end
