(* ===== verification/Contracts.thy ===== *)
theory Contracts
  imports Proton
begin

text \<open>
  The contracts the messaging clients share, stated on a handler as a step function that
  may stop the process. Each client theory interprets them on its own \<open>event_handler\<close>,
  and the lemmas here lift the laws of one event to whole runs.
\<close>

section \<open>The loop of \<open>main()\<close>\<close>

text \<open>
  One round of \<open>while (pn_reactor_process(reactor)) { ... }\<close>: the handler runs on the
  events of the batch, then the body of the loop, which has locals of its own. The whole
  loop is a \<open>run\<close> of rounds over the batches.
\<close>

definition main_round :: "('s \<Rightarrow> 'e \<Rightarrow> halt + 's) \<Rightarrow> ('l \<Rightarrow> 's \<Rightarrow> halt + 'l \<times> 's)
    \<Rightarrow> 'l \<times> 's \<Rightarrow> 'e list \<Rightarrow> halt + 'l \<times> 's" where
  "main_round handler body ls es = bnd (run handler (snd ls) es) (body (fst ls))"

section \<open>A client that logs its calls and can be stopped\<close>

locale stopping_client =
  fixes step :: "'s \<Rightarrow> 'e \<Rightarrow> halt + 's"
    and log :: "'s \<Rightarrow> pn_call list"
    and stopped :: "'s \<Rightarrow> bool"
    and wake :: pn_call
  assumes log_step: "step s e = Inr s' \<Longrightarrow> \<exists>cs. log s' = log s @ cs"
    and stop_latch: "step s e = Inr s' \<Longrightarrow> stopped s \<Longrightarrow> stopped s'"
    and stop_wakes: "step s e = Inr s' \<Longrightarrow> \<not> stopped s \<Longrightarrow> stopped s' \<Longrightarrow> wake \<in> set (log s')"
begin

lemma run_log: "run step s es = Inr s' \<Longrightarrow> \<exists>cs. log s' = log s @ cs"
proof (induction es arbitrary: s)
  case Nil
  then show ?case by simp
next
  case (Cons e es)
  then obtain t where t: "step s e = Inr t" "run step t es = Inr s'"
    by (auto simp: bnd_eq_Inr)
  from Cons.IH [OF t(2)] log_step [OF t(1)] show ?case by auto
qed

lemma run_stop_latch: "run step s es = Inr s' \<Longrightarrow> stopped s \<Longrightarrow> stopped s'"
  by (rule run_preserves [where P = stopped]) (auto intro: stop_latch)

lemma run_stop_wakes:
  "run step s es = Inr s' \<Longrightarrow> \<not> stopped s \<Longrightarrow> stopped s' \<Longrightarrow> wake \<in> set (log s')"
proof (induction es arbitrary: s)
  case Nil
  then show ?case by simp
next
  case (Cons e es)
  then obtain t where t: "step s e = Inr t" "run step t es = Inr s'"
    by (auto simp: bnd_eq_Inr)
  show ?case
  proof (cases "stopped t")
    case True
    with stop_wakes [OF t(1)] Cons.prems(2) have "wake \<in> set (log t)" by simp
    then show ?thesis using run_log [OF t(2)] by auto
  next
    case False
    then show ?thesis using Cons.IH t(2) Cons.prems(3) by blast
  qed
qed

end

text \<open>A body of the main loop that only closes endpoints keeps the contract for whole rounds.\<close>

locale stopping_loop = stopping_client step log stopped wake
  for step :: "'s \<Rightarrow> 'e \<Rightarrow> halt + 's" and log :: "'s \<Rightarrow> pn_call list"
    and stopped :: "'s \<Rightarrow> bool" and wake :: pn_call +
  fixes body :: "'l \<Rightarrow> 's \<Rightarrow> halt + 'l \<times> 's"
  assumes body_log: "body l s = Inr (l', s') \<Longrightarrow> \<exists>cs. log s' = log s @ cs"
    and body_stopped: "body l s = Inr (l', s') \<Longrightarrow> stopped s' = stopped s"

sublocale stopping_loop \<subseteq> round: stopping_client "main_round step body" "log \<circ> snd" "stopped \<circ> snd" wake
proof
  fix ls es ls'
  assume "main_round step body ls es = Inr ls'"
  then obtain t where t: "run step (snd ls) es = Inr t" "body (fst ls) t = Inr (fst ls', snd ls')"
    by (auto simp: main_round_def bnd_eq_Inr)
  show "\<exists>cs. (log \<circ> snd) ls' = (log \<circ> snd) ls @ cs"
    using run_log [OF t(1)] body_log [OF t(2)] by auto
  show "(stopped \<circ> snd) ls \<Longrightarrow> (stopped \<circ> snd) ls'"
    using run_stop_latch [OF t(1)] body_stopped [OF t(2)] by simp
  show "\<not> (stopped \<circ> snd) ls \<Longrightarrow> (stopped \<circ> snd) ls' \<Longrightarrow> wake \<in> set ((log \<circ> snd) ls')"
    using run_stop_wakes [OF t(1)] body_stopped [OF t(2)] body_log [OF t(2)] by auto
qed

section \<open>A sender with a message budget\<close>

text \<open>
  \<open>lim\<close> is the number of messages to send, 0 for no end; \<open>sent\<close> counts the deliveries
  created. The laws of one event: the budget does not change, is never exceeded, and every
  count is a delivery in the log.
\<close>

locale budgeted_sender =
  fixes step :: "'s \<Rightarrow> 'e \<Rightarrow> halt + 's"
    and log :: "'s \<Rightarrow> pn_call list"
    and lim :: "'s \<Rightarrow> u64"
    and sent :: "'s \<Rightarrow> u64"
    and next_tag :: "'s \<Rightarrow> u64"
  assumes lim_step: "step s e = Inr s' \<Longrightarrow> lim s' = lim s"
    and sent_step: "step s e = Inr s' \<Longrightarrow> \<exists>n.
          tags (log s') = tags (log s) @ map (\<lambda>i. next_tag s + of_nat i) [0..<n]
        \<and> next_tag s' = next_tag s + of_nat n
        \<and> sent s' = sent s + of_nat n
        \<and> (lim s \<noteq> 0 \<longrightarrow> sent s \<le> lim s \<longrightarrow> unat (sent s) + n \<le> unat (lim s))"
begin

lemma run_lim: "run step s es = Inr s' \<Longrightarrow> lim s' = lim s"
  by (rule run_preserves [where P = "\<lambda>t. lim t = lim s"]) (auto dest: lim_step)

lemma run_sent:
  "run step s es = Inr s' \<Longrightarrow> \<exists>n.
       tags (log s') = tags (log s) @ map (\<lambda>i. next_tag s + of_nat i) [0..<n]
     \<and> next_tag s' = next_tag s + of_nat n
     \<and> sent s' = sent s + of_nat n
     \<and> (lim s \<noteq> 0 \<longrightarrow> sent s \<le> lim s \<longrightarrow> unat (sent s) + n \<le> unat (lim s))"
proof (induction es arbitrary: s)
  case Nil
  then show ?case by (intro exI [of _ 0]) (simp add: word_le_nat_alt)
next
  case (Cons e es)
  then obtain t where t: "step s e = Inr t" "run step t es = Inr s'"
    by (auto simp: bnd_eq_Inr)
  obtain m where m: "tags (log t) = tags (log s) @ map (\<lambda>i. next_tag s + of_nat i) [0..<m]"
    "next_tag t = next_tag s + of_nat m" "sent t = sent s + of_nat m"
    "lim s \<noteq> 0 \<Longrightarrow> sent s \<le> lim s \<Longrightarrow> unat (sent s) + m \<le> unat (lim s)"
    using sent_step [OF t(1)] by blast
  obtain n where n: "tags (log s') = tags (log t) @ map (\<lambda>i. next_tag t + of_nat i) [0..<n]"
    "next_tag s' = next_tag t + of_nat n" "sent s' = sent t + of_nat n"
    "lim t \<noteq> 0 \<Longrightarrow> sent t \<le> lim t \<Longrightarrow> unat (sent t) + n \<le> unat (lim t)"
    using Cons.IH [OF t(2)] by blast
  have l: "lim t = lim s" using t(1) by (rule lim_step)
  have "unat (sent s) + (m + n) \<le> unat (lim s)" if "lim s \<noteq> 0" "sent s \<le> lim s"
  proof -
    have le: "unat (sent s) + m \<le> unat (lim s)" by (rule m(4) [OF that])
    moreover have "unat (lim s) < 2 ^ LENGTH(64)" by (rule unsigned_less)
    ultimately have "unat (sent t) = unat (sent s) + m"
      by (simp add: m(3) unat_word_ariths unat_of_nat take_bit_nat_eq_self)
    then show ?thesis using n(4) le l that(1) by (simp add: word_le_nat_alt)
  qed
  moreover have "map (\<lambda>i. next_tag s + of_nat i) [0..<m + n]
      = map (\<lambda>i. next_tag s + of_nat i) [0..<m] @ map (\<lambda>i. next_tag t + of_nat i) [0..<n]"
    by (simp add: map_upt_split m(2) algebra_simps)
  ultimately show ?case
    using m n l by (intro exI [of _ "m + n"]) (simp add: algebra_simps)
qed

text \<open>Started with nothing sent: the number of deliveries is the counter, within the budget.\<close>

lemma run_within_budget:
  assumes "run step s es = Inr s'" and "lim s \<noteq> 0" and "sent s = 0" and "tags (log s) = []"
  shows "deliveries (log s') = unat (sent s')" and "sent s' \<le> lim s"
proof -
  obtain n where n: "tags (log s') = map (\<lambda>i. next_tag s + of_nat i) [0..<n]"
    "sent s' = of_nat n" "n \<le> unat (lim s)"
    using run_sent [OF assms(1)] assms(2-4) by (auto simp: word_le_nat_alt)
  have "unat (lim s) < 2 ^ LENGTH(64)" by (rule unsigned_less)
  with n have "unat (sent s') = n" by (simp add: unat_of_nat take_bit_nat_eq_self)
  with n show "deliveries (log s') = unat (sent s')" "sent s' \<le> lim s"
    by (simp_all add: deliveries_tags word_le_nat_alt)
qed

lemma run_tags_distinct:
  assumes "run step s es = Inr s'" and "tags (log s) = []" and "deliveries (log s') \<le> 2 ^ 64"
  shows "distinct (tags (log s'))"
proof -
  obtain n where n: "tags (log s') = map (\<lambda>i. next_tag s + of_nat i) [0..<n]"
    using run_sent [OF assms(1)] assms(2) by auto
  then have "n \<le> 2 ^ 64" using assms(3) by (simp add: deliveries_tags)
  moreover have "i = j" if "i < 2 ^ 64" "j < 2 ^ 64" "(of_nat i :: u64) = of_nat j" for i j
  proof -
    have "unat (of_nat i :: u64) = unat (of_nat j :: u64)" using that(3) by simp
    then show ?thesis using that(1,2) by (simp add: unat_of_nat take_bit_nat_eq_self)
  qed
  ultimately show ?thesis
    by (simp add: n distinct_map inj_on_def)
qed

end

locale budgeted_loop = budgeted_sender step log lim sent next_tag
  for step :: "'s \<Rightarrow> 'e \<Rightarrow> halt + 's" and log :: "'s \<Rightarrow> pn_call list"
    and lim sent next_tag :: "'s \<Rightarrow> u64" +
  fixes body :: "'l \<Rightarrow> 's \<Rightarrow> halt + 'l \<times> 's"
  assumes body_quiet: "body l s = Inr (l', s') \<Longrightarrow>
      lim s' = lim s \<and> sent s' = sent s \<and> next_tag s' = next_tag s \<and> tags (log s') = tags (log s)"

sublocale budgeted_loop \<subseteq> round: budgeted_sender "main_round step body" "log \<circ> snd" "lim \<circ> snd"
    "sent \<circ> snd" "next_tag \<circ> snd"
proof
  fix ls es ls'
  assume "main_round step body ls es = Inr ls'"
  then obtain t where t: "run step (snd ls) es = Inr t" "body (fst ls) t = Inr (fst ls', snd ls')"
    by (auto simp: main_round_def bnd_eq_Inr)
  show "(lim \<circ> snd) ls' = (lim \<circ> snd) ls"
    using run_lim [OF t(1)] body_quiet [OF t(2)] by simp
  show "\<exists>n. tags ((log \<circ> snd) ls') = tags ((log \<circ> snd) ls)
          @ map (\<lambda>i. (next_tag \<circ> snd) ls + of_nat i) [0..<n]
      \<and> (next_tag \<circ> snd) ls' = (next_tag \<circ> snd) ls + of_nat n
      \<and> (sent \<circ> snd) ls' = (sent \<circ> snd) ls + of_nat n
      \<and> ((lim \<circ> snd) ls \<noteq> 0 \<longrightarrow> (sent \<circ> snd) ls \<le> (lim \<circ> snd) ls
          \<longrightarrow> unat ((sent \<circ> snd) ls) + n \<le> unat ((lim \<circ> snd) ls))"
    using run_sent [OF t(1)] body_quiet [OF t(2)] by simp
qed

section \<open>A sender that keeps a ledger of acknowledgements\<close>

text \<open>
  Every terminal outcome is counted once in \<open>acked\<close> and once in \<open>accepted\<close> or in
  \<open>rejected\<close>, and settles its delivery, also counted in the log. \<open>reset\<close> marks the
  events that start a connection, which overwrite \<open>acked\<close>; \<open>presettled\<close> the clients
  that settle when they send.
\<close>

locale ledger_sender =
  fixes step :: "'s \<Rightarrow> 'e \<Rightarrow> halt + 's"
    and log :: "'s \<Rightarrow> pn_call list"
    and acked :: "'s \<Rightarrow> u64"
    and accepted :: "'s \<Rightarrow> u64"
    and rejected :: "'s \<Rightarrow> u64"
    and reset :: "'e \<Rightarrow> bool"
    and presettled :: "'s \<Rightarrow> bool"
  assumes presettled_step: "step s e = Inr s' \<Longrightarrow> presettled s' = presettled s"
    and ledger_step: "step s e = Inr s' \<Longrightarrow> \<not> reset e \<Longrightarrow>
          acked s' + accepted s + rejected s = acked s + accepted s' + rejected s'"
    and settle_step: "step s e = Inr s' \<Longrightarrow> \<not> reset e \<Longrightarrow> \<not> presettled s \<Longrightarrow>
          of_nat (settles (log s')) + acked s = of_nat (settles (log s)) + acked s'"
begin

lemma run_ledger:
  assumes "run step s es = Inr s'" and "\<forall>e\<in>set es. \<not> reset e"
    and "acked s = accepted s + rejected s"
  shows "acked s' = accepted s' + rejected s'"
proof (rule run_preserves [where P = "\<lambda>t. acked t = accepted t + rejected t", OF _ assms(3,1)])
  fix t e t'
  assume "acked t = accepted t + rejected t" "e \<in> set es" "step t e = Inr t'"
  then show "acked t' = accepted t' + rejected t'"
    using ledger_step [of t e t'] assms(2) by simp
qed

lemma run_presettled: "run step s es = Inr s' \<Longrightarrow> presettled s' = presettled s"
  by (rule run_preserves [where P = "\<lambda>t. presettled t = presettled s"]) (auto dest: presettled_step)

lemma run_settled:
  assumes "run step s es = Inr s'" and "\<forall>e\<in>set es. \<not> reset e" and "\<not> presettled s"
    and "of_nat (settles (log s)) = acked s"
  shows "of_nat (settles (log s')) = acked s'"
proof -
  let ?P = "\<lambda>t. \<not> presettled t \<and> of_nat (settles (log t)) = acked t"
  have "?P s'"
  proof (rule run_preserves [where P = ?P, OF _ _ assms(1)])
    show "?P s" using assms(3,4) by simp
  next
    fix t e t'
    assume "?P t" "e \<in> set es" "step t e = Inr t'"
    then show "?P t'"
      using settle_step [of t e t'] presettled_step [of t e t'] assms(2) by simp
  qed
  then show ?thesis by simp
qed

end

locale ledger_loop = ledger_sender step log acked accepted rejected reset presettled
  for step :: "'s \<Rightarrow> 'e \<Rightarrow> halt + 's" and log :: "'s \<Rightarrow> pn_call list"
    and acked accepted rejected :: "'s \<Rightarrow> u64" and reset :: "'e \<Rightarrow> bool" and presettled :: "'s \<Rightarrow> bool" +
  fixes body :: "'l \<Rightarrow> 's \<Rightarrow> halt + 'l \<times> 's"
  assumes body_still: "body l s = Inr (l', s') \<Longrightarrow>
      acked s' = acked s \<and> accepted s' = accepted s \<and> rejected s' = rejected s
      \<and> presettled s' = presettled s \<and> settles (log s') = settles (log s)"
begin

text \<open>Whole programs: connection start first, on a fresh ledger, and not again.\<close>

lemma loop_ledger:
  assumes "run (main_round step body) ls ess = Inr ls'" and "\<forall>es\<in>set ess. \<forall>e\<in>set es. \<not> reset e"
    and "acked (snd ls) = accepted (snd ls) + rejected (snd ls)"
  shows "acked (snd ls') = accepted (snd ls') + rejected (snd ls')"
proof (rule run_preserves [where P = "\<lambda>t. acked (snd t) = accepted (snd t) + rejected (snd t)",
      OF _ assms(3,1)])
  fix t es t'
  assume a: "acked (snd t) = accepted (snd t) + rejected (snd t)" "es \<in> set ess"
    "main_round step body t es = Inr t'"
  then obtain u where u: "run step (snd t) es = Inr u" "body (fst t) u = Inr (fst t', snd t')"
    by (auto simp: main_round_def bnd_eq_Inr)
  show "acked (snd t') = accepted (snd t') + rejected (snd t')"
    using run_ledger [OF u(1)] body_still [OF u(2)] a(1,2) assms(2) by simp
qed

lemma loop_settled:
  assumes "run (main_round step body) ls ess = Inr ls'" and "\<forall>es\<in>set ess. \<forall>e\<in>set es. \<not> reset e"
    and "\<not> presettled (snd ls)" and "of_nat (settles (log (snd ls))) = acked (snd ls)"
  shows "of_nat (settles (log (snd ls'))) = acked (snd ls')"
proof -
  let ?P = "\<lambda>t. \<not> presettled (snd t) \<and> of_nat (settles (log (snd t))) = acked (snd t)"
  have "?P ls'"
  proof (rule run_preserves [where P = ?P, OF _ _ assms(1)])
    show "?P ls" using assms(3,4) by simp
  next
    fix t es t'
    assume a: "?P t" "es \<in> set ess" "main_round step body t es = Inr t'"
    then obtain u where u: "run step (snd t) es = Inr u" "body (fst t) u = Inr (fst t', snd t')"
      by (auto simp: main_round_def bnd_eq_Inr)
    have "presettled u = presettled (snd t)" by (rule run_presettled [OF u(1)])
    then show "?P t'"
      using run_settled [OF u(1)] body_still [OF u(2)] a(1,2) assms(2) by simp
  qed
  then show ?thesis by simp
qed

end

section \<open>A sender that waits for its acknowledgement\<close>

text \<open>
  The balance of a step: a delivery is created only when none is pending, and what stops
  it from pending settles it. Over a run, at most one delivery is not settled.
\<close>

locale blocking_sender =
  fixes step :: "'s \<Rightarrow> 'e \<Rightarrow> halt + 's"
    and log :: "'s \<Rightarrow> pn_call list"
    and pending :: "'s \<Rightarrow> bool"
  assumes balance_step: "step s e = Inr s' \<Longrightarrow>
      deliveries (log s') + settles (log s) + of_bool (pending s)
        \<le> deliveries (log s) + settles (log s') + of_bool (pending s')"
begin

lemma run_balance:
  "run step s es = Inr s' \<Longrightarrow>
      deliveries (log s') + settles (log s) + of_bool (pending s)
        \<le> deliveries (log s) + settles (log s') + of_bool (pending s')"
proof (induction es arbitrary: s)
  case Nil
  then show ?case by simp
next
  case (Cons e es)
  then obtain t where t: "step s e = Inr t" "run step t es = Inr s'"
    by (auto simp: bnd_eq_Inr)
  show ?case using balance_step [OF t(1)] Cons.IH [OF t(2)] by linarith
qed

lemma run_one_unsettled:
  assumes "run step s es = Inr s'" and "deliveries (log s) = 0"
  shows "deliveries (log s') \<le> settles (log s') + 1"
  using run_balance [OF assms(1)] assms(2)
  by (cases "pending s'") simp_all

end

locale blocking_loop = blocking_sender step log pending
  for step :: "'s \<Rightarrow> 'e \<Rightarrow> halt + 's" and log :: "'s \<Rightarrow> pn_call list" and pending :: "'s \<Rightarrow> bool" +
  fixes body :: "'l \<Rightarrow> 's \<Rightarrow> halt + 'l \<times> 's"
  assumes body_idle: "body l s = Inr (l', s') \<Longrightarrow>
      pending s' = pending s \<and> deliveries (log s') = deliveries (log s) \<and> settles (log s') = settles (log s)"

sublocale blocking_loop \<subseteq> round: blocking_sender "main_round step body" "log \<circ> snd" "pending \<circ> snd"
proof
  fix ls es ls'
  assume "main_round step body ls es = Inr ls'"
  then obtain t where t: "run step (snd ls) es = Inr t" "body (fst ls) t = Inr (fst ls', snd ls')"
    by (auto simp: main_round_def bnd_eq_Inr)
  show "deliveries ((log \<circ> snd) ls') + settles ((log \<circ> snd) ls) + of_bool ((pending \<circ> snd) ls)
      \<le> deliveries ((log \<circ> snd) ls) + settles ((log \<circ> snd) ls') + of_bool ((pending \<circ> snd) ls')"
    using run_balance [OF t(1)] body_idle [OF t(2)] by simp
qed

section \<open>A receiver that keeps a window of credit\<close>

text \<open>
  The credit outstanding is what was granted less what was settled: the receivers settle
  every message once. \<open>arrival e\<close> is the link credit the library reports when the event
  \<open>e\<close> delivers a whole message; \<open>honest\<close> says of a run that these reports are true, that is
  the credit outstanding before the message less the one it used.
\<close>

definition credit_balance :: "pn_call list \<Rightarrow> int" where
  "credit_balance cs = flows cs - int (settles cs)"

fun honest :: "('s \<Rightarrow> 'e \<Rightarrow> halt + 's) \<Rightarrow> ('s \<Rightarrow> pn_call list) \<Rightarrow> ('s \<Rightarrow> bool) \<Rightarrow> ('e \<Rightarrow> int option)
    \<Rightarrow> 's \<Rightarrow> 'e list \<Rightarrow> bool" where
  "honest step log full arrival s [] = True"
| "honest step log full arrival s (e # es) =
     ((full s \<or> (case arrival e of None \<Rightarrow> True | Some c \<Rightarrow> 0 \<le> c \<and> c = credit_balance (log s) - 1))
      \<and> (case step s e of Inl h \<Rightarrow> True | Inr s' \<Rightarrow> honest step log full arrival s' es))"

definition in_window :: "int \<Rightarrow> bool \<Rightarrow> int \<Rightarrow> bool" where
  "in_window w full b \<longleftrightarrow> b \<le> w \<and> (full \<or> w sdiv 2 < b)"

locale crediting_receiver =
  fixes step :: "'s \<Rightarrow> 'e \<Rightarrow> halt + 's"
    and log :: "'s \<Rightarrow> pn_call list"
    and window :: "'s \<Rightarrow> int"
    and full :: "'s \<Rightarrow> bool"
    and opens :: "'e \<Rightarrow> bool"
    and arrival :: "'e \<Rightarrow> int option"
  assumes window_step: "step s e = Inr s' \<Longrightarrow> window s' = window s"
    and quiet_step: "step s e = Inr s' \<Longrightarrow> \<not> opens e \<Longrightarrow> arrival e = None \<or> full s \<Longrightarrow>
          credit_balance (log s') = credit_balance (log s) \<and> (full s \<longrightarrow> full s')"
    and arrival_step: "step s e = Inr s' \<Longrightarrow> \<not> opens e \<Longrightarrow> arrival e = Some c \<Longrightarrow> \<not> full s \<Longrightarrow>
          0 \<le> c \<Longrightarrow> 0 < window s \<Longrightarrow> window s < 2 ^ 31 \<Longrightarrow>
          credit_balance (log s') = credit_balance (log s) - 1
            + (if full s' \<or> window s sdiv 2 < c then 0 else window s - c)"
begin

lemma run_in_window:
  assumes "run step s es = Inr s'" and "honest step log full arrival s es"
    and "\<forall>e\<in>set es. \<not> opens e" and "0 < window s" and "window s < 2 ^ 31"
    and "in_window (window s) (full s) (credit_balance (log s))"
  shows "in_window (window s') (full s') (credit_balance (log s')) \<and> window s' = window s"
  using assms
proof (induction es arbitrary: s)
  case Nil
  then show ?case by simp
next
  case (Cons e es)
  obtain t where t: "step s e = Inr t" "run step t es = Inr s'"
    using Cons.prems(1) by (auto simp: bnd_eq_Inr)
  have w: "window t = window s" by (rule window_step [OF t(1)])
  have e: "\<not> opens e" using Cons.prems(3) by simp
  have "in_window (window t) (full t) (credit_balance (log t))"
  proof (cases "arrival e = None \<or> full s")
    case True
    then show ?thesis using quiet_step [OF t(1) e True] Cons.prems(6) w by (auto simp: in_window_def)
  next
    case False
    then obtain c where c: "arrival e = Some c" "\<not> full s" by auto
    with Cons.prems(2) have b: "0 \<le> c" "c = credit_balance (log s) - 1" by simp_all
    have "c < window s" using b Cons.prems(6) by (simp add: in_window_def)
    then show ?thesis
      using arrival_step [OF t(1) e c b(1) Cons.prems(4,5)] b(2) w Cons.prems(4)
      by (auto simp: in_window_def signed_divide_int_def)
  qed
  moreover have "honest step log full arrival t es" using Cons.prems(2) t(1) by simp
  ultimately have "in_window (window s') (full s') (credit_balance (log s')) \<and> window s' = window t"
    by (intro Cons.IH [OF t(2)]) (use Cons.prems(3-5) w in \<open>simp_all only: list.set_intros ball_simps insert_iff list.set\<close>, use w in simp_all)
  then show ?case unfolding w .
qed

end

end
