(* ===== verification/Tx.thy ===== *)
theory Tx
  imports Encode Stats Contracts
begin

text \<open>
  What the benchmark clients of \<open>benchmarks/clients/src/\<close> have in common: the globals of
  every client, those of the senders, the signal handler, the encoding half of
  \<open>generate_message()\<close>, and how many messages a grant of credit lets a sender write.
\<close>

section \<open>The globals of a client\<close>

text \<open>
  \<open>g_ssn\<close> and \<open>g_link\<close> say whether the global pointers \<open>pn_ssn\<close> and \<open>pn_link\<close> are set;
  \<open>sig_ign\<close> that the signals are ignored from now on.
\<close>

record client = world +
  stop :: bool
  limit :: u64
  count :: u64
  host_address :: string
  container_name :: string
  g_ssn :: bool
  g_link :: bool
  sig_ign :: bool

record tx = client +
  acked :: u64
  accepted :: u64
  not_accepted :: u64
  tag :: u64
  use_anonymous :: bool
  body_size :: int
  encode_buffer :: "u8 list option"
  encode_buffer_size :: u64
  encoded_data_size :: u64
  target_address :: string

lemma emit_client [simp]:
  "stop (emit cs s) = stop s" "limit (emit cs s) = limit s" "count (emit cs s) = count s"
  "host_address (emit cs s) = host_address s" "container_name (emit cs s) = container_name s"
  "g_ssn (emit cs s) = g_ssn s" "g_link (emit cs s) = g_link s" "sig_ign (emit cs s) = sig_ign s"
  by (simp_all add: emit_def)

lemma emit_tx [simp]:
  "acked (emit cs s) = acked s" "accepted (emit cs s) = accepted s"
  "not_accepted (emit cs s) = not_accepted s" "tag (emit cs s) = tag s"
  "use_anonymous (emit cs s) = use_anonymous s" "body_size (emit cs s) = body_size s"
  "encode_buffer (emit cs s) = encode_buffer s"
  "encode_buffer_size (emit cs s) = encode_buffer_size s"
  "encoded_data_size (emit cs s) = encoded_data_size s"
  "target_address (emit cs s) = target_address s"
  by (simp_all add: emit_def)

section \<open>Signals\<close>

datatype signal = SIGINT | SIGQUIT | SIGOTHER

text \<open>The handler is installed for both signals and disables both on its first call.\<close>

definition signal_handler :: "signal \<Rightarrow> 'a client_scheme \<Rightarrow> 'a client_scheme" where
  "signal_handler sig s =
     (if sig_ign s then s
      else let s = s\<lparr>sig_ign := True\<rparr> in
        (case sig of
           SIGINT \<Rightarrow> emit [PnReactorWakeup] (s\<lparr>stop := True\<rparr>)
         | SIGQUIT \<Rightarrow> emit [PnReactorWakeup] (s\<lparr>stop := True\<rparr>)
         | SIGOTHER \<Rightarrow> s))"

lemma signal_handler_eq:
  "signal_handler sig s =
     (let armed = (\<not> sig_ign s \<and> sig \<noteq> SIGOTHER)
      in s\<lparr>sig_ign := True, stop := stop s \<or> armed,
           out := out s @ (if armed then [PnReactorWakeup] else [])\<rparr>)"
  by (cases sig) (auto simp: signal_handler_def emit_def)

section \<open>Encoding a message into the client's buffer\<close>

definition zero_block :: "u64 \<Rightarrow> u8 list" where
  "zero_block n = replicate (unat n) 0"

definition encode_message :: "encoder \<Rightarrow> message \<Rightarrow> 'a tx_scheme \<Rightarrow> halt + 'a tx_scheme" where
  "encode_message enc m s =
     (let s = (if encode_buffer s = None
               then s\<lparr>encode_buffer_size := word_of_int (body_size s + 512), encode_buffer := Some []\<rparr>
               else s)
      in case encode_loop (enc m) (encode_buffer_size s) of
           None \<Rightarrow> Inl Hang
         | Some (sz, Encoded bs) \<Rightarrow>
             Inr (s\<lparr>encode_buffer := Some bs, encode_buffer_size := sz,
                    encoded_data_size := of_nat (length bs)\<rparr>)
         | Some (sz, rc) \<Rightarrow> Inl (Exit (- 1)))"

text \<open>What \<open>pn_link_send(sender, encode_buffer, encoded_data_size)\<close> writes.\<close>

definition payload :: "'a tx_scheme \<Rightarrow> u8 list" where
  "payload s =
     (case encode_buffer s of None \<Rightarrow> [] | Some bs \<Rightarrow> take (unat (encoded_data_size s)) bs)"

lemma payload_cong:
  "encode_buffer s = encode_buffer t \<Longrightarrow> encoded_data_size s = encoded_data_size t \<Longrightarrow>
     payload s = payload t"
  unfolding payload_def by presburger

lemma encode_message_Inr:
  "encode_message enc m s = Inr s' \<Longrightarrow>
     \<exists>bs sz. s' = s\<lparr>encode_buffer := Some bs, encode_buffer_size := sz,
                     encoded_data_size := of_nat (length bs)\<rparr>"
  by (auto simp: encode_message_def Let_def split: if_splits option.splits enc_result.splits)
    (rule exI, rule exI, rule refl)+

text \<open>With the documented encoder the message is encoded, whole, and the buffer holds it.\<close>

lemma encode_message_encodes:
  assumes "encodes_as enc m bs" and "length bs \<le> 2 ^ 63"
    and "0 \<le> body_size s" and "body_size s < 2 ^ 31"
    and "encode_buffer s \<noteq> None \<Longrightarrow> 0 < unat (encode_buffer_size s)"
  shows "\<exists>s'. encode_message enc m s = Inr s' \<and> payload s' = bs
           \<and> length bs \<le> unat (encode_buffer_size s')"
proof -
  define n where "n = (if encode_buffer s = None then word_of_int (body_size s + 512)
    else encode_buffer_size s)"
  have "unat (word_of_int (body_size s + 512) :: u64) = nat (body_size s + 512)"
    using assms(3,4) by (intro unat_word_of_int) auto
  moreover have "0 < nat (body_size s + 512)" using assms(3) by simp
  ultimately have "0 < unat n" using assms(5) unfolding n_def by metis
  from encode_loop_returns [OF assms(1) this assms(2)] obtain sz where
    sz: "encode_loop (enc m) n = Some (sz, Encoded bs)" "length bs \<le> unat sz" by blast
  define t where "t = s\<lparr>encode_buffer := Some bs, encode_buffer_size := sz,
    encoded_data_size := of_nat (length bs)\<rparr>"
  have "encode_message enc m s = Inr t"
    using sz(1) by (cases "encode_buffer s"; simp add: encode_message_def n_def t_def)
  moreover have "payload t = bs"
    using assms(2) by (simp add: payload_def t_def unat_of_nat take_bit_nat_eq_self)
  ultimately show ?thesis using sz(2) by (auto simp: t_def)
qed

text \<open>What encoding needs of the client's state, and keeps.\<close>

definition encode_ready :: "'a tx_scheme \<Rightarrow> bool" where
  "encode_ready s \<longleftrightarrow> 0 \<le> body_size s \<and> body_size s < 2 ^ 31
     \<and> (encode_buffer s \<noteq> None \<longrightarrow> 0 < unat (encode_buffer_size s))"

lemma encode_message_total:
  assumes "encoder_works enc" and "encode_ready s"
  shows "\<exists>s'. encode_message enc m s = Inr s' \<and> encode_ready s'"
proof -
  obtain bs where bs: "encodes_as enc m bs" "length bs \<le> 2 ^ 63"
    using assms(1) by (auto simp: encoder_works_def)
  define n where "n = (if encode_buffer s = None then word_of_int (body_size s + 512)
    else encode_buffer_size s)"
  have "unat (word_of_int (body_size s + 512) :: u64) = nat (body_size s + 512)"
    using assms(2) by (intro unat_word_of_int) (auto simp: encode_ready_def)
  moreover have "0 < nat (body_size s + 512)" using assms(2) by (simp add: encode_ready_def)
  ultimately have n: "0 < unat n" using assms(2) unfolding n_def encode_ready_def by metis
  from encode_loop_returns [OF bs(1) this bs(2)] obtain sz where
    sz: "encode_loop (enc m) n = Some (sz, Encoded bs)" "length bs \<le> unat sz"
      "sz = n \<or> unat sz < 2 * length bs" by blast
  have "0 < unat sz" using sz(2,3) n by auto
  then have "encode_ready (s\<lparr>encode_buffer := Some bs, encode_buffer_size := sz,
      encoded_data_size := of_nat (length bs)\<rparr>)"
    using assms(2) by (simp add: encode_ready_def)
  moreover have "encode_message enc m s = Inr (s\<lparr>encode_buffer := Some bs, encode_buffer_size := sz,
      encoded_data_size := of_nat (length bs)\<rparr>)"
    using sz(1) by (cases "encode_buffer s"; simp add: encode_message_def n_def)
  ultimately show ?thesis by blast
qed

section \<open>How many messages a grant of credit buys\<close>

definition quota :: "u64 \<Rightarrow> u64 \<Rightarrow> int \<Rightarrow> nat" where
  "quota lmt cnt credit =
     (if lmt = 0 then nat credit else min (nat credit) (unat lmt - unat cnt))"

lemma quota_step:
  assumes "0 < credit" and "lmt = 0 \<or> cnt < lmt"
  shows "quota lmt cnt credit = Suc (quota lmt (cnt + 1) (credit - 1))"
proof (cases "lmt = 0")
  case True
  then show ?thesis using assms(1) by (simp add: quota_def nat_eq_iff2)
next
  case False
  then have "cnt < lmt" using assms(2) by simp
  then have "unat (cnt + 1) = Suc (unat cnt)" "unat cnt < unat lmt"
    by (simp_all add: unat_Suc_word word_less_nat_alt)
  then show ?thesis using False assms(1) by (simp add: quota_def min_def nat_eq_iff2) linarith
qed

lemma quota_zero:
  "\<not> (0 < credit \<and> (lmt = 0 \<or> cnt < lmt)) \<Longrightarrow> quota lmt cnt credit = 0"
  by (auto simp: quota_def word_less_nat_alt)

lemma quota_le_credit: "0 \<le> credit \<Longrightarrow> int (quota lmt cnt credit) \<le> credit"
  by (simp add: quota_def min_def) linarith

lemma quota_within:
  "lmt \<noteq> 0 \<Longrightarrow> cnt \<le> lmt \<Longrightarrow> unat cnt + quota lmt cnt credit \<le> unat lmt"
  by (simp add: quota_def word_le_nat_alt)

lemma map_quota_Suc:
  "map (\<lambda>i. (t::u64) + of_nat i) [0..<Suc n] = t # map (\<lambda>i. (t + 1) + of_nat i) [0..<n]"
  by (simp add: map_upt_Suc add.assoc del: upt_Suc) 

section \<open>Events and the calls that write messages\<close>

text \<open>
  The events the senders handle, with what the handler asks about them: the credit of the
  link, whether the delivery was updated and its remote state. Everything else is ignored.
\<close>

datatype tx_event =
    PN_CONNECTION_INIT
  | PN_CONNECTION_BOUND
  | PN_LINK_FLOW int
  | PN_DELIVERY bool disposition int
  | PN_SIGNAL signal
  | PN_OTHER_EVENT

text \<open>
  The calls that write one message: create the delivery, send its bytes, advance the link,
  and settle if the client sends presettled; and those that write several, with tags that
  count up from \<open>t\<close>.
\<close>

definition message_block :: "bool \<Rightarrow> u64 \<Rightarrow> u8 list \<Rightarrow> pn_call list" where
  "message_block presettled t bs =
     [PnDelivery t, PnLinkSend bs, PnLinkAdvance] @ (if presettled then [PnSettle] else [])"

fun message_blocks :: "bool \<Rightarrow> u64 \<Rightarrow> u8 list list \<Rightarrow> pn_call list" where
  "message_blocks presettled t [] = []"
| "message_blocks presettled t (p # ps) =
     message_block presettled t p @ message_blocks presettled (t + 1) ps"

lemma tags_message_blocks [simp]:
  "tags (message_blocks b t ps) = map (\<lambda>i. t + of_nat i) [0..<length ps]"
  by (induction ps arbitrary: t) (simp_all add: message_block_def map_quota_Suc del: upt_Suc)

lemma settles_message_blocks [simp]:
  "settles (message_blocks b t ps) = (if b then length ps else 0)"
  by (induction ps arbitrary: t) (simp_all add: message_block_def)

lemma closings_message_blocks [simp]: "closings (message_blocks b t ps) = 0"
  by (induction ps arbitrary: t) (simp_all add: message_block_def)

lemma sent_bytes_message_blocks [simp]: "sent_bytes (message_blocks b t ps) = concat ps"
  by (induction ps arbitrary: t) (simp_all add: message_block_def)

section \<open>Command line\<close>

text \<open>
  What \<open>getopt()\<close> returned: an option character (\<open>?\<close> for an unknown one) and its argument.
  \<open>usage()\<close> prints and exits with status 1.
\<close>

type_synonym opt = "char \<times> string"

definition usage :: "halt + 'a" where
  "usage = Inl (Exit 1)"

fun parse_opts :: "(opt \<Rightarrow> 's \<Rightarrow> halt + 's) \<Rightarrow> opt list \<Rightarrow> 's \<Rightarrow> halt + 's" where
  "parse_opts f [] s = Inr s"
| "parse_opts f (p # ps) s = bnd (f p s) (parse_opts f ps)"

lemma parse_opts_preserves:
  assumes "\<And>p s s'. f p s = Inr s' \<Longrightarrow> P s \<Longrightarrow> P s'" and "P s" and "parse_opts f ps s = Inr s'"
  shows "P s'"
  using assms(2,3)
  by (induction ps arbitrary: s) (auto simp: bnd_eq_Inr intro: assms(1))

text \<open>\<open>switch (optarg[0])\<close>: the first character, the terminating zero for an empty argument.\<close>

definition first_char :: "string \<Rightarrow> char" where
  "first_char s = (case s of [] \<Rightarrow> CHR 0x00 | c # _ \<Rightarrow> c)"

end
