(* ===== verification/Sender.thy ===== *)
theory Sender
  imports Tx
begin

text \<open>
  \<open>benchmarks/clients/src/sender.c\<close>: sends up to \<open>limit\<close> messages as fast as the credit
  of its link allows, counts the acknowledgements, and measures the time it is stalled
  without credit.
\<close>

section \<open>State\<close>

record sender = tx +
  presettle :: bool
  add_timestamp :: bool
  add_annotations :: bool
  start_ts :: int
  stop_ts :: int
  ack_start_ts :: int
  ack_stop_ts :: int
  start_stall :: timespec
  stalled :: bool
  worse_stall :: u64
  total_stall :: u64
  stall_count :: int
  sum_of_squares :: u64
  credit_grants :: u64
  grant_count :: int

definition BODY_SIZE_SMALL :: int where "BODY_SIZE_SMALL = 100"
definition BODY_SIZE_MEDIUM :: int where "BODY_SIZE_MEDIUM = 2000"
definition BODY_SIZE_LARGE :: int where "BODY_SIZE_LARGE = 60000"

definition snd_globals :: sender where
  "snd_globals = \<lparr>
     clk = 0, out = [], stop = False, limit = 1, count = 0,
     host_address = ''127.0.0.1:5672'', container_name = ''BenchSender'',
     g_ssn = False, g_link = False, sig_ign = False,
     acked = 0, accepted = 0, not_accepted = 0, tag = 0,
     use_anonymous = False, body_size = BODY_SIZE_SMALL,
     encode_buffer = None, encode_buffer_size = 0, encoded_data_size = 0,
     target_address = ''benchmark'',
     presettle = False, add_timestamp = False, add_annotations = False,
     start_ts = 0, stop_ts = 0, ack_start_ts = 0, ack_stop_ts = 0,
     start_stall = \<lparr>tv_sec = 0, tv_nsec = 0\<rparr>, stalled = False,
     worse_stall = 0, total_stall = 0, stall_count = 0, sum_of_squares = 0,
     credit_grants = 0, grant_count = 0\<rparr>"

section \<open>Building the message\<close>

definition snd_message :: "int \<Rightarrow> 'a sender_scheme \<Rightarrow> message" where
  "snd_message now s = \<lparr>
     msg_address = Some (target_address s), msg_priority = None,
     msg_annotations = (if add_annotations s then add_message_annotations else []),
     msg_body = [DClear, DPutList, DEnter, DPutLong now,
                 DPutBinary (zero_block (word_of_int (body_size s - 8))), DExit, DRewind]\<rparr>"

definition snd_generate_message :: "encoder \<Rightarrow> int \<Rightarrow> 'a sender_scheme \<Rightarrow> halt + 'a sender_scheme" where
  "snd_generate_message enc now s = encode_message enc (snd_message now s) s"

section \<open>Sending\<close>

definition record_stall :: "'a sender_scheme \<Rightarrow> u64 \<Rightarrow> 'a sender_scheme" where
  "record_stall s diff = s\<lparr>
     stall_count := stall_count s + 1,
     total_stall := total_stall s + diff,
     sum_of_squares := sum_of_squares s + diff * diff,
     worse_stall := (if worse_stall s < diff then diff else worse_stall s)\<rparr>"

definition end_stall :: "clock \<Rightarrow> 'a sender_scheme \<Rightarrow> halt + 'a sender_scheme" where
  "end_stall clock s =
     (if stalled s then
        bnd (now_timespec clock s) (\<lambda>(end', s).
          let diff = diff_timespec_usec (start_stall s) end';
              s = (if 0 < diff then record_stall s (word_of_int diff) else s)
          in Inr (s\<lparr>stalled := False\<rparr>))
      else Inr s)"

definition begin_stall :: "clock \<Rightarrow> 'a sender_scheme \<Rightarrow> halt + 'a sender_scheme" where
  "begin_stall clock s =
     bnd (now_timespec clock (s\<lparr>stalled := True\<rparr>)) (\<lambda>(t, s). Inr (s\<lparr>start_stall := t\<rparr>))"

definition mark_start :: "clock \<Rightarrow> 'a sender_scheme \<Rightarrow> halt + 'a sender_scheme" where
  "mark_start clock s =
     (if start_ts s = 0 then bnd (now_usec clock s) (\<lambda>(t, s). Inr (s\<lparr>start_ts := t\<rparr>)) else Inr s)"

definition refresh_message :: "clock \<Rightarrow> encoder \<Rightarrow> 'a sender_scheme \<Rightarrow> halt + 'a sender_scheme" where
  "refresh_message clock enc s =
     (if add_timestamp s
      then bnd (now_usec clock s) (\<lambda>(t, s). snd_generate_message enc t s)
      else Inr s)"

definition snd_send_one :: "clock \<Rightarrow> encoder \<Rightarrow> sender \<Rightarrow> halt + sender" where
  "snd_send_one clock enc s =
     (let s = s\<lparr>count := count s + 1\<rparr>;
          s = emit [PnDelivery (tag s)] s;
          s = s\<lparr>tag := tag s + 1\<rparr>
      in bnd (refresh_message clock enc s) (\<lambda>s.
         let s = emit [PnLinkSend (payload s), PnLinkAdvance] s in
         if presettle s then
           let s = emit [PnSettle] s in
           if limit s \<noteq> 0 \<and> count s = limit s
           then Inr (emit [PnReactorWakeup] (s\<lparr>stop := True\<rparr>))
           else Inr s
         else Inr s))"

text \<open>The loop returns the credit that is left.\<close>

fun snd_send_loop :: "clock \<Rightarrow> encoder \<Rightarrow> nat \<Rightarrow> sender \<Rightarrow> halt + nat \<times> sender" where
  "snd_send_loop clock enc 0 s = Inr (0, s)"
| "snd_send_loop clock enc (Suc credit) s =
     (if limit s = 0 \<or> count s < limit s
      then bnd (snd_send_one clock enc s) (snd_send_loop clock enc credit)
      else Inr (Suc credit, s))"

definition snd_link_flow :: "clock \<Rightarrow> encoder \<Rightarrow> int \<Rightarrow> sender \<Rightarrow> halt + sender" where
  "snd_link_flow clock enc credit s =
     (if 0 < credit \<and> (limit s = 0 \<or> count s < limit s) then
        bnd (end_stall clock s) (\<lambda>s.
        let s = s\<lparr>grant_count := grant_count s + 1,
                  credit_grants := credit_grants s + word_of_int credit\<rparr> in
        bnd (mark_start clock s) (\<lambda>s.
        bnd (snd_send_loop clock enc (nat credit) s) (\<lambda>(credit, s).
        if limit s \<noteq> 0 \<and> count s = limit s
        then bnd (now_usec clock s) (\<lambda>(t, s). Inr (s\<lparr>stop_ts := t\<rparr>))
        else if credit = 0 then begin_stall clock s
        else Inr s)))
      else Inr s)"

section \<open>The event handler\<close>

definition snd_connection_init :: "clock \<Rightarrow> encoder \<Rightarrow> sender \<Rightarrow> halt + sender" where
  "snd_connection_init clock enc s =
     (let s = emit ([PnConnectionOpen, PnSession, PnSessionOpen, PnSender ''MySender'']
                    @ (if use_anonymous s then [] else [PnSetTarget (target_address s)])
                    @ [PnLinkOpen]) s;
          s = s\<lparr>acked := count s\<rparr>
      in bnd (now_usec clock s) (\<lambda>(t, s). snd_generate_message enc t s))"

definition snd_outcome :: "clock \<Rightarrow> disposition \<Rightarrow> sender \<Rightarrow> halt + sender" where
  "snd_outcome clock rs s =
     (case rs of
        PN_RECEIVED \<Rightarrow> Inr s
      | PN_ACCEPTED \<Rightarrow>
          (let s = emit [PnSettle] (s\<lparr>acked := acked s + 1, accepted := accepted s + 1\<rparr>) in
           if ack_start_ts s = 0
           then bnd (now_usec clock s) (\<lambda>(t, s). Inr (s\<lparr>ack_start_ts := t\<rparr>))
           else Inr s)
      | _ \<Rightarrow> Inr (emit [PnSettle] (s\<lparr>acked := acked s + 1, not_accepted := not_accepted s + 1\<rparr>)))"

definition snd_delivery :: "clock \<Rightarrow> bool \<Rightarrow> disposition \<Rightarrow> sender \<Rightarrow> halt + sender" where
  "snd_delivery clock updated rs s =
     (if updated then
        bnd (snd_outcome clock rs s) (\<lambda>s.
        if limit s \<noteq> 0 \<and> acked s = limit s
        then bnd (now_usec clock (s\<lparr>stop := True\<rparr>)) (\<lambda>(t, s).
               Inr (emit [PnReactorWakeup] (s\<lparr>ack_stop_ts := t\<rparr>)))
        else Inr s)
      else Inr s)"

fun snd_event_handler :: "clock \<Rightarrow> encoder \<Rightarrow> sender \<Rightarrow> tx_event \<Rightarrow> halt + sender" where
  "snd_event_handler clock enc s PN_CONNECTION_INIT = snd_connection_init clock enc s"
| "snd_event_handler clock enc s (PN_LINK_FLOW credit) = snd_link_flow clock enc credit s"
| "snd_event_handler clock enc s (PN_DELIVERY updated rs _) = snd_delivery clock updated rs s"
| "snd_event_handler clock enc s (PN_SIGNAL sig) = Inr (signal_handler sig s)"
| "snd_event_handler clock enc s _ = Inr s"

section \<open>\<open>main\<close>\<close>

text \<open>
  The state of the option loop is the pair of the local \<open>print_deadline\<close> and the globals.
\<close>

definition snd_option :: "clock \<Rightarrow> opt \<Rightarrow> int \<times> 'a sender_scheme \<Rightarrow> halt + int \<times> 'a sender_scheme" where
  "snd_option clock p ds =
     (case (p, ds) of ((c, optarg), (deadline, s)) \<Rightarrow>
      if c = CHR ''h'' then usage
      else if c = CHR ''a'' then Inr (deadline, s\<lparr>host_address := optarg\<rparr>)
      else if c = CHR ''c'' then
        (case scan_u64 optarg of None \<Rightarrow> usage | Some n \<Rightarrow> Inr (deadline, s\<lparr>limit := n\<rparr>))
      else if c = CHR ''i'' then Inr (deadline, s\<lparr>container_name := optarg\<rparr>)
      else if c = CHR ''l'' then Inr (deadline, s\<lparr>add_timestamp := True\<rparr>)
      else if c = CHR ''n'' then Inr (deadline, s\<lparr>use_anonymous := True\<rparr>)
      else if c = CHR ''s'' then
        (if first_char optarg = CHR ''s'' then Inr (deadline, s\<lparr>body_size := BODY_SIZE_SMALL\<rparr>)
         else if first_char optarg = CHR ''m'' then Inr (deadline, s\<lparr>body_size := BODY_SIZE_MEDIUM\<rparr>)
         else if first_char optarg = CHR ''l'' then Inr (deadline, s\<lparr>body_size := BODY_SIZE_LARGE\<rparr>)
         else usage)
      else if c = CHR ''t'' then Inr (deadline, s\<lparr>target_address := optarg\<rparr>)
      else if c = CHR ''u'' then Inr (deadline, s\<lparr>presettle := True\<rparr>)
      else if c = CHR ''v'' then
        bnd (now_usec clock s) (\<lambda>(t, s). Inr (t + 10 * USECS_PER_SECOND, s))
      else if c = CHR ''M'' then Inr (deadline, s\<lparr>add_annotations := True\<rparr>)
      else usage)"

text \<open>
  One round of \<open>while (pn_reactor_process(reactor))\<close>: the events of the batch, then the
  body of the loop. The locals are \<open>print_deadline\<close> and \<open>printed\<close>.
\<close>

definition snd_loop_body ::
    "clock \<Rightarrow> int \<times> bool \<Rightarrow> 'a sender_scheme \<Rightarrow> halt + (int \<times> bool) \<times> 'a sender_scheme" where
  "snd_loop_body clock loc s =
     (case loc of (deadline, printed) \<Rightarrow>
      if stop s then
        bnd (if \<not> printed \<and> count s \<noteq> 0
             then bnd (now_usec clock s) (\<lambda>(t, s). Inr (True, s)) else Inr (printed, s)) (\<lambda>(printed, s).
        Inr ((deadline, printed),
             emit ((if g_link s then [PnLinkClose] else [])
                   @ (if g_ssn s then [PnSessionClose] else []) @ [PnConnectionClose]) s))
      else if deadline \<noteq> 0 then
        bnd (now_usec clock s) (\<lambda>(t, s).
        if deadline \<le> t
        then bnd (now_usec clock s) (\<lambda>(t, s). Inr ((t + 10 * USECS_PER_SECOND, printed), s))
        else Inr ((deadline, printed), s))
      else Inr (loc, s))"

text \<open>The whole program up to the reports: options, reactor set-up, rounds of events.\<close>

definition snd_main :: "clock \<Rightarrow> encoder \<Rightarrow> opt list \<Rightarrow> tx_event list list \<Rightarrow> halt + sender" where
  "snd_main clock enc opts ess =
     bnd (parse_opts (snd_option clock) opts (0, snd_globals)) (\<lambda>(deadline, s).
     bnd (run (main_round (snd_event_handler clock enc) (snd_loop_body clock))
           ((deadline, False), emit [PnSetContainer (container_name s), PnSetHostname (host_address s)] s) ess) (\<lambda>(loc, s).
     Inr s))"

text \<open>
  The numbers of the closing report: the stalls (count, mean, variance) when there were
  any, and the counts the failure check compares.
\<close>

definition snd_stall_report :: "'a sender_scheme \<Rightarrow> (int \<times> u64 \<times> u64) option" where
  "snd_stall_report s =
     (if stall_count s \<noteq> 0 then
        (let n = word_of_int (stall_count s);
             imean = total_stall s div n;
             isos = sum_of_squares s div n;
             isos = isos - imean * imean
         in Some (stall_count s, imean, isos))
      else None)"

definition snd_failure_report :: "'a sender_scheme \<Rightarrow> bool" where
  "snd_failure_report s \<longleftrightarrow> not_accepted s \<noteq> 0 \<and> accepted s + not_accepted s \<noteq> count s"

section \<open>What one event does\<close>

lemma emit_sender [simp]:
  "presettle (emit cs s) = presettle s" "add_timestamp (emit cs s) = add_timestamp s"
  "add_annotations (emit cs s) = add_annotations s" "start_ts (emit cs s) = start_ts s"
  "stop_ts (emit cs s) = stop_ts s" "ack_start_ts (emit cs s) = ack_start_ts s"
  "ack_stop_ts (emit cs s) = ack_stop_ts s" "start_stall (emit cs s) = start_stall s"
  "stalled (emit cs s) = stalled s" "worse_stall (emit cs s) = worse_stall s"
  "total_stall (emit cs s) = total_stall s" "stall_count (emit cs s) = stall_count s"
  "sum_of_squares (emit cs s) = sum_of_squares s" "credit_grants (emit cs s) = credit_grants s"
  "grant_count (emit cs s) = grant_count s"
  by (simp_all add: emit_def)

lemma snd_generate_message_Inr:
  "snd_generate_message enc t s = Inr s' \<Longrightarrow>
     \<exists>b n l. s' = s\<lparr>encode_buffer := b, encode_buffer_size := n, encoded_data_size := l\<rparr>"
  by (auto simp: snd_generate_message_def dest!: encode_message_Inr)

lemma refresh_message_Inr:
  "refresh_message clock enc s = Inr s' \<Longrightarrow>
     \<exists>k b n l. s' = s\<lparr>clk := k, encode_buffer := b, encode_buffer_size := n, encoded_data_size := l\<rparr>
       \<and> (\<not> add_timestamp s \<longrightarrow> payload s' = payload s)"
proof (cases "add_timestamp s")
  case True
  moreover assume "refresh_message clock enc s = Inr s'"
  ultimately obtain t u where "now_usec clock s = Inr (t, u)" "snd_generate_message enc t u = Inr s'"
    by (auto simp: refresh_message_def bnd_eq_Inr)
  then show ?thesis
    using True by (auto dest!: now_usec_Inr snd_generate_message_Inr)
next
  case False
  moreover assume "refresh_message clock enc s = Inr s'"
  ultimately have "s' = s\<lparr>clk := clk s, encode_buffer := encode_buffer s,
      encode_buffer_size := encode_buffer_size s, encoded_data_size := encoded_data_size s\<rparr>"
    "payload s' = payload s"
    by (simp_all add: refresh_message_def)
  then show ?thesis by blast
qed

definition snd_last :: "'a sender_scheme \<Rightarrow> nat \<Rightarrow> bool" where
  "snd_last s n \<longleftrightarrow> 0 < n \<and> presettle s \<and> limit s \<noteq> 0 \<and> count s + of_nat n = limit s"

lemma snd_send_one_Inr:
  assumes "snd_send_one clock enc s = Inr s'"
  shows "\<exists>k b n l. s' = s\<lparr>clk := k,
           out := out s @ message_block (presettle s) (tag s) (payload s')
                  @ (if snd_last s 1 then [PnReactorWakeup] else []),
           stop := (stop s \<or> snd_last s 1), count := count s + 1, tag := tag s + 1,
           encode_buffer := b, encode_buffer_size := n, encoded_data_size := l\<rparr>
         \<and> (\<not> add_timestamp s \<longrightarrow> payload s' = payload s)"
proof -
  define t where "t = s\<lparr>count := count s + 1, out := out s @ [PnDelivery (tag s)], tag := tag s + 1\<rparr>"
  obtain u where u: "refresh_message clock enc t = Inr u"
    and s': "(let s = emit [PnLinkSend (payload u), PnLinkAdvance] u in
         if presettle s then
           let s = emit [PnSettle] s in
           if limit s \<noteq> 0 \<and> count s = limit s
           then Inr (emit [PnReactorWakeup] (s\<lparr>stop := True\<rparr>))
           else Inr s
         else Inr s) = (Inr s' :: halt + sender)"
    using assms by (auto simp: snd_send_one_def t_def emit_def bnd_eq_Inr Let_def)
  obtain k b n l where u': "u = t\<lparr>clk := k, encode_buffer := b, encode_buffer_size := n, encoded_data_size := l\<rparr>"
    "\<not> add_timestamp t \<longrightarrow> payload u = payload t"
    using refresh_message_Inr [OF u] by blast
  have p: "payload s' = payload u"
    using s' by (intro payload_cong) (auto simp: emit_def Let_def split: if_splits)
  have "s' = s\<lparr>clk := k,
           out := out s @ message_block (presettle s) (tag s) (payload s')
                  @ (if snd_last s 1 then [PnReactorWakeup] else []),
           stop := (stop s \<or> snd_last s 1), count := count s + 1, tag := tag s + 1,
           encode_buffer := b, encode_buffer_size := n, encoded_data_size := l\<rparr>"
    unfolding p
    using s' u'(1) by (auto simp: t_def emit_def message_block_def snd_last_def Let_def split: if_splits)
  moreover have "\<not> add_timestamp s \<longrightarrow> payload s' = payload s"
    using u'(2) payload_cong [of t s] unfolding p by (simp add: t_def)
  ultimately show ?thesis by blast
qed

lemma snd_send_loop_Inr:
  assumes "snd_send_loop clock enc c s = Inr (r, s')"
  shows "\<exists>ps k b n l. length ps = quota (limit s) (count s) (int c) \<and> r = c - length ps
       \<and> (\<not> add_timestamp s \<longrightarrow> set ps \<subseteq> {payload s}) \<and>
           s' = s\<lparr>clk := k,
             out := out s @ message_blocks (presettle s) (tag s) ps
                    @ (if snd_last s (length ps) then [PnReactorWakeup] else []),
             stop := (stop s \<or> snd_last s (length ps)),
             count := count s + of_nat (length ps), tag := tag s + of_nat (length ps),
             encode_buffer := b, encode_buffer_size := n, encoded_data_size := l\<rparr>"
  using assms
proof (induction c arbitrary: s)
  case 0
  then have "s' = s\<lparr>clk := clk s,
      out := out s @ message_blocks (presettle s) (tag s) []
             @ (if snd_last s (length []) then [PnReactorWakeup] else []),
      stop := (stop s \<or> snd_last s (length [])),
      count := count s + of_nat (length []), tag := tag s + of_nat (length []),
      encode_buffer := encode_buffer s, encode_buffer_size := encode_buffer_size s,
      encoded_data_size := encoded_data_size s\<rparr>" "r = 0 - length []"
    by (simp_all add: snd_last_def)
  moreover have "length [] = quota (limit s) (count s) (int 0)" "set [] \<subseteq> {payload s}"
    by (simp_all add: quota_def)
  ultimately show ?case by blast
next
  case (Suc c)
  show ?case
  proof (cases "limit s = 0 \<or> count s < limit s")
    case False
    then have "s' = s\<lparr>clk := clk s,
        out := out s @ message_blocks (presettle s) (tag s) []
               @ (if snd_last s (length []) then [PnReactorWakeup] else []),
        stop := (stop s \<or> snd_last s (length [])),
        count := count s + of_nat (length []), tag := tag s + of_nat (length []),
        encode_buffer := encode_buffer s, encode_buffer_size := encode_buffer_size s,
        encoded_data_size := encoded_data_size s\<rparr>" "r = Suc c - length []"
      using Suc.prems by (simp_all add: snd_last_def)
    moreover have "length [] = quota (limit s) (count s) (int (Suc c))" "set [] \<subseteq> {payload s}"
      using quota_zero False by simp_all
    ultimately show ?thesis by blast
  next
    case True
    then obtain t where t: "snd_send_one clock enc s = Inr t" "snd_send_loop clock enc c t = Inr (r, s')"
      using Suc.prems by (auto simp: bnd_eq_Inr)
    define p where "p = payload t"
    obtain k b n l where one: "t = s\<lparr>clk := k,
           out := out s @ message_block (presettle s) (tag s) p
                  @ (if snd_last s 1 then [PnReactorWakeup] else []),
           stop := (stop s \<or> snd_last s 1), count := count s + 1, tag := tag s + 1,
           encode_buffer := b, encode_buffer_size := n, encoded_data_size := l\<rparr>"
      and pay: "\<not> add_timestamp s \<longrightarrow> p = payload s"
      using snd_send_one_Inr [OF t(1)] unfolding p_def by blast
    obtain ps k' b' n' l' where ps: "length ps = quota (limit t) (count t) (int c)" "r = c - length ps"
      "\<not> add_timestamp t \<longrightarrow> set ps \<subseteq> {payload t}"
      "s' = t\<lparr>clk := k',
             out := out t @ message_blocks (presettle t) (tag t) ps
                    @ (if snd_last t (length ps) then [PnReactorWakeup] else []),
             stop := (stop t \<or> snd_last t (length ps)),
             count := count t + of_nat (length ps), tag := tag t + of_nat (length ps),
             encode_buffer := b', encode_buffer_size := n', encoded_data_size := l'\<rparr>"
      using Suc.IH [OF t(2)] by blast
    have q: "quota (limit s) (count s) (int (Suc c)) = Suc (length ps)"
      using quota_step [of "int (Suc c)" "limit s" "count s"] True one ps(1) by simp
    have last_now: "ps = []" if "snd_last s 1"
    proof -
      have "quota (limit t) (count t) (int c) = 0"
        using that one by (intro quota_zero) (simp add: snd_last_def)
      then show ?thesis using ps(1) by simp
    qed
    have last_then: "snd_last s (Suc (length ps)) \<longleftrightarrow> snd_last s 1 \<or> snd_last t (length ps)"
      using last_now one by (cases ps) (auto simp: snd_last_def algebra_simps)
    have not_both: "\<not> (snd_last s 1 \<and> snd_last t (length ps))"
      using last_now by (auto simp: snd_last_def)
    have "s' = s\<lparr>clk := k',
             out := out s @ message_blocks (presettle s) (tag s) (p # ps)
                    @ (if snd_last s (length (p # ps)) then [PnReactorWakeup] else []),
             stop := (stop s \<or> snd_last s (length (p # ps))),
             count := count s + of_nat (length (p # ps)), tag := tag s + of_nat (length (p # ps)),
             encode_buffer := b', encode_buffer_size := n', encoded_data_size := l'\<rparr>"
      using ps(4) one last_now last_then not_both
      by (cases "snd_last s 1") (auto simp: algebra_simps)
    moreover have "add_timestamp t = add_timestamp s" using one by simp
    then have "\<not> add_timestamp s \<longrightarrow> set (p # ps) \<subseteq> {payload s}"
      using ps(3) pay unfolding p_def [symmetric] by simp
    moreover have "length (p # ps) = quota (limit s) (count s) (int (Suc c))"
      "r = Suc c - length (p # ps)" using q ps(2) by simp_all
    ultimately show ?thesis
      by (intro exI [of _ "p # ps"] exI [of _ k'] exI [of _ b'] exI [of _ n'] exI [of _ l'] conjI)
  qed
qed

definition snd_view :: "'a sender_scheme \<Rightarrow>
    pn_call list \<times> bool \<times> u64 \<times> u64 \<times> u64 \<times> bool \<times> u64 \<times> u64 \<times> u64 \<times> bool \<times> bool" where
  "snd_view s = (out s, stop s, limit s, count s, tag s, presettle s, acked s, accepted s,
     not_accepted s, g_link s, g_ssn s)"

lemma end_stall_view: "end_stall clock s = Inr s' \<Longrightarrow> snd_view s' = snd_view s"
  by (auto simp: end_stall_def record_stall_def snd_view_def bnd_eq_Inr Let_def
      dest!: now_timespec_Inr split: if_splits)

lemma begin_stall_view: "begin_stall clock s = Inr s' \<Longrightarrow> snd_view s' = snd_view s"
  by (auto simp: begin_stall_def snd_view_def bnd_eq_Inr dest!: now_timespec_Inr)

lemma mark_start_view: "mark_start clock s = Inr s' \<Longrightarrow> snd_view s' = snd_view s"
  by (auto simp: mark_start_def snd_view_def bnd_eq_Inr dest!: now_usec_Inr split: if_splits)

lemma end_stall_message:
  "end_stall clock s = Inr s' \<Longrightarrow> payload s' = payload s \<and> add_timestamp s' = add_timestamp s"
  by (auto simp: end_stall_def record_stall_def bnd_eq_Inr Let_def
      dest!: now_timespec_Inr split: if_splits intro!: payload_cong)

lemma mark_start_message:
  "mark_start clock s = Inr s' \<Longrightarrow> payload s' = payload s \<and> add_timestamp s' = add_timestamp s"
  by (auto simp: mark_start_def bnd_eq_Inr dest!: now_usec_Inr split: if_splits
      intro!: payload_cong)

lemma snd_link_flow_view:
  assumes "snd_link_flow clock enc credit s = Inr s'"
  shows "\<exists>ps. length ps = quota (limit s) (count s) credit
    \<and> (\<not> add_timestamp s \<longrightarrow> set ps \<subseteq> {payload s}) \<and>
    snd_view s' = (out s @ message_blocks (presettle s) (tag s) ps
              @ (if snd_last s (length ps) then [PnReactorWakeup] else []),
            stop s \<or> snd_last s (length ps), limit s, count s + of_nat (length ps),
            tag s + of_nat (length ps), presettle s, acked s, accepted s, not_accepted s, g_link s, g_ssn s)"
proof (cases "0 < credit \<and> (limit s = 0 \<or> count s < limit s)")
  case False
  then have "s' = s" using assms by (auto simp: snd_link_flow_def)
  then show ?thesis using quota_zero [OF False]
    by (intro exI [of _ "[]"]) (simp add: snd_last_def snd_view_def)
next
  case True
  then obtain a b r c where a: "end_stall clock s = Inr a"
    and b: "mark_start clock (a\<lparr>grant_count := grant_count a + 1,
              credit_grants := credit_grants a + word_of_int credit\<rparr>) = Inr b"
    and c: "snd_send_loop clock enc (nat credit) b = Inr (r, c)"
    and s': "(if limit c \<noteq> 0 \<and> count c = limit c
        then bnd (now_usec clock c) (\<lambda>(t, s). Inr (s\<lparr>stop_ts := t\<rparr>))
        else if r = 0 then begin_stall clock c else Inr c) = Inr s'"
    using assms by (auto simp: snd_link_flow_def bnd_eq_Inr Let_def)
  have fb: "snd_view b = snd_view s"
    using end_stall_view [OF a] mark_start_view [OF b] by (simp add: snd_view_def)
  have pb: "payload b = payload s" "add_timestamp b = add_timestamp s"
    using end_stall_message [OF a] mark_start_message [OF b] payload_cong [of "a\<lparr>grant_count := grant_count a + 1,
              credit_grants := credit_grants a + word_of_int credit\<rparr>" a] by simp_all
  have fs: "snd_view s' = snd_view c"
    using s' by (auto simp: bnd_eq_Inr snd_view_def split: if_splits
        dest!: now_usec_Inr begin_stall_view)
  obtain ps k e n l where len: "length ps = quota (limit b) (count b) (int (nat credit))"
    and same: "\<not> add_timestamp b \<longrightarrow> set ps \<subseteq> {payload b}"
    and c': "c = b\<lparr>clk := k,
             out := out b @ message_blocks (presettle b) (tag b) ps
                    @ (if snd_last b (length ps) then [PnReactorWakeup] else []),
             stop := (stop b \<or> snd_last b (length ps)),
             count := count b + of_nat (length ps), tag := tag b + of_nat (length ps),
             encode_buffer := e, encode_buffer_size := n, encoded_data_size := l\<rparr>"
    using snd_send_loop_Inr [OF c] by blast
  have "snd_last b = snd_last s" using fb by (simp add: snd_view_def snd_last_def fun_eq_iff)
  then show ?thesis using True len fb same unfolding fs c' pb
    by (intro exI [of _ ps]) (simp add: snd_view_def)
qed

lemma snd_connection_init_Inr:
  assumes "snd_connection_init clock enc s = Inr s'"
  shows "\<exists>cs. out s' = out s @ cs \<and> tags cs = [] \<and> settles cs = 0 \<and> closings cs = 0
    \<and> g_link s' = g_link s \<and> g_ssn s' = g_ssn s \<and> stop s' = stop s
    \<and> count s' = count s \<and> tag s' = tag s \<and> limit s' = limit s \<and> presettle s' = presettle s
    \<and> acked s' = count s \<and> accepted s' = accepted s \<and> not_accepted s' = not_accepted s"
  using assms
  by (auto simp: snd_connection_init_def bnd_eq_Inr Let_def emit_def dest!: now_usec_Inr snd_generate_message_Inr)

lemma snd_outcome_Inr:
  assumes "snd_outcome clock rs s = Inr s'"
  shows "out s' = out s @ (if rs = PN_RECEIVED then [] else [PnSettle])
    \<and> stop s' = stop s \<and> count s' = count s \<and> tag s' = tag s \<and> limit s' = limit s
    \<and> presettle s' = presettle s \<and> g_link s' = g_link s \<and> g_ssn s' = g_ssn s
    \<and> acked s' = (if rs = PN_RECEIVED then acked s else acked s + 1)
    \<and> accepted s' = (if rs = PN_ACCEPTED then accepted s + 1 else accepted s)
    \<and> not_accepted s' = (if rs = PN_RECEIVED \<or> rs = PN_ACCEPTED then not_accepted s else not_accepted s + 1)"
  using assms
  by (cases rs) (auto simp: snd_outcome_def bnd_eq_Inr Let_def emit_def dest!: now_usec_Inr split: if_splits)

lemma snd_delivery_Inr:
  assumes "snd_delivery clock u rs s = Inr s'"
  shows "let terminal = (u \<and> rs \<noteq> PN_RECEIVED);
             done = (u \<and> limit s \<noteq> 0 \<and> acked s' = limit s)
    in out s' = out s @ (if terminal then [PnSettle] else []) @ (if done then [PnReactorWakeup] else [])
    \<and> stop s' = (stop s \<or> done) \<and> count s' = count s \<and> tag s' = tag s \<and> limit s' = limit s
    \<and> presettle s' = presettle s \<and> g_link s' = g_link s \<and> g_ssn s' = g_ssn s
    \<and> acked s' = (if terminal then acked s + 1 else acked s)
    \<and> accepted s' = (if u \<and> rs = PN_ACCEPTED then accepted s + 1 else accepted s)
    \<and> not_accepted s' = (if terminal \<and> rs \<noteq> PN_ACCEPTED then not_accepted s + 1 else not_accepted s)"
proof (cases u)
  case False
  then show ?thesis using assms by (simp add: snd_delivery_def)
next
  case True
  then obtain t where t: "snd_outcome clock rs s = Inr t"
    "(if limit t \<noteq> 0 \<and> acked t = limit t
        then bnd (now_usec clock (t\<lparr>stop := True\<rparr>)) (\<lambda>(x, s).
               Inr (emit [PnReactorWakeup] (s\<lparr>ack_stop_ts := x\<rparr>)))
        else Inr t) = Inr s'"
    using assms by (auto simp: snd_delivery_def bnd_eq_Inr)
  define d where "d \<longleftrightarrow> limit t \<noteq> 0 \<and> acked t = limit t"
  have v: "snd_view s' = (out t @ (if d then [PnReactorWakeup] else []), stop t \<or> d, limit t, count t,
      tag t, presettle t, acked t, accepted t, not_accepted t, g_link t, g_ssn t)"
    using t(2) unfolding d_def [symmetric]
    by (cases d) (auto simp: bnd_eq_Inr emit_def snd_view_def dest!: now_usec_Inr)
  then have "acked s' = acked t" by (simp add: snd_view_def)
  with v True snd_outcome_Inr [OF t(1)] show ?thesis
    by (simp add: snd_view_def d_def Let_def)
qed

section \<open>The contracts\<close>

lemma snd_event_view:
  assumes "snd_event_handler clock enc s e = Inr s'"
  shows "\<exists>cs n. out s' = out s @ cs \<and> tags cs = map (\<lambda>i. tag s + of_nat i) [0..<n]
    \<and> count s' = count s + of_nat n \<and> tag s' = tag s + of_nat n
    \<and> (limit s \<noteq> 0 \<longrightarrow> count s \<le> limit s \<longrightarrow> unat (count s) + n \<le> unat (limit s))
    \<and> limit s' = limit s \<and> presettle s' = presettle s
    \<and> closings cs = 0 \<and> g_link s' = g_link s \<and> g_ssn s' = g_ssn s
    \<and> (stop s \<longrightarrow> stop s') \<and> (stop s' \<longrightarrow> stop s \<or> PnReactorWakeup \<in> set cs)
    \<and> (e \<noteq> PN_CONNECTION_INIT \<longrightarrow>
         acked s' + accepted s + not_accepted s = acked s + accepted s' + not_accepted s')
    \<and> (e \<noteq> PN_CONNECTION_INIT \<longrightarrow> \<not> presettle s \<longrightarrow> of_nat (settles cs) + acked s = acked s')"
proof (cases e)
  case PN_CONNECTION_INIT
  then obtain cs where "out s' = out s @ cs" "tags cs = []" "stop s' = stop s"
    "closings cs = 0" "g_link s' = g_link s" "g_ssn s' = g_ssn s"
    "count s' = count s" "tag s' = tag s" "limit s' = limit s" "presettle s' = presettle s"
    using assms snd_connection_init_Inr [of clock enc s s'] by auto
  with PN_CONNECTION_INIT show ?thesis
    by (intro exI [of _ cs] exI [of _ 0]) (simp add: word_le_nat_alt)
next
  case (PN_LINK_FLOW credit)
  then obtain ps where len: "length ps = quota (limit s) (count s) credit"
    and v: "snd_view s' = (out s @ message_blocks (presettle s) (tag s) ps
              @ (if snd_last s (length ps) then [PnReactorWakeup] else []),
            stop s \<or> snd_last s (length ps), limit s, count s + of_nat (length ps),
            tag s + of_nat (length ps), presettle s, acked s, accepted s, not_accepted s, g_link s, g_ssn s)"
    using assms [unfolded PN_LINK_FLOW snd_event_handler.simps, THEN snd_link_flow_view] by blast
  have "unat (count s) + length ps \<le> unat (limit s)" if "limit s \<noteq> 0" "count s \<le> limit s"
    using that quota_within len by simp
  then show ?thesis using v PN_LINK_FLOW
    by (intro exI [of _ "message_blocks (presettle s) (tag s) ps
              @ (if snd_last s (length ps) then [PnReactorWakeup] else [])"] exI [of _ "length ps"])
      (simp add: snd_view_def)
next
  case (PN_DELIVERY u rs p)
  define cs where "cs = (if u \<and> rs \<noteq> PN_RECEIVED then [PnSettle] else [])
    @ (if u \<and> limit s \<noteq> 0 \<and> acked s' = limit s then [PnReactorWakeup] else [])"
  have "snd_delivery clock u rs s = Inr s'" using assms PN_DELIVERY by simp
  from snd_delivery_Inr [OF this] PN_DELIVERY show ?thesis
    by (intro exI [of _ cs] exI [of _ 0]) (auto simp: cs_def Let_def word_le_nat_alt)
next
  case (PN_SIGNAL sig)
  with assms show ?thesis
    by (intro exI [of _ "if \<not> sig_ign s \<and> sig \<noteq> SIGOTHER then [PnReactorWakeup] else []"] exI [of _ 0])
      (auto simp: signal_handler_eq Let_def word_le_nat_alt)
next
  case PN_CONNECTION_BOUND
  with assms show ?thesis
    by (intro exI [of _ "[]"] exI [of _ 0]) (simp add: word_le_nat_alt)
next
  case PN_OTHER_EVENT
  with assms show ?thesis
    by (intro exI [of _ "[]"] exI [of _ 0]) (simp add: word_le_nat_alt)
qed

lemma snd_loop_body_Inr:
  assumes "snd_loop_body clock loc s = Inr (loc', s')"
  shows "\<exists>k cs. s' = s\<lparr>clk := k, out := out s @ cs\<rparr> \<and> tags cs = [] \<and> settles cs = 0
    \<and> set cs \<subseteq> {PnLinkClose, PnSessionClose, PnConnectionClose}
    \<and> (\<not> g_link s \<longrightarrow> PnLinkClose \<notin> set cs) \<and> (\<not> g_ssn s \<longrightarrow> PnSessionClose \<notin> set cs)"
proof -
  obtain deadline printed where loc: "loc = (deadline, printed)" by (cases loc)
  define cs where "cs = (if g_link s then [PnLinkClose] else [])
    @ (if g_ssn s then [PnSessionClose] else []) @ [PnConnectionClose]"
  show ?thesis
  proof (cases "stop s")
    case True
    then have "s' = s\<lparr>clk := clk s', out := out s @ cs\<rparr>"
      using assms unfolding loc snd_loop_body_def prod.case cs_def [symmetric] emit_def
      by (cases "\<not> printed \<and> count s \<noteq> 0") (auto simp: bnd_eq_Inr cs_def dest!: now_usec_Inr)
    then show ?thesis unfolding cs_def by (intro exI conjI) auto
  next
    case False
    then have "s' = s\<lparr>clk := clk s', out := out s @ []\<rparr>"
      using assms loc
      by (cases "deadline = 0") (auto simp: snd_loop_body_def bnd_eq_Inr dest!: now_usec_Inr split: if_splits)
    then show ?thesis by (intro exI [of _ "clk s'"] exI [of _ "[]"] conjI) (assumption | simp)+
  qed
qed

interpretation snd: stopping_loop "snd_event_handler clock enc" out stop PnReactorWakeup
    "snd_loop_body clock" for clock enc
proof
  fix s s' :: sender and e
  assume a: "snd_event_handler clock enc s e = Inr s'"
  show "\<exists>cs. out s' = out s @ cs" using snd_event_view [OF a] by blast
  show "stop s \<Longrightarrow> stop s'" using snd_event_view [OF a] by blast
  show "\<not> stop s \<Longrightarrow> stop s' \<Longrightarrow> PnReactorWakeup \<in> set (out s')"
  proof -
    assume "\<not> stop s" "stop s'"
    then obtain cs where "out s' = out s @ cs" "PnReactorWakeup \<in> set cs"
      using snd_event_view [OF a] by blast
    then show ?thesis by simp
  qed
next
  fix l l' and s s' :: sender
  assume "snd_loop_body clock l s = Inr (l', s')"
  note b = snd_loop_body_Inr [OF this]
  show "\<exists>cs. out s' = out s @ cs" "stop s' = stop s" using b by auto
qed

interpretation snd: budgeted_loop "snd_event_handler clock enc" out limit count tag
    "snd_loop_body clock" for clock enc
proof
  fix s s' :: sender and e
  assume a: "snd_event_handler clock enc s e = Inr s'"
  show "limit s' = limit s" using snd_event_view [OF a] by blast
  show "\<exists>n. tags (out s') = tags (out s) @ map (\<lambda>i. tag s + of_nat i) [0..<n]
      \<and> tag s' = tag s + of_nat n \<and> count s' = count s + of_nat n
      \<and> (limit s \<noteq> 0 \<longrightarrow> count s \<le> limit s \<longrightarrow> unat (count s) + n \<le> unat (limit s))"
  proof -
    obtain cs n where "out s' = out s @ cs" "tags cs = map (\<lambda>i. tag s + of_nat i) [0..<n]"
      and n: "count s' = count s + of_nat n" "tag s' = tag s + of_nat n"
        "limit s \<noteq> 0 \<longrightarrow> count s \<le> limit s \<longrightarrow> unat (count s) + n \<le> unat (limit s)"
      using snd_event_view [OF a] by blast
    then have "tags (out s') = tags (out s) @ map (\<lambda>i. tag s + of_nat i) [0..<n]" by simp
    with n show ?thesis by blast
  qed
next
  fix l l' and s s' :: sender
  assume "snd_loop_body clock l s = Inr (l', s')"
  then show "limit s' = limit s \<and> count s' = count s \<and> tag s' = tag s \<and> tags (out s') = tags (out s)"
    using snd_loop_body_Inr by fastforce
qed

interpretation snd: ledger_loop "snd_event_handler clock enc" out acked accepted not_accepted
    "\<lambda>e. e = PN_CONNECTION_INIT" presettle "snd_loop_body clock" for clock enc
proof
  fix s s' :: sender and e
  assume a: "snd_event_handler clock enc s e = Inr s'"
  show "presettle s' = presettle s" using snd_event_view [OF a] by blast
  show "e \<noteq> PN_CONNECTION_INIT \<Longrightarrow>
      acked s' + accepted s + not_accepted s = acked s + accepted s' + not_accepted s'"
    using snd_event_view [OF a] by blast
  show "e \<noteq> PN_CONNECTION_INIT \<Longrightarrow> \<not> presettle s \<Longrightarrow>
      of_nat (settles (out s')) + acked s = of_nat (settles (out s)) + acked s'"
  proof -
    assume "e \<noteq> PN_CONNECTION_INIT" "\<not> presettle s"
    then obtain cs where "out s' = out s @ cs" "of_nat (settles cs) + acked s = acked s'"
      using snd_event_view [OF a] by blast
    then show ?thesis by (simp add: algebra_simps)
  qed
next
  fix l l' and s s' :: sender
  assume "snd_loop_body clock l s = Inr (l', s')"
  then show "acked s' = acked s \<and> accepted s' = accepted s \<and> not_accepted s' = not_accepted s
      \<and> presettle s' = presettle s \<and> settles (out s') = settles (out s)"
    using snd_loop_body_Inr by fastforce
qed

interpretation snd_stalls: sample_accumulator record_stall total_stall sum_of_squares worse_stall
  by unfold_locales (auto simp: record_stall_def max_def)

section \<open>Nothing stops the program in a working environment\<close>

lemma end_stall_total:
  assumes "clock_works clock"
  shows "\<exists>s'. end_stall clock s = Inr s' \<and> (encode_ready s \<longrightarrow> encode_ready s')"
proof (cases "stalled s")
  case False
  then show ?thesis by (simp add: end_stall_def)
next
  case True
  obtain t where "now_timespec clock s = Inr (t, s\<lparr>clk := Suc (clk s)\<rparr>)"
    using now_works(3) [OF assms] by blast
  with True show ?thesis
    by (simp add: end_stall_def Let_def encode_ready_def record_stall_def)
qed

lemma begin_stall_total:
  assumes "clock_works clock"
  shows "\<exists>s'. begin_stall clock s = Inr s' \<and> (encode_ready s \<longrightarrow> encode_ready s')"
proof -
  obtain t where "now_timespec clock (s\<lparr>stalled := True\<rparr>) = Inr (t, s\<lparr>stalled := True, clk := Suc (clk s)\<rparr>)"
    using now_works(3) [OF assms, of "s\<lparr>stalled := True\<rparr>"] by auto
  then show ?thesis by (simp add: begin_stall_def encode_ready_def)
qed

lemma mark_start_total:
  assumes "clock_works clock"
  shows "\<exists>s'. mark_start clock s = Inr s' \<and> (encode_ready s \<longrightarrow> encode_ready s')"
proof -
  obtain t where "now_usec clock s = Inr (t, s\<lparr>clk := Suc (clk s)\<rparr>)"
    using now_works(1) [OF assms] by blast
  then show ?thesis by (simp add: mark_start_def encode_ready_def)
qed

lemma refresh_message_total:
  assumes "clock_works clock" and "encoder_works enc" and "encode_ready s"
  shows "\<exists>s'. refresh_message clock enc s = Inr s' \<and> encode_ready s'"
proof -
  obtain t where t: "now_usec clock s = Inr (t, s\<lparr>clk := Suc (clk s)\<rparr>)"
    using now_works(1) [OF assms(1)] by blast
  have "encode_ready (s\<lparr>clk := Suc (clk s)\<rparr>)" using assms(3) by (simp add: encode_ready_def)
  with encode_message_total [OF assms(2) this] t assms(3) show ?thesis
    by (simp add: refresh_message_def snd_generate_message_def)
qed

lemma snd_send_loop_total:
  assumes "clock_works clock" and "encoder_works enc" and "encode_ready s"
  shows "\<exists>r s'. snd_send_loop clock enc c s = Inr (r, s') \<and> encode_ready s'"
  using assms(3)
proof (induction c arbitrary: s)
  case 0
  then show ?case by simp
next
  case (Suc c)
  define t where "t = s\<lparr>count := count s + 1, out := out s @ [PnDelivery (tag s)], tag := tag s + 1\<rparr>"
  have "encode_ready t" using Suc.prems by (simp add: t_def encode_ready_def)
  then obtain u where u: "refresh_message clock enc t = Inr u" "encode_ready u"
    using refresh_message_total [OF assms(1,2)] by blast
  then have "\<exists>v. snd_send_one clock enc s = Inr v \<and> encode_ready v"
    by (simp add: snd_send_one_def t_def emit_def encode_ready_def Let_def)
  then show ?case using Suc by auto
qed

lemma snd_link_flow_total:
  assumes "clock_works clock" and "encoder_works enc" and "encode_ready s"
  shows "\<exists>s'. snd_link_flow clock enc credit s = Inr s' \<and> encode_ready s'"
proof (cases "0 < credit \<and> (limit s = 0 \<or> count s < limit s)")
  case False
  then show ?thesis using assms(3) by (auto simp: snd_link_flow_def)
next
  case True
  obtain a where a: "end_stall clock s = Inr a" "encode_ready a"
    using end_stall_total [OF assms(1)] assms(3) by blast
  define b where "b = a\<lparr>grant_count := grant_count a + 1, credit_grants := credit_grants a + word_of_int credit\<rparr>"
  have "encode_ready b" using a(2) by (simp add: b_def encode_ready_def)
  then obtain c where c: "mark_start clock b = Inr c" "encode_ready c"
    using mark_start_total [OF assms(1)] by blast
  obtain r d where d: "snd_send_loop clock enc (nat credit) c = Inr (r, d)" "encode_ready d"
    using snd_send_loop_total [OF assms(1,2) c(2)] by blast
  obtain t where t: "now_usec clock d = Inr (t, d\<lparr>clk := Suc (clk d)\<rparr>)"
    using now_works(1) [OF assms(1)] by blast
  show ?thesis
    using True a c d t begin_stall_total [OF assms(1), of d]
    by (auto simp: snd_link_flow_def b_def encode_ready_def)
qed

lemma snd_event_total:
  assumes "clock_works clock" and "encoder_works enc" and "encode_ready s"
  shows "\<exists>s'. snd_event_handler clock enc s e = Inr s' \<and> encode_ready s'"
proof (cases e)
  case PN_CONNECTION_INIT
  define t where "t = (emit ([PnConnectionOpen, PnSession, PnSessionOpen, PnSender ''MySender'']
                    @ (if use_anonymous s then [] else [PnSetTarget (target_address s)])
                    @ [PnLinkOpen]) s)\<lparr>acked := count s\<rparr>"
  obtain k where k: "now_usec clock t = Inr (k, t\<lparr>clk := Suc (clk t)\<rparr>)"
    using now_works(1) [OF assms(1)] by blast
  have "encode_ready (t\<lparr>clk := Suc (clk t)\<rparr>)" using assms(3) by (simp add: t_def encode_ready_def)
  note enc = encode_message_total [OF assms(2) this]
  have "snd_event_handler clock enc s e = bnd (now_usec clock t) (\<lambda>(t, s). snd_generate_message enc t s)"
    by (simp only: PN_CONNECTION_INIT snd_event_handler.simps snd_connection_init_def Let_def t_def emit_client)
  with enc k show ?thesis by (simp add: snd_generate_message_def)
next
  case (PN_LINK_FLOW credit)
  then show ?thesis using snd_link_flow_total [OF assms] by simp
next
  case (PN_DELIVERY u rs p)
  define a where "a = emit [PnSettle] (s\<lparr>acked := acked s + 1, accepted := accepted s + 1\<rparr>)"
  obtain k where "now_usec clock a = Inr (k, a\<lparr>clk := Suc (clk a)\<rparr>)"
    using now_works(1) [OF assms(1)] by blast
  then have "\<exists>t. snd_outcome clock rs s = Inr t \<and> encode_ready t"
    using assms(3)
    by (cases rs) (simp_all add: snd_outcome_def a_def [symmetric], simp_all add: a_def encode_ready_def)
  then obtain t where t: "snd_outcome clock rs s = Inr t" "encode_ready t" by blast
  obtain k' where "now_usec clock (t\<lparr>stop := True\<rparr>) = Inr (k', t\<lparr>stop := True, clk := Suc (clk t)\<rparr>)"
    using now_works(1) [OF assms(1), of "t\<lparr>stop := True\<rparr>"] by auto
  then show ?thesis
    using t assms(3) PN_DELIVERY by (simp add: snd_delivery_def encode_ready_def)
next
  case (PN_SIGNAL sig)
  then show ?thesis using assms(3) by (simp add: signal_handler_eq encode_ready_def Let_def)
qed (use assms(3) in simp_all)

lemma snd_loop_body_total:
  assumes "clock_works clock" and "encode_ready s"
  shows "\<exists>l s'. snd_loop_body clock loc s = Inr (l, s') \<and> encode_ready s'"
proof -
  obtain d p where loc: "loc = (d, p)" by (cases loc)
  obtain k where k: "now_usec clock s = Inr (k, s\<lparr>clk := Suc (clk s)\<rparr>)"
    using now_works(1) [OF assms(1)] by blast
  obtain k' where k': "now_usec clock (s\<lparr>clk := Suc (clk s)\<rparr>) = Inr (k', s\<lparr>clk := Suc (Suc (clk s))\<rparr>)"
    using now_works(1) [OF assms(1), of "s\<lparr>clk := Suc (clk s)\<rparr>"] by auto
  show ?thesis
    using k k' assms(2) unfolding loc snd_loop_body_def by (auto simp: encode_ready_def emit_def)
qed

section \<open>Whole programs\<close>

text \<open>The options change neither the log nor a counter, and leave the endpoints unset.\<close>

lemma snd_option_keeps:
  assumes "snd_option clock p (d, s) = Inr (d', s')"
  shows "out s' = out s \<and> stop s' = stop s \<and> count s' = count s \<and> tag s' = tag s
    \<and> acked s' = acked s \<and> accepted s' = accepted s \<and> not_accepted s' = not_accepted s
    \<and> g_link s' = g_link s \<and> g_ssn s' = g_ssn s \<and> encode_buffer s' = encode_buffer s
    \<and> body_size s' \<in> {body_size s, BODY_SIZE_SMALL, BODY_SIZE_MEDIUM, BODY_SIZE_LARGE}"
proof -
  obtain c optarg where p: "p = (c, optarg)" by (cases p)
  show ?thesis
    using assms unfolding p
    by (auto simp: snd_option_def usage_def bnd_eq_Inr dest!: now_usec_Inr split: if_splits option.splits)
qed

definition snd_fresh :: "'a sender_scheme \<Rightarrow> bool" where
  "snd_fresh s \<longleftrightarrow> out s = [] \<and> \<not> stop s \<and> count s = 0 \<and> tag s = 0 \<and> acked s = 0
     \<and> accepted s = 0 \<and> not_accepted s = 0 \<and> \<not> g_link s \<and> \<not> g_ssn s \<and> encode_buffer s = None
     \<and> body_size s \<in> {BODY_SIZE_SMALL, BODY_SIZE_MEDIUM, BODY_SIZE_LARGE}"

lemma snd_option_fresh:
  "snd_option clock p ds = Inr ds' \<Longrightarrow> snd_fresh (snd ds) \<Longrightarrow> snd_fresh (snd ds')"
  using snd_option_keeps [of clock p "fst ds" "snd ds" "fst ds'" "snd ds'"]
  by (auto simp: snd_fresh_def)

lemma snd_options_fresh:
  assumes "parse_opts (snd_option clock) opts (0, snd_globals) = Inr (d, s)"
  shows "snd_fresh s"
proof -
  have "snd_fresh (snd (d, s))"
  proof (rule parse_opts_preserves [where P = "\<lambda>ds. snd_fresh (snd ds)", OF _ _ assms])
    show "snd_fresh (snd (0, snd_globals))" by (simp add: snd_fresh_def snd_globals_def)
  qed (rule snd_option_fresh)
  then show ?thesis by simp
qed

lemma snd_main_run:
  assumes "snd_main clock enc opts ess = Inr s'"
  obtains d loc s where "snd_fresh s"
    "run (main_round (snd_event_handler clock enc) (snd_loop_body clock))
       ((d, False), emit [PnSetContainer (container_name s), PnSetHostname (host_address s)] s) ess = Inr (loc, s')"
  using assms by (auto simp: snd_main_def bnd_eq_Inr dest: snd_options_fresh)

text \<open>A concrete run for the instances: two messages to send, granted three credits.\<close>

abbreviation snd_sample_events :: "tx_event list" where
  "snd_sample_events \<equiv> [PN_LINK_FLOW 3, PN_DELIVERY True PN_ACCEPTED 1, PN_DELIVERY True PN_REJECTED 1]"

lemma snd_send_loop_numeral:
  "snd_send_loop clock enc (numeral k) s =
     (if limit s = 0 \<or> count s < limit s
      then bnd (snd_send_one clock enc s) (snd_send_loop clock enc (pred_numeral k))
      else Inr (numeral k, s))"
  by (simp add: numeral_eq_Suc)

lemma snd_sample_run:
  "\<exists>s. snd_main steady_clock (fixed_encoder [1, 2, 3]) [(CHR ''c'', ''2'')]
         [PN_CONNECTION_INIT # snd_sample_events] = Inr s
       \<and> limit s = 2 \<and> count s = 2 \<and> stop s \<and> presettle s = False"
proof -
  have "scan_u64 ''2'' = Some 2"
    by (simp add: scan_u64_def scan_number_def read_sign_def is_space_def is_digit_def strtoul_def)
  moreover note encode_loop_fixed [of "[1, 2, 3]" 612, simplified]
  ultimately show ?thesis
    by (simp add: snd_main_def snd_option_def main_round_def snd_globals_def
        snd_connection_init_def snd_generate_message_def encode_message_def encode_loop_fixed
        BODY_SIZE_SMALL_def snd_link_flow_def end_stall_def mark_start_def Let_def snd_send_loop_numeral
        snd_send_one_def refresh_message_def emit_def payload_def snd_loop_body_def
        snd_delivery_def snd_outcome_def)
qed

text \<open>A sender started with a limit never creates more deliveries than the limit, whatever
  the peer grants and however its outcomes are interleaved; \<open>count\<close> is the number created.\<close>

theorem snd_never_exceeds_limit:
  assumes "snd_main clock enc opts ess = Inr s" and "limit s \<noteq> 0"
  shows "deliveries (out s) = unat (count s) \<and> count s \<le> limit s"
proof -
  obtain d loc t where t: "snd_fresh t"
    "run (main_round (snd_event_handler clock enc) (snd_loop_body clock))
       ((d, False), emit [PnSetContainer (container_name t), PnSetHostname (host_address t)] t) ess = Inr (loc, s)"
    using assms(1) by (rule snd_main_run)
  have "limit s = limit t" using snd.round.run_lim [OF t(2)] by simp
  with t assms(2) show ?thesis
    using snd.round.run_within_budget [OF t(2)] by (simp add: snd_fresh_def)
qed

theorem snd_never_exceeds_limit_witness:
  "\<exists>s. snd_main steady_clock (fixed_encoder [1, 2, 3]) [(CHR ''c'', ''2'')]
         [PN_CONNECTION_INIT # snd_sample_events] = Inr s
       \<and> deliveries (out s) = unat (count s) \<and> count s \<le> limit s"
proof -
  obtain s where "snd_main steady_clock (fixed_encoder [1, 2, 3]) [(CHR ''c'', ''2'')]
      [PN_CONNECTION_INIT # snd_sample_events] = Inr s" "limit s = 2"
    using snd_sample_run by blast
  then show ?thesis using snd_never_exceeds_limit [of _ _ _ _ s] by simp
qed

text \<open>The deliveries a sender creates carry the tags 0, 1, 2, ... in this order, one for
  each message counted.\<close>

theorem snd_tags_in_order:
  assumes "snd_main clock enc opts ess = Inr s"
  shows "\<exists>n. tags (out s) = map of_nat [0..<n] \<and> count s = of_nat n \<and> tag s = of_nat n"
proof -
  obtain d loc t where t: "snd_fresh t"
    "run (main_round (snd_event_handler clock enc) (snd_loop_body clock))
       ((d, False), emit [PnSetContainer (container_name t), PnSetHostname (host_address t)] t) ess = Inr (loc, s)"
    using assms(1) by (rule snd_main_run)
  show ?thesis using snd.round.run_sent [OF t(2)] t(1) by (simp add: snd_fresh_def) blast
qed

theorem snd_tags_in_order_witness:
  "\<exists>s n. snd_main steady_clock (fixed_encoder [1, 2, 3]) [(CHR ''c'', ''2'')]
         [PN_CONNECTION_INIT # snd_sample_events] = Inr s
       \<and> tags (out s) = map of_nat [0..<n] \<and> count s = of_nat n"
  using snd_sample_run snd_tags_in_order by blast

text \<open>In a program whose connection is initialised once, as the first event, every terminal
  outcome is in the ledger once: the acknowledged messages are the accepted and the not
  accepted ones, and unless messages are sent presettled each has settled its delivery.\<close>

theorem snd_ledger:
  assumes "snd_main clock enc opts ((PN_CONNECTION_INIT # es) # ess) = Inr s"
    and "PN_CONNECTION_INIT \<notin> set es \<union> \<Union> (set (map set ess))"
  shows "acked s = accepted s + not_accepted s
    \<and> (\<not> presettle s \<longrightarrow> of_nat (settles (out s)) = acked s)"
proof -
  obtain d loc t where t: "snd_fresh t"
    "run (main_round (snd_event_handler clock enc) (snd_loop_body clock))
       ((d, False), emit [PnSetContainer (container_name t), PnSetHostname (host_address t)] t) ((PN_CONNECTION_INIT # es) # ess) = Inr (loc, s)"
    using assms(1) by (rule snd_main_run)
  then obtain u v l w where u: "snd_connection_init clock enc (emit [PnSetContainer (container_name t), PnSetHostname (host_address t)] t) = Inr u"
    and v: "run (snd_event_handler clock enc) u es = Inr v"
    and w: "snd_loop_body clock (d, False) v = Inr (l, w)"
    and s: "run (main_round (snd_event_handler clock enc) (snd_loop_body clock)) (l, w) ess = Inr (loc, s)"
    by (auto simp: main_round_def bnd_eq_Inr)
  have fu: "acked u = accepted u + not_accepted u" "of_nat (settles (out u)) = acked u"
    using snd_connection_init_Inr [OF u] t(1) by (auto simp: snd_fresh_def)
  have es: "\<forall>e\<in>set es. \<not> e = PN_CONNECTION_INIT" "\<forall>es\<in>set ess. \<forall>e\<in>set es. \<not> e = PN_CONNECTION_INIT"
    using assms(2) by auto
  have "acked v = accepted v + not_accepted v"
    using snd.run_ledger [OF v es(1) fu(1)] .
  then have w1: "acked w = accepted w + not_accepted w"
    using snd.body_still [OF w] by simp
  have p: "presettle s = presettle w"
    by (rule run_preserves [where P = "\<lambda>x. presettle (snd x) = presettle w", OF _ _ s, simplified])
      (auto simp: main_round_def bnd_eq_Inr snd.run_presettled snd.body_still)
  have "presettle w = presettle u"
    using snd.run_presettled [OF v] snd.body_still [OF w] by simp
  then have "of_nat (settles (out s)) = acked s" if "\<not> presettle s"
    using snd.run_settled [OF v es(1) _ fu(2)] snd.body_still [OF w] p that
      snd.loop_settled [OF s es(2)] by simp
  with snd.loop_ledger [OF s es(2)] w1 show ?thesis by simp
qed

theorem snd_ledger_witness:
  "\<exists>s. snd_main steady_clock (fixed_encoder [1, 2, 3]) [(CHR ''c'', ''2'')]
         [PN_CONNECTION_INIT # snd_sample_events] = Inr s
       \<and> acked s = accepted s + not_accepted s \<and> of_nat (settles (out s)) = acked s"
proof -
  obtain s where "snd_main steady_clock (fixed_encoder [1, 2, 3]) [(CHR ''c'', ''2'')]
      [PN_CONNECTION_INIT # snd_sample_events] = Inr s" "\<not> presettle s"
    using snd_sample_run by blast
  then show ?thesis using snd_ledger [of _ _ _ _ "[]" s] by simp
qed


section \<open>What the messages contain\<close>

text \<open>
  \<open>encodes_reading\<close>: the bytes are the encoding of the message for the time of the \<open>k\<close>-th reading of
  the clock. \<open>message_calls\<close> are the calls that write messages; \<open>granted\<close> is the credit the events bring.
\<close>

definition encodes_reading :: "clock \<Rightarrow> encoder \<Rightarrow> 'a sender_scheme \<Rightarrow> nat \<Rightarrow> u8 list \<Rightarrow> bool" where
  "encodes_reading clock enc g k p \<longleftrightarrow> (\<exists>ts. clock CLOCK_REALTIME k = Inr ts
     \<and> encodes_as enc (snd_message (USECS_PER_SECOND * tv_sec ts + tv_nsec ts sdiv 1000) g) p)"

definition message_calls :: "pn_call list \<Rightarrow> pn_call list" where
  "message_calls = filter (\<lambda>c. case c of PnDelivery t \<Rightarrow> True | PnLinkSend bs \<Rightarrow> True | PnLinkAdvance \<Rightarrow> True | _ \<Rightarrow> False)"

lemma message_calls_simps [simp]:
  "message_calls [] = []"
  "message_calls (cs @ ds) = message_calls cs @ message_calls ds"
  "message_calls (message_block b t p) = message_block False t p"
  by (simp_all add: message_calls_def message_block_def)

fun granted :: "tx_event list \<Rightarrow> nat" where
  "granted [] = 0"
| "granted (PN_LINK_FLOW credit # es) = nat credit + granted es"
| "granted (e # es) = granted es"

lemma granted_append [simp]: "granted (es @ fs) = granted es + granted fs"
  by (induction es rule: granted.induct) simp_all

definition capped :: "u64 \<Rightarrow> nat \<Rightarrow> nat" where
  "capped lmt n = (if lmt = 0 then n else min n (unat lmt))"

lemma capped_0 [simp]: "capped lmt 0 = 0"
  by (simp add: capped_def)

lemma capped_quota: "capped lmt n + quota lmt (of_nat (capped lmt n)) credit = capped lmt (n + nat credit)"
proof (cases "lmt = 0")
  case True
  then show ?thesis by (simp add: capped_def quota_def)
next
  case False
  have "min n (unat lmt) < 2 ^ 64" using unsigned_less [of lmt, where ?'a = nat] by simp
  then have "unat (of_nat (min n (unat lmt)) :: u64) = min n (unat lmt)" by (simp add: unat_of_nat take_bit_nat_eq_self)
  then show ?thesis using False by (simp add: capped_def quota_def)
qed

lemma message_blocks_snoc:
  "message_blocks b t (ps @ [p]) = message_blocks b t ps @ message_block b (t + of_nat (length ps)) p"
  by (induction ps arbitrary: t) (simp_all add: algebra_simps)

text \<open>What a message depends on, and the steps that touch neither it nor the messages written.\<close>

definition snd_config :: "'a sender_scheme \<Rightarrow> u64 \<times> bool \<times> bool \<times> int \<times> string" where
  "snd_config s = (limit s, add_timestamp s, add_annotations s, body_size s, target_address s)"

definition snd_quiet :: "'a sender_scheme \<Rightarrow> 'a sender_scheme \<Rightarrow> bool" where
  "snd_quiet s s' \<longleftrightarrow> snd_config s' = snd_config s \<and> encode_buffer s' = encode_buffer s
     \<and> encode_buffer_size s' = encode_buffer_size s \<and> encoded_data_size s' = encoded_data_size s
     \<and> message_calls (out s') = message_calls (out s) \<and> clk s \<le> clk s' \<and> count s' = count s \<and> tag s' = tag s"

lemma snd_quiet_refl [simp]: "snd_quiet s s"
  by (simp add: snd_quiet_def)

lemma snd_quiet_trans: "snd_quiet s t \<Longrightarrow> snd_quiet t u \<Longrightarrow> snd_quiet s u"
  by (simp add: snd_quiet_def)

lemma snd_config_message: "snd_config s = snd_config g \<Longrightarrow> snd_message t s = snd_message t g"
  by (simp add: snd_config_def snd_message_def)

lemma now_usec_reading:
  "now_usec clock s = Inr (t, s') \<Longrightarrow> \<exists>ts. clock CLOCK_REALTIME (clk s) = Inr ts
     \<and> t = USECS_PER_SECOND * tv_sec ts + tv_nsec ts sdiv 1000"
  by (auto simp: now_usec_def clock_gettime_def split: sum.splits)

text \<open>The messages written so far are \<open>ps\<close>.\<close>

definition snd_wrote :: "clock \<Rightarrow> encoder \<Rightarrow> 'a sender_scheme \<Rightarrow> u8 list list \<Rightarrow> 'a sender_scheme \<Rightarrow> bool" where
  "snd_wrote clock enc g ps s \<longleftrightarrow> snd_config s = snd_config g \<and> encode_ready s
     \<and> message_calls (out s) = message_blocks False 0 ps
     \<and> count s = of_nat (length ps) \<and> tag s = of_nat (length ps)
     \<and> (if add_timestamp g
        then \<exists>ks. sorted_wrt (<) ks \<and> (\<forall>k \<in> set ks. k < clk s) \<and> list_all2 (encodes_reading clock enc g) ks ps
        else (\<exists>k. encodes_reading clock enc g k (payload s)) \<and> set ps \<subseteq> {payload s})"

lemma snd_quiet_wrote:
  assumes "snd_quiet s s'" and "snd_wrote clock enc g ps s"
  shows "snd_wrote clock enc g ps s'"
proof -
  have p: "payload s' = payload s" using assms(1) by (intro payload_cong) (simp_all add: snd_quiet_def)
  have c: "clk s \<le> clk s'" using assms(1) by (simp add: snd_quiet_def)
  have r: "encode_ready s'" using assms by (auto simp: snd_quiet_def snd_wrote_def snd_config_def encode_ready_def)
  have "\<exists>ks. sorted_wrt (<) ks \<and> (\<forall>k \<in> set ks. k < clk s') \<and> list_all2 (encodes_reading clock enc g) ks ps"
    if a: "add_timestamp g"
  proof -
    obtain ks where "sorted_wrt (<) ks" "\<forall>k \<in> set ks. k < clk s" "list_all2 (encodes_reading clock enc g) ks ps"
      using assms(2) a by (auto simp: snd_wrote_def)
    then show ?thesis using c by (intro exI [of _ ks]) (auto intro: less_le_trans)
  qed
  then show ?thesis using assms p r by (simp add: snd_wrote_def snd_quiet_def)
qed

lemma generate_message_reading:
  assumes "now_usec clock s = Inr (t, u)" and "snd_generate_message enc t u = Inr s'"
    and "encoder_works enc" and "encode_ready s" and "snd_config s = snd_config g"
  shows "encodes_reading clock enc g (clk s) (payload s')" and "encode_ready s'"
    and "\<exists>b n l. s' = s\<lparr>clk := Suc (clk s), encode_buffer := b, encode_buffer_size := n, encoded_data_size := l\<rparr>"
proof -
  have u: "u = s\<lparr>clk := Suc (clk s)\<rparr>" using now_usec_Inr [OF assms(1)] .
  have r: "encode_ready u" using assms(4) by (simp add: u encode_ready_def)
  obtain bs where bs: "length bs \<le> 2 ^ 63" "encodes_as enc (snd_message t u) bs"
    using assms(3) unfolding encoder_works_def by blast
  have e: "encode_message enc (snd_message t u) u = Inr s'" using assms(2) by (simp add: snd_generate_message_def)
  have "payload s' = bs"
    using encode_message_encodes [OF bs(2,1), of u] r e by (auto simp: encode_ready_def)
  moreover have "snd_message t u = snd_message t g"
    using assms(5) by (intro snd_config_message) (simp add: u snd_config_def)
  ultimately show "encodes_reading clock enc g (clk s) (payload s')"
    using bs(2) now_usec_reading [OF assms(1)] by (auto simp: encodes_reading_def)
  show "encode_ready s'" using encode_message_total [OF assms(3) r, of "snd_message t u"] e by auto
  show "\<exists>b n l. s' = s\<lparr>clk := Suc (clk s), encode_buffer := b, encode_buffer_size := n, encoded_data_size := l\<rparr>"
    using snd_generate_message_Inr [OF assms(2)] u by auto
qed

lemma refresh_message_wrote:
  assumes "refresh_message clock enc s = Inr s'" and "encoder_works enc" and "encode_ready s"
    and "snd_config s = snd_config g"
  shows "encode_ready s'"
    and "\<exists>k b n l. s' = s\<lparr>clk := k, encode_buffer := b, encode_buffer_size := n, encoded_data_size := l\<rparr>
       \<and> (if add_timestamp g then clk s < k \<and> encodes_reading clock enc g (clk s) (payload s')
          else k = clk s \<and> payload s' = payload s)"
proof -
  have g: "add_timestamp s = add_timestamp g" using assms(4) by (simp add: snd_config_def)
  have "encode_ready s' \<and> (\<exists>k b n l. s' = s\<lparr>clk := k, encode_buffer := b, encode_buffer_size := n, encoded_data_size := l\<rparr>
       \<and> (if add_timestamp g then clk s < k \<and> encodes_reading clock enc g (clk s) (payload s')
          else k = clk s \<and> payload s' = payload s))"
  proof (cases "add_timestamp s")
    case True
    then obtain t u where t: "now_usec clock s = Inr (t, u)" "snd_generate_message enc t u = Inr s'"
      using assms(1) by (auto simp: refresh_message_def bnd_eq_Inr)
    note m = generate_message_reading [OF t assms(2-4)]
    obtain b n l where "s' = s\<lparr>clk := Suc (clk s), encode_buffer := b, encode_buffer_size := n, encoded_data_size := l\<rparr>"
      using m(3) by blast
    then show ?thesis using m(1,2) True g
      by (intro conjI exI [of _ "Suc (clk s)"] exI [of _ b] exI [of _ n] exI [of _ l]) simp_all
  next
    case False
    then have "s' = s" using assms(1) by (simp add: refresh_message_def)
    then show ?thesis using assms(3) False g
      by (intro conjI exI [of _ "clk s"] exI [of _ "encode_buffer s"] exI [of _ "encode_buffer_size s"]
          exI [of _ "encoded_data_size s"]) simp_all
  qed
  then show "encode_ready s'"
    "\<exists>k b n l. s' = s\<lparr>clk := k, encode_buffer := b, encode_buffer_size := n, encoded_data_size := l\<rparr>
       \<and> (if add_timestamp g then clk s < k \<and> encodes_reading clock enc g (clk s) (payload s')
          else k = clk s \<and> payload s' = payload s)" by blast+
qed

lemma snd_send_one_wrote:
  assumes "snd_send_one clock enc s = Inr s'" and "encoder_works enc" and "snd_wrote clock enc g ps s"
  shows "snd_wrote clock enc g (ps @ [payload s']) s'"
proof -
  define t where "t = s\<lparr>count := count s + 1, out := out s @ [PnDelivery (tag s)], tag := tag s + 1\<rparr>"
  obtain u where u: "refresh_message clock enc t = Inr u"
    and s': "(let s = emit [PnLinkSend (payload u), PnLinkAdvance] u in
         if presettle s then
           let s = emit [PnSettle] s in
           if limit s \<noteq> 0 \<and> count s = limit s
           then Inr (emit [PnReactorWakeup] (s\<lparr>stop := True\<rparr>))
           else Inr s
         else Inr s) = (Inr s' :: halt + sender)"
    using assms(1) by (auto simp: snd_send_one_def t_def emit_def bnd_eq_Inr Let_def)
  have t: "encode_ready t" "snd_config t = snd_config g" "payload t = payload s" "clk t = clk s"
    using assms(3) payload_cong [of t s] by (simp_all add: t_def snd_wrote_def encode_ready_def snd_config_def)
  obtain k b n l where u': "u = t\<lparr>clk := k, encode_buffer := b, encode_buffer_size := n, encoded_data_size := l\<rparr>"
    and k: "if add_timestamp g then clk t < k \<and> encodes_reading clock enc g (clk t) (payload u)
          else k = clk t \<and> payload u = payload t"
    using refresh_message_wrote(2) [OF u assms(2) t(1,2)] by blast
  have r: "encode_ready u" by (rule refresh_message_wrote(1) [OF u assms(2) t(1,2)])
  obtain cs x where cs: "s' = u\<lparr>out := out u @ [PnLinkSend (payload u), PnLinkAdvance] @ cs, stop := x\<rparr>"
      "message_calls cs = []"
  proof (cases "presettle u")
    case False
    then have "s' = u\<lparr>out := out u @ [PnLinkSend (payload u), PnLinkAdvance] @ [], stop := stop u\<rparr>"
      using s' by (auto simp: emit_def)
    then show ?thesis by (rule that) simp
  next
    case True
    then show ?thesis using s' that [of "stop u \<or> limit u \<noteq> 0 \<and> count u = limit u"
        "PnSettle # (if limit u \<noteq> 0 \<and> count u = limit u then [PnReactorWakeup] else [])"]
      by (cases "limit u \<noteq> 0 \<and> count u = limit u") (auto simp: emit_def Let_def message_calls_def)
  qed
  have p: "payload s' = payload u" using cs(1) by (intro payload_cong) simp_all
  have w: "snd_config s = snd_config g" "message_calls (out s) = message_blocks False 0 ps"
    "count s = of_nat (length ps)" "tag s = of_nat (length ps)" using assms(3) by (simp_all add: snd_wrote_def)
  have log: "message_calls (out s') = message_blocks False 0 (ps @ [payload s'])"
    using cs w u' p unfolding message_blocks_snoc
    by (simp add: t_def message_calls_def message_block_def)
  have ks: "\<exists>ks. sorted_wrt (<) ks \<and> (\<forall>k \<in> set ks. k < clk s') \<and> list_all2 (encodes_reading clock enc g) ks (ps @ [payload s'])"
    if a: "add_timestamp g"
  proof -
    obtain ks where ks: "sorted_wrt (<) ks" "\<forall>k \<in> set ks. k < clk s" "list_all2 (encodes_reading clock enc g) ks ps"
      using assms(3) a by (auto simp: snd_wrote_def)
    have "clk s' = k" using cs(1) u' by simp
    then show ?thesis using ks k p a t(4)
      by (intro exI [of _ "ks @ [clk s]"]) (auto simp: sorted_wrt_append list_all2_appendI intro: less_trans)
  qed
  have same: "(\<exists>k. encodes_reading clock enc g k (payload s')) \<and> set (ps @ [payload s']) \<subseteq> {payload s'}"
    if "\<not> add_timestamp g"
    using assms(3) that k p t(3) by (auto simp: snd_wrote_def)
  have "snd_config s' = snd_config g" "encode_ready s'" "count s' = of_nat (Suc (length ps))" "tag s' = of_nat (Suc (length ps))"
    using cs(1) u' w r by (simp_all add: t_def snd_config_def encode_ready_def)
  then show ?thesis using log ks same unfolding snd_wrote_def by (cases "add_timestamp g") simp_all
qed

lemma snd_send_loop_wrote:
  assumes "snd_send_loop clock enc c s = Inr (r, s')" and "encoder_works enc" and "snd_wrote clock enc g ps s"
  shows "\<exists>qs. length qs = quota (limit g) (of_nat (length ps)) (int c) \<and> snd_wrote clock enc g (ps @ qs) s'"
  using assms(1,3)
proof (induction c arbitrary: s ps)
  case 0
  then show ?case by (intro exI [of _ "[]"]) (simp add: quota_def)
next
  case (Suc c)
  have l: "limit s = limit g" "count s = of_nat (length ps)"
    using Suc.prems(2) by (simp_all add: snd_wrote_def snd_config_def)
  show ?case
  proof (cases "limit s = 0 \<or> count s < limit s")
    case False
    moreover from False have "s' = s" using Suc.prems(1) by simp
    ultimately show ?thesis using Suc.prems(2) quota_zero [of "int (Suc c)" "limit s" "count s"] l
      by (intro exI [of _ "[]"]) simp
  next
    case True
    then obtain t where t: "snd_send_one clock enc s = Inr t" "snd_send_loop clock enc c t = Inr (r, s')"
      using Suc.prems(1) by (auto simp: bnd_eq_Inr)
    obtain qs where qs: "length qs = quota (limit g) (of_nat (length (ps @ [payload t]))) (int c)"
        "snd_wrote clock enc g ((ps @ [payload t]) @ qs) s'"
      using Suc.IH [OF t(2) snd_send_one_wrote [OF t(1) assms(2) Suc.prems(2)]] by blast
    have "quota (limit g) (of_nat (length ps)) (int (Suc c)) = Suc (length qs)"
      using quota_step [of "int (Suc c)" "limit g" "of_nat (length ps)"] True l qs(1) by (simp add: add.commute)
    then show ?thesis using qs(2) by (intro exI [of _ "payload t # qs"]) simp
  qed
qed

lemma end_stall_quiet: "end_stall clock s = Inr s' \<Longrightarrow> snd_quiet s s'"
  by (auto simp: end_stall_def record_stall_def snd_quiet_def snd_config_def bnd_eq_Inr Let_def
      dest!: now_timespec_Inr split: if_splits)

lemma begin_stall_quiet: "begin_stall clock s = Inr s' \<Longrightarrow> snd_quiet s s'"
  by (auto simp: begin_stall_def snd_quiet_def snd_config_def bnd_eq_Inr dest!: now_timespec_Inr)

lemma mark_start_quiet: "mark_start clock s = Inr s' \<Longrightarrow> snd_quiet s s'"
  by (auto simp: mark_start_def snd_quiet_def snd_config_def bnd_eq_Inr dest!: now_usec_Inr split: if_splits)

lemma snd_link_flow_wrote:
  assumes "snd_link_flow clock enc credit s = Inr s'" and "encoder_works enc" and "snd_wrote clock enc g ps s"
  shows "\<exists>qs. length qs = quota (limit g) (of_nat (length ps)) credit \<and> snd_wrote clock enc g (ps @ qs) s'"
proof (cases "0 < credit \<and> (limit s = 0 \<or> count s < limit s)")
  case False
  moreover from False have "s' = s" using assms(1) by (auto simp: snd_link_flow_def)
  moreover have "limit s = limit g" "count s = of_nat (length ps)"
    using assms(3) by (simp_all add: snd_wrote_def snd_config_def)
  ultimately show ?thesis using quota_zero [OF False] assms(3) by (intro exI [of _ "[]"]) simp
next
  case True
  define grow where "grow = (\<lambda>a. a\<lparr>grant_count := grant_count a + 1, credit_grants := credit_grants a + word_of_int credit\<rparr> :: sender)"
  obtain a b r c where a: "end_stall clock s = Inr a"
    and b: "mark_start clock (grow a) = Inr b"
    and c: "snd_send_loop clock enc (nat credit) b = Inr (r, c)"
    and s': "(if limit c \<noteq> 0 \<and> count c = limit c
        then bnd (now_usec clock c) (\<lambda>(t, s). Inr (s\<lparr>stop_ts := t\<rparr>))
        else if r = 0 then begin_stall clock c else Inr c) = Inr s'"
    using assms(1) True by (auto simp: snd_link_flow_def grow_def bnd_eq_Inr Let_def)
  have "snd_quiet a (grow a)" by (simp add: grow_def snd_quiet_def snd_config_def)
  then have "snd_quiet s b"
    using end_stall_quiet [OF a] mark_start_quiet [OF b] by (blast intro: snd_quiet_trans)
  then obtain qs where qs: "length qs = quota (limit g) (of_nat (length ps)) (int (nat credit))" "snd_wrote clock enc g (ps @ qs) c"
    using snd_send_loop_wrote [OF c assms(2) snd_quiet_wrote] assms(3) by blast
  have "snd_quiet c s'" using s'
    by (auto simp: bnd_eq_Inr dest!: now_usec_Inr begin_stall_quiet split: if_splits) (simp add: snd_quiet_def snd_config_def)
  then show ?thesis using qs snd_quiet_wrote True by (intro exI [of _ qs]) simp
qed

lemma snd_delivery_quiet:
  assumes "snd_delivery clock u rs s = Inr s'"
  shows "snd_quiet s s'"
proof (cases u)
  case True
  then obtain t where t: "snd_outcome clock rs s = Inr t"
    "(if limit t \<noteq> 0 \<and> acked t = limit t
        then bnd (now_usec clock (t\<lparr>stop := True\<rparr>)) (\<lambda>(x, s).
               Inr (emit [PnReactorWakeup] (s\<lparr>ack_stop_ts := x\<rparr>)))
        else Inr t) = Inr s'"
    using assms by (auto simp: snd_delivery_def bnd_eq_Inr)
  have "snd_quiet s t" using t(1)
    by (cases rs) (auto simp: snd_outcome_def bnd_eq_Inr Let_def emit_def snd_quiet_def snd_config_def message_calls_def
        dest!: now_usec_Inr split: if_splits)
  moreover have "snd_quiet t s'" using t(2)
    by (auto simp: bnd_eq_Inr emit_def snd_quiet_def snd_config_def message_calls_def dest!: now_usec_Inr split: if_splits)
  ultimately show ?thesis by (rule snd_quiet_trans)
qed (use assms in \<open>simp add: snd_delivery_def\<close>)

lemma snd_signal_quiet: "snd_quiet s (signal_handler sig s)"
  by (simp add: signal_handler_eq Let_def snd_quiet_def snd_config_def message_calls_def)

lemma snd_event_wrote:
  assumes "snd_event_handler clock enc s e = Inr s'" and "encoder_works enc" and "e \<noteq> PN_CONNECTION_INIT"
    and "snd_wrote clock enc g ps s" and "length ps = capped (limit g) n"
  shows "\<exists>qs. snd_wrote clock enc g qs s' \<and> length qs = capped (limit g) (n + granted [e])"
proof (cases e)
  case (PN_LINK_FLOW credit)
  then obtain qs where "length qs = quota (limit g) (of_nat (length ps)) credit" "snd_wrote clock enc g (ps @ qs) s'"
    using snd_link_flow_wrote [OF _ assms(2,4)] assms(1) by auto
  then show ?thesis using capped_quota [of "limit g" n credit] assms(5) PN_LINK_FLOW
    by (intro exI [of _ "ps @ qs"]) simp
next
  case (PN_DELIVERY u rs p)
  then have "snd_quiet s s'" using assms(1) snd_delivery_quiet by simp
  then show ?thesis using assms(4,5) snd_quiet_wrote PN_DELIVERY by (intro exI [of _ ps]) simp
next
  case (PN_SIGNAL sig)
  then have "snd_quiet s s'" using assms(1) snd_signal_quiet by auto
  then show ?thesis using assms(4,5) snd_quiet_wrote PN_SIGNAL by (intro exI [of _ ps]) simp
qed (use assms in auto)

lemma snd_loop_body_quiet:
  assumes "snd_loop_body clock loc s = Inr (loc', s')"
  shows "snd_quiet s s'"
proof -
  obtain d p where loc: "loc = (d, p)" by (cases loc)
  show ?thesis using assms unfolding loc snd_loop_body_def
    by (auto simp: bnd_eq_Inr emit_def snd_quiet_def snd_config_def message_calls_def dest!: now_usec_Inr split: if_splits)
qed

lemma snd_rounds_wrote:
  assumes "run (main_round (snd_event_handler clock enc) (snd_loop_body clock)) ls ess = Inr ls'"
    and "encoder_works enc" and "PN_CONNECTION_INIT \<notin> set (concat ess)"
    and "snd_wrote clock enc g ps (snd ls)" and "length ps = capped (limit g) n"
  shows "\<exists>qs. snd_wrote clock enc g qs (snd ls') \<and> length qs = capped (limit g) (n + granted (concat ess))"
  using assms(1,3-)
proof (induction ess arbitrary: ls ps n)
  case (Cons es ess)
  obtain mid where mid: "main_round (snd_event_handler clock enc) (snd_loop_body clock) ls es = Inr mid"
      "run (main_round (snd_event_handler clock enc) (snd_loop_body clock)) mid ess = Inr ls'"
    using Cons.prems(1) unfolding run.simps bnd_eq_Inr by blast
  obtain t where t: "run (snd_event_handler clock enc) (snd ls) es = Inr t" "snd_loop_body clock (fst ls) t = Inr mid"
    using mid(1) unfolding main_round_def bnd_eq_Inr by blast
  have "\<exists>qs. snd_wrote clock enc g qs t \<and> length qs = capped (limit g) (n + granted ([] @ es))"
  proof (rule run_history [where P = "\<lambda>hs t. \<exists>qs. snd_wrote clock enc g qs t \<and> length qs = capped (limit g) (n + granted hs)",
        OF _ _ t(1)])
    show "\<exists>qs. snd_wrote clock enc g qs (snd ls) \<and> length qs = capped (limit g) (n + granted [])"
      using Cons.prems by auto
  next
    fix hs u e u'
    assume u: "\<exists>qs. snd_wrote clock enc g qs u \<and> length qs = capped (limit g) (n + granted hs)" "e \<in> set es"
      "snd_event_handler clock enc u e = Inr u'"
    then have "e \<noteq> PN_CONNECTION_INIT" using Cons.prems(2) by auto
    then show "\<exists>qs. snd_wrote clock enc g qs u' \<and> length qs = capped (limit g) (n + granted (hs @ [e]))"
      using snd_event_wrote [OF u(3) assms(2)] u(1) by (metis add.assoc granted_append)
  qed
  then obtain qs where qs: "snd_wrote clock enc g qs t" "length qs = capped (limit g) (n + granted es)" by auto
  have "snd_quiet t (snd mid)" using snd_loop_body_quiet t(2) by (cases mid) simp
  then have "snd_wrote clock enc g qs (snd mid)" using qs(1) by (rule snd_quiet_wrote)
  from Cons.IH [OF mid(2) _ this qs(2)] Cons.prems(2) show ?case by (simp add: add.assoc)
qed auto

lemma snd_connection_init_wrote:
  assumes "snd_connection_init clock enc s = Inr s'" and "encoder_works enc" and "encode_ready s"
    and "snd_config s = snd_config g" and "message_calls (out s) = []" and "count s = 0" and "tag s = 0"
  shows "snd_wrote clock enc g [] s'"
proof -
  define u where "u = (emit ([PnConnectionOpen, PnSession, PnSessionOpen, PnSender ''MySender'']
                    @ (if use_anonymous s then [] else [PnSetTarget (target_address s)])
                    @ [PnLinkOpen]) s)\<lparr>acked := count s\<rparr>"
  have "snd_connection_init clock enc s = bnd (now_usec clock u) (\<lambda>(t, s). snd_generate_message enc t s)"
    by (simp only: snd_connection_init_def Let_def u_def emit_client)
  then have "bnd (now_usec clock u) (\<lambda>(t, s). snd_generate_message enc t s) = Inr s'" using assms(1) by simp
  then obtain t v where t: "now_usec clock u = Inr (t, v)" "snd_generate_message enc t v = Inr s'"
    by (auto simp: bnd_eq_Inr)
  have u: "encode_ready u" "snd_config u = snd_config g" "message_calls (out u) = []" "count u = 0" "tag u = 0"
    using assms(3-) by (simp_all add: u_def encode_ready_def snd_config_def message_calls_def)
  note m = generate_message_reading [OF t assms(2) u(1,2)]
  obtain b n l where "s' = u\<lparr>clk := Suc (clk u), encode_buffer := b, encode_buffer_size := n, encoded_data_size := l\<rparr>"
    using m(3) by blast
  then have "snd_config s' = snd_config g" "message_calls (out s') = []" "count s' = 0" "tag s' = 0"
    using u by (simp_all add: snd_config_def)
  then show ?thesis using m(1,2) unfolding snd_wrote_def by (cases "add_timestamp g") auto
qed

text \<open>C32: in a whole run that begins with the opening of the connection, the sender writes as many
  messages as credit was granted, up to its limit, each in one delivery of its own, with the tags 0, 1,
  2, ..., written whole before the link advances. Without timestamps (option \<open>-l\<close>) all of them are the
  encoding of the one message built when the connection opened; with them each is encoded anew, for
  a time read later than that of the message before.\<close>

theorem snd_sends_encoded_messages:
  assumes "snd_main clock enc opts ((PN_CONNECTION_INIT # es) # ess) = Inr s"
    and "parse_opts (snd_option clock) opts (0, snd_globals) = Inr (dl, g)"
    and "PN_CONNECTION_INIT \<notin> set (concat (es # ess))" and "encoder_works enc"
  shows "\<exists>ps. message_calls (out s) = message_blocks False 0 ps
    \<and> length ps = (let n = granted (concat (es # ess)) in if limit g = 0 then n else min n (unat (limit g)))
    \<and> (\<not> add_timestamp g \<longrightarrow> (\<exists>k p. encodes_reading clock enc g k p \<and> ps = replicate (length ps) p))
    \<and> (add_timestamp g \<longrightarrow> (\<exists>ks. sorted_wrt (<) ks \<and> list_all2 (encodes_reading clock enc g) ks ps))"
proof -
  let ?g = "emit [PnSetContainer (container_name g), PnSetHostname (host_address g)] g"
  let ?round = "main_round (snd_event_handler clock enc) (snd_loop_body clock)"
  have "?round (l, t) (PN_CONNECTION_INIT # es) = bnd (snd_connection_init clock enc t) (\<lambda>u. ?round (l, u) es)" for l t
    by (simp add: main_round_def bnd_assoc)
  then obtain u loc where u: "snd_connection_init clock enc ?g = Inr u"
      and r: "run ?round ((dl, False), u) (es # ess) = Inr (loc, s)"
    using assms(1,2) by (auto simp: snd_main_def bnd_eq_Inr)
  have g: "snd_fresh g" using snd_options_fresh [OF assms(2)] .
  then have "encode_ready ?g"
    by (auto simp: snd_fresh_def encode_ready_def BODY_SIZE_SMALL_def BODY_SIZE_MEDIUM_def BODY_SIZE_LARGE_def)
  then have "snd_wrote clock enc g [] u"
    using snd_connection_init_wrote [OF u assms(4)] g by (simp add: snd_fresh_def snd_config_def message_calls_def)
  then obtain ps where ps: "snd_wrote clock enc g ps s" "length ps = capped (limit g) (granted (concat (es # ess)))"
    using snd_rounds_wrote [OF r assms(4,3), of g "[]" 0] by auto
  have "ps = replicate (length ps) (payload s)" if "set ps \<subseteq> {payload s}"
    using that by (intro replicate_eqI) auto
  then show ?thesis using ps
    by (intro exI [of _ ps]) (cases "add_timestamp g"; auto simp: snd_wrote_def capped_def Let_def)
qed

theorem snd_sends_encoded_messages_witness:
  "\<exists>s. snd_main steady_clock (fixed_encoder [1, 2, 3]) [(CHR ''c'', ''2'')] [PN_CONNECTION_INIT # snd_sample_events] = Inr s
     \<and> message_calls (out s) = message_blocks False 0 [[1, 2, 3], [1, 2, 3]]"
proof -
  obtain s where s: "snd_main steady_clock (fixed_encoder [1, 2, 3]) [(CHR ''c'', ''2'')]
      [PN_CONNECTION_INIT # snd_sample_events] = Inr s"
    using snd_sample_run by blast
  have "scan_u64 ''2'' = Some 2"
    by (simp add: scan_u64_def scan_number_def read_sign_def is_space_def is_digit_def strtoul_def)
  then have p: "parse_opts (snd_option steady_clock) [(CHR ''c'', ''2'')] (0, snd_globals) = Inr (0, snd_globals\<lparr>limit := 2\<rparr>)"
    by (simp add: snd_option_def)
  have w: "encoder_works (fixed_encoder [1, 2, 3])" by (simp add: fixed_encoder_works)
  have l: "limit (snd_globals\<lparr>limit := 2\<rparr>) = 2" "\<not> add_timestamp (snd_globals\<lparr>limit := 2\<rparr>)"
    by (simp_all add: snd_globals_def)
  have "PN_CONNECTION_INIT \<notin> set (concat (snd_sample_events # []))" by simp
  from snd_sends_encoded_messages [OF s p this w] l obtain ps k p where ps: "message_calls (out s) = message_blocks False 0 ps"
    and n: "length ps = 2" and k: "encodes_reading steady_clock (fixed_encoder [1, 2, 3]) (snd_globals\<lparr>limit := 2\<rparr>) k p"
      "ps = replicate (length ps) p" by auto
  obtain m where m: "encodes_as (fixed_encoder [1, 2, 3]) m p" using k(1) by (auto simp: encodes_reading_def)
  have "fixed_encoder [1, 2, 3] m 3 = (if unat (3 :: u64) < length p then PN_OVERFLOW else Encoded p)"
    using m by (simp only: encodes_as_def)
  then have "p = [1, 2, 3]" by (simp add: fixed_encoder_def split: if_splits)
  moreover have "ps = [p, p]" using k(2) n by (simp add: numeral_2_eq_2)
  ultimately show ?thesis using s ps by blast
qed

text \<open>A sender stops only together with waking its reactor, so that the main loop sees it.\<close>

theorem snd_stop_wakes_reactor:
  assumes "snd_main clock enc opts ess = Inr s" and "stop s"
  shows "PnReactorWakeup \<in> set (out s)"
proof -
  obtain d loc t where t: "snd_fresh t"
    "run (main_round (snd_event_handler clock enc) (snd_loop_body clock))
       ((d, False), emit [PnSetContainer (container_name t), PnSetHostname (host_address t)] t) ess = Inr (loc, s)"
    using assms(1) by (rule snd_main_run)
  show ?thesis
    using snd.round.run_stop_wakes [OF t(2)] t(1) assms(2) by (simp add: snd_fresh_def)
qed

theorem snd_stop_wakes_reactor_witness:
  "\<exists>s. snd_main steady_clock (fixed_encoder [1, 2, 3]) [(CHR ''c'', ''2'')]
         [PN_CONNECTION_INIT # snd_sample_events] = Inr s \<and> PnReactorWakeup \<in> set (out s)"
  using snd_sample_run snd_stop_wakes_reactor by blast

text \<open>The program never closes its link nor its session. The \<open>main()\<close> loop would, through
  the global pointers, but the handler keeps the endpoints in locals of the same names, so
  only the connection is closed.\<close>

theorem snd_never_closes_endpoints:
  assumes "snd_main clock enc opts ess = Inr s"
  shows "PnLinkClose \<notin> set (out s) \<and> PnSessionClose \<notin> set (out s)"
proof -
  obtain d loc t where t: "snd_fresh t"
    "run (main_round (snd_event_handler clock enc) (snd_loop_body clock))
       ((d, False), emit [PnSetContainer (container_name t), PnSetHostname (host_address t)] t) ess = Inr (loc, s)"
    using assms by (rule snd_main_run)
  let ?P = "\<lambda>t. closings (out t) = 0 \<and> \<not> g_link t \<and> \<not> g_ssn t"
  have step: "?P v" if "run (snd_event_handler clock enc) u es = Inr v" and "?P u" for u v es
  proof (rule run_preserves [where P = ?P, OF _ _ that(1)])
    show "?P u" by (rule that(2))
  next
    fix x e y
    assume p: "?P x" and y: "snd_event_handler clock enc x e = Inr y"
    obtain cs where "out y = out x @ cs" "closings cs = 0" "g_link y = g_link x" "g_ssn y = g_ssn x"
      using snd_event_view [OF y] by blast
    then show "?P y" using p by simp
  qed
  have body: "?P v" if b: "snd_loop_body clock l u = Inr (l', v)" and p: "?P u" for l u l' v
  proof -
    obtain k cs where cs: "v = u\<lparr>clk := k, out := out u @ cs\<rparr>" "PnLinkClose \<notin> set cs"
      "PnSessionClose \<notin> set cs"
      using snd_loop_body_Inr [OF b] p by blast
    then show ?thesis using p by (simp add: closings_none)
  qed
  have "?P (snd (loc, s))"
  proof (rule run_preserves [where P = "\<lambda>ls. ?P (snd ls)", OF _ _ t(2)])
    show "?P (snd ((d, False), emit [PnSetContainer (container_name t), PnSetHostname (host_address t)] t))"
      using t(1) by (simp add: snd_fresh_def)
  next
    fix ls es ls'
    assume a: "?P (snd ls)" "main_round (snd_event_handler clock enc) (snd_loop_body clock) ls es = Inr ls'"
    then obtain u where u: "run (snd_event_handler clock enc) (snd ls) es = Inr u"
      "snd_loop_body clock (fst ls) u = Inr (fst ls', snd ls')"
      by (auto simp: main_round_def bnd_eq_Inr)
    show "?P (snd ls')" by (rule body [OF u(2) step [OF u(1) a(1)]])
  qed
  then show ?thesis by (simp add: closings_none)
qed

theorem snd_never_closes_endpoints_witness:
  "\<exists>s. snd_main steady_clock (fixed_encoder [1, 2, 3]) [(CHR ''c'', ''2'')]
         [PN_CONNECTION_INIT # snd_sample_events] = Inr s \<and> PnLinkClose \<notin> set (out s)"
  using snd_sample_run snd_never_closes_endpoints by blast

text \<open>The closing report on credit stalls is exact: when the squares of the recorded stall
  times add up to less than \<open>2 ^ 64\<close>, it gives their number, the integer part of their mean
  and a variance whose unsigned subtraction has not wrapped, and \<open>worse_stall\<close> is the largest.\<close>

theorem snd_stall_report_exact:
  assumes "xs \<noteq> []" and "sum_sq xs < 2 ^ 64" and "length xs < 2 ^ 31"
    and "s = foldl record_stall snd_globals (map of_nat xs)"
  shows "\<exists>mean var. snd_stall_report s = Some (int (length xs), mean, var)
      \<and> unat mean = sum_list xs div length xs \<and> unat var = nat_variance xs
      \<and> worse_stall s \<in> of_nat ` set xs \<union> {0} \<and> (\<forall>x\<in>set xs. of_nat x \<le> worse_stall s)"
proof -
  have n: "stall_count (foldl record_stall u ys) = stall_count u + int (length ys)" for u :: sender and ys
    by (induction ys arbitrary: u) (simp_all add: record_stall_def)
  have c: "stall_count s = int (length xs)"
    using n [of snd_globals "map of_nat xs"] assms(4) by (simp add: snd_globals_def)
  have tot: "total_stall s = of_nat (sum_list xs)" "sum_of_squares s = of_nat (sum_sq xs)"
    using snd_stalls.total_fold [of snd_globals "map of_nat xs"]
      snd_stalls.sumsq_fold [of snd_globals "map of_nat xs"] assms(4)
    by (simp_all only: sum_list_of_nat_u64 sum_sq_of_nat_u64) (simp_all add: snd_globals_def)
  have "worse_stall s \<in> insert (worse_stall snd_globals) (set (map of_nat xs))"
    "\<forall>x\<in>set xs. of_nat x \<le> worse_stall s"
    using snd_stalls.largest_fold_attained [of snd_globals "map of_nat xs"]
      snd_stalls.largest_fold_bound [of _ "map of_nat xs" snd_globals] assms(4) by auto
  moreover have "snd_stall_report s = Some (int (length xs),
      mean_u64 (of_nat (sum_list xs)) (of_nat (length xs)),
      variance_u64 (of_nat (sum_list xs)) (of_nat (sum_sq xs)) (of_nat (length xs)))"
    using c tot assms(1) by (simp add: snd_stall_report_def mean_u64_def variance_u64_def Let_def)
  ultimately show ?thesis
    using variance_u64_exact [OF assms(1,2)] assms(3) by (simp add: snd_globals_def)
qed

theorem snd_stall_report_exact_witness:
  "\<exists>mean var. snd_stall_report (foldl record_stall snd_globals (map of_nat [2, 4]))
      = Some (2, mean, var) \<and> unat mean = 3 \<and> unat var = 1"
  using snd_stall_report_exact [of "[2, 4]", OF _ _ _ refl]
  by (simp add: nat_variance_def numeral_2_eq_2 [symmetric]) blast

text \<open>C33: once the options are read, nothing stops a sender before its events end, whatever they
  are: with a clock that answers and an encoder that encodes, no step exits, and the loop
  that enlarges the encoding buffer ends.\<close>

theorem snd_main_returns:
  assumes "clock_works clock" and "encoder_works enc"
    and "parse_opts (snd_option clock) opts (0, snd_globals) = Inr (d, s)"
  shows "\<exists>s'. snd_main clock enc opts ess = Inr s'"
proof -
  have step: "\<exists>t'. run (snd_event_handler clock enc) t es = Inr t' \<and> encode_ready t'"
    if "encode_ready t" for t es
    using that
  proof (induction es arbitrary: t)
    case (Cons e es)
    then obtain u where "snd_event_handler clock enc t e = Inr u" "encode_ready u"
      using snd_event_total [OF assms(1,2)] by blast
    with Cons.IH show ?case by simp
  qed simp
  have loop: "\<exists>l t'. run (main_round (snd_event_handler clock enc) (snd_loop_body clock)) (loc, t) ess
      = Inr (l, t')" if "encode_ready t" for loc t
    using that
  proof (induction ess arbitrary: loc t)
    case (Cons es ess)
    then obtain u where u: "run (snd_event_handler clock enc) t es = Inr u" "encode_ready u"
      using step by blast
    then obtain l v where "snd_loop_body clock loc u = Inr (l, v)" "encode_ready v"
      using snd_loop_body_total [OF assms(1)] by blast
    with u Cons.IH show ?case by (simp add: main_round_def)
  qed simp
  have "encode_ready (emit [PnSetContainer (container_name s), PnSetHostname (host_address s)] s)"
    using snd_options_fresh [OF assms(3)]
    by (auto simp: snd_fresh_def encode_ready_def BODY_SIZE_SMALL_def BODY_SIZE_MEDIUM_def BODY_SIZE_LARGE_def)
  from loop [OF this, of "(d, False)"] assms(3) show ?thesis
    by (auto simp: snd_main_def)
qed

theorem snd_main_returns_witness:
  "\<exists>s'. snd_main steady_clock (fixed_encoder [1, 2, 3]) [] [[PN_CONNECTION_INIT, PN_LINK_FLOW 7]] = Inr s'"
  by (rule snd_main_returns) (simp_all add: steady_clock_works fixed_encoder_works)

end
