(* ===== verification/BlockingSender.thy ===== *)
theory BlockingSender
  imports Sender
begin

text \<open>
  \<open>benchmarks/clients/src/blocking-sender.c\<close>: the sender that waits for the outcome of each
  message before it sends the next. The globals, the encoding, the stall statistics, the
  options and the main loop are those of \<open>sender.c\<close>, which the file repeats; what differs is
  \<open>send_msg()\<close> and the handler around it.
\<close>

section \<open>State and operations\<close>

record bsender = sender +
  pending_ack :: bool

definition bsnd_globals :: bsender where
  "bsnd_globals = sender.extend snd_globals \<lparr>pending_ack = False\<rparr>"

definition bsnd_finish :: "clock \<Rightarrow> bsender \<Rightarrow> halt + bsender" where
  "bsnd_finish clock s =
     (if limit s \<noteq> 0 \<and> count s = limit s then
        bnd (now_usec clock s) (\<lambda>(t, s).
        let s = s\<lparr>stop_ts := t\<rparr> in
        Inr (if pending_ack s then s else emit [PnReactorWakeup] (s\<lparr>stop := True\<rparr>)))
      else Inr s)"

definition bsnd_send_msg :: "clock \<Rightarrow> encoder \<Rightarrow> int \<Rightarrow> bsender \<Rightarrow> halt + bool \<times> bsender" where
  "bsnd_send_msg clock enc credit s =
     (if credit \<le> 0 then bnd (begin_stall clock s) (\<lambda>s. Inr (False, s))
      else if \<not> pending_ack s \<and> (limit s = 0 \<or> count s < limit s) then
        bnd (end_stall clock s) (\<lambda>s.
        let s = s\<lparr>grant_count := grant_count s + 1,
                  credit_grants := credit_grants s + word_of_int credit\<rparr> in
        bnd (mark_start clock s) (\<lambda>s.
        let s = s\<lparr>count := count s + 1, tag := tag s + 1\<rparr>;
            s = emit [PnDelivery (tag s)] s in
        bnd (refresh_message clock enc s) (\<lambda>s.
        let s = emit [PnLinkSend (payload s), PnLinkAdvance] s;
            s = (if \<not> presettle s then s\<lparr>pending_ack := True\<rparr> else emit [PnSettle] s) in
        bnd (bsnd_finish clock s) (\<lambda>s. Inr (True, s)))))
      else Inr (False, s))"

definition bsnd_connection_init :: "clock \<Rightarrow> encoder \<Rightarrow> bsender \<Rightarrow> halt + bsender" where
  "bsnd_connection_init clock enc s =
     (let s = emit ([PnConnectionOpen, PnSession, PnSessionOpen, PnSender ''MySender'']
                    @ (if use_anonymous s then [] else [PnSetTarget (target_address s)])
                    @ [PnLinkOpen]) s;
          s = s\<lparr>acked := count s\<rparr>
      in bnd (now_usec clock s) (\<lambda>(t, s). snd_generate_message enc t s))"

definition bsnd_mark_ack :: "clock \<Rightarrow> bsender \<Rightarrow> halt + bsender" where
  "bsnd_mark_ack clock s =
     (if ack_start_ts s = 0
      then bnd (now_usec clock s) (\<lambda>(t, s). Inr (s\<lparr>ack_start_ts := t\<rparr>)) else Inr s)"

definition bsnd_outcome :: "clock \<Rightarrow> disposition \<Rightarrow> bsender \<Rightarrow> halt + bsender" where
  "bsnd_outcome clock rs s =
     (case rs of
        PN_RECEIVED \<Rightarrow> Inr s
      | PN_ACCEPTED \<Rightarrow>
          bsnd_mark_ack clock (emit [PnSettle]
            (s\<lparr>pending_ack := False, acked := acked s + 1, accepted := accepted s + 1\<rparr>))
      | _ \<Rightarrow>
          bsnd_mark_ack clock (emit [PnSettle]
            (s\<lparr>pending_ack := False, acked := acked s + 1, not_accepted := not_accepted s + 1\<rparr>)))"

definition bsnd_delivery :: "clock \<Rightarrow> encoder \<Rightarrow> bool \<Rightarrow> disposition \<Rightarrow> int \<Rightarrow> bsender \<Rightarrow> halt + bsender" where
  "bsnd_delivery clock enc updated rs credit s =
     (if updated then
        bnd (bsnd_outcome clock rs s) (\<lambda>s.
        if limit s = 0 \<or> count s < limit s then
          if \<not> pending_ack s then bnd (bsnd_send_msg clock enc credit s) (\<lambda>(sent, s). Inr s)
          else Inr s
        else if acked s = limit s then
          bnd (now_usec clock (s\<lparr>stop := True\<rparr>)) (\<lambda>(t, s).
          Inr (emit [PnReactorWakeup] (s\<lparr>ack_stop_ts := t\<rparr>)))
        else Inr s)
      else Inr s)"

fun bsnd_event_handler :: "clock \<Rightarrow> encoder \<Rightarrow> bsender \<Rightarrow> tx_event \<Rightarrow> halt + bsender" where
  "bsnd_event_handler clock enc s PN_CONNECTION_INIT = bsnd_connection_init clock enc s"
| "bsnd_event_handler clock enc s (PN_LINK_FLOW credit) =
     bnd (bsnd_send_msg clock enc credit s) (\<lambda>(sent, s). Inr s)"
| "bsnd_event_handler clock enc s (PN_DELIVERY updated rs credit) = bsnd_delivery clock enc updated rs credit s"
| "bsnd_event_handler clock enc s (PN_SIGNAL sig) = Inr (signal_handler sig s)"
| "bsnd_event_handler clock enc s _ = Inr s"

definition bsnd_main :: "clock \<Rightarrow> encoder \<Rightarrow> opt list \<Rightarrow> tx_event list list \<Rightarrow> halt + bsender" where
  "bsnd_main clock enc opts ess =
     bnd (parse_opts (snd_option clock) opts (0, bsnd_globals)) (\<lambda>(deadline, s).
     bnd (run (main_round (bsnd_event_handler clock enc) (snd_loop_body clock))
           ((deadline, False), emit [PnSetContainer (container_name s), PnSetHostname (host_address s)] s) ess) (\<lambda>(loc, s).
     Inr s))"

section \<open>What one event does\<close>

definition bsnd_view :: "bsender \<Rightarrow>
    pn_call list \<times> bool \<times> u64 \<times> u64 \<times> u64 \<times> bool \<times> u64 \<times> u64 \<times> u64 \<times> bool" where
  "bsnd_view s = (out s, stop s, limit s, count s, tag s, presettle s, acked s, accepted s,
     not_accepted s, pending_ack s)"

lemma emit_bsender [simp]: "pending_ack (emit cs s) = pending_ack s"
  by (simp add: emit_def)

lemma end_stall_bview: "end_stall clock s = Inr s' \<Longrightarrow> bsnd_view s' = bsnd_view s"
  by (auto simp: end_stall_def record_stall_def bsnd_view_def bnd_eq_Inr Let_def
      dest!: now_timespec_Inr split: if_splits)

lemma begin_stall_bview: "begin_stall clock s = Inr s' \<Longrightarrow> bsnd_view s' = bsnd_view s"
  by (auto simp: begin_stall_def bsnd_view_def bnd_eq_Inr dest!: now_timespec_Inr)

lemma mark_start_bview: "mark_start clock s = Inr s' \<Longrightarrow> bsnd_view s' = bsnd_view s"
  by (auto simp: mark_start_def bsnd_view_def bnd_eq_Inr dest!: now_usec_Inr split: if_splits)

lemma mark_ack_bview: "bsnd_mark_ack clock s = Inr s' \<Longrightarrow> bsnd_view s' = bsnd_view s"
  by (auto simp: bsnd_mark_ack_def bsnd_view_def bnd_eq_Inr dest!: now_usec_Inr split: if_splits)

lemma refresh_message_bview:
  assumes "refresh_message clock enc s = Inr s'"
  shows "bsnd_view s' = bsnd_view s"
proof -
  obtain k b n l where "s' = s\<lparr>clk := k, encode_buffer := b, encode_buffer_size := n, encoded_data_size := l\<rparr>"
    using refresh_message_Inr [OF assms] by blast
  then show ?thesis by (simp add: bsnd_view_def)
qed

lemmas bsnd_quiet_views = end_stall_bview begin_stall_bview mark_start_bview mark_ack_bview
  refresh_message_bview

lemma bsnd_finish_view:
  assumes "bsnd_finish clock s = Inr s'"
  shows "\<exists>d. (d \<longrightarrow> \<not> pending_ack s) \<and> bsnd_view s' =
     (out s @ (if d then [PnReactorWakeup] else []), stop s \<or> d, limit s, count s, tag s, presettle s,
      acked s, accepted s, not_accepted s, pending_ack s)"
proof (cases "limit s \<noteq> 0 \<and> count s = limit s \<and> \<not> pending_ack s")
  case True
  then have "bsnd_view s' = (out s @ [PnReactorWakeup], True, limit s, count s, tag s, presettle s,
      acked s, accepted s, not_accepted s, pending_ack s)"
    using assms by (auto simp: bsnd_finish_def bsnd_view_def bnd_eq_Inr emit_def Let_def dest!: now_usec_Inr)
  with True show ?thesis by (intro exI [of _ True]) simp
next
  case False
  then have "bsnd_view s' = bsnd_view s"
    using assms
    by (auto simp: bsnd_finish_def bsnd_view_def bnd_eq_Inr Let_def dest!: now_usec_Inr split: if_splits)
  then show ?thesis by (intro exI [of _ False]) (simp add: bsnd_view_def)
qed

text \<open>\<open>send_msg()\<close> either leaves the log and the counters alone, or writes one message.\<close>

lemma bsnd_send_msg_view:
  assumes "bsnd_send_msg clock enc credit s = Inr (sent, s')"
  shows "if sent then 0 < credit \<and> \<not> pending_ack s \<and> (limit s = 0 \<or> count s < limit s)
      \<and> (\<exists>p d. bsnd_view s' = (out s @ message_block (presettle s) (tag s + 1) p
               @ (if d then [PnReactorWakeup] else []), stop s \<or> d, limit s, count s + 1, tag s + 1,
             presettle s, acked s, accepted s, not_accepted s, \<not> presettle s))
    else (credit \<le> 0 \<or> pending_ack s \<or> limit s \<noteq> 0 \<and> limit s \<le> count s) \<and> bsnd_view s' = bsnd_view s"
proof (cases "0 < credit \<and> \<not> pending_ack s \<and> (limit s = 0 \<or> count s < limit s)")
  case False
  have "\<not> sent \<and> bsnd_view s' = bsnd_view s"
  proof (cases "credit \<le> 0")
    case True
    then obtain t where "begin_stall clock s = Inr t" "sent = False" "s' = t"
      using assms by (auto simp: bsnd_send_msg_def bnd_eq_Inr)
    then show ?thesis using begin_stall_bview by simp
  next
    case c: False
    then have n: "\<not> (\<not> pending_ack s \<and> (limit s = 0 \<or> count s < limit s))" using False by simp
    show ?thesis
      using assms unfolding bsnd_send_msg_def if_not_P [OF c] if_not_P [OF n] by simp
  qed
  with False show ?thesis by (auto simp: not_less)
next
  case True
  then obtain a b c where a: "end_stall clock s = Inr a"
    and b: "mark_start clock (a\<lparr>grant_count := grant_count a + 1,
              credit_grants := credit_grants a + word_of_int credit\<rparr>) = Inr b"
    and c: "refresh_message clock enc (emit [PnDelivery (tag b + 1)] (b\<lparr>count := count b + 1, tag := tag b + 1\<rparr>)) = Inr c"
    and d: "bsnd_finish clock (if \<not> presettle c then emit [PnLinkSend (payload c), PnLinkAdvance] c\<lparr>pending_ack := True\<rparr>
              else emit [PnSettle] (emit [PnLinkSend (payload c), PnLinkAdvance] c)) = Inr s'"
    and "sent"
    using assms by (auto simp: bsnd_send_msg_def bnd_eq_Inr Let_def)
  have vb: "bsnd_view b = bsnd_view s"
    using bsnd_quiet_views(1) [OF a] bsnd_quiet_views(3) [OF b] by (simp add: bsnd_view_def)
  have vc: "bsnd_view c = (out s @ [PnDelivery (tag s + 1)], stop s, limit s, count s + 1, tag s + 1,
      presettle s, acked s, accepted s, not_accepted s, False)"
    using bsnd_quiet_views(5) [OF c] vb True by (simp add: bsnd_view_def)
  obtain e where "bsnd_view s' = (out s @ message_block (presettle s) (tag s + 1) (payload c)
      @ (if e then [PnReactorWakeup] else []), stop s \<or> e, limit s, count s + 1, tag s + 1,
      presettle s, acked s, accepted s, not_accepted s, \<not> presettle s)"
    using bsnd_finish_view [OF d] vc
    by (cases "presettle s") (auto simp: bsnd_view_def message_block_def)
  with True \<open>sent\<close> show ?thesis by auto
qed

lemma bsnd_outcome_view:
  assumes "bsnd_outcome clock rs s = Inr s'"
  shows "bsnd_view s' =
     (if rs = PN_RECEIVED then bsnd_view s
      else (out s @ [PnSettle], stop s, limit s, count s, tag s, presettle s, acked s + 1,
        if rs = PN_ACCEPTED then accepted s + 1 else accepted s,
        if rs = PN_ACCEPTED then not_accepted s else not_accepted s + 1, False))"
  using assms by (cases rs) (auto simp: bsnd_outcome_def dest!: mark_ack_bview, auto simp: bsnd_view_def)

lemma bsnd_connection_init_view:
  assumes "bsnd_connection_init clock enc s = Inr s'"
  shows "\<exists>cs. tags cs = [] \<and> settles cs = 0 \<and> bsnd_view s' =
     (out s @ cs, stop s, limit s, count s, tag s, presettle s, count s, accepted s, not_accepted s, pending_ack s)"
proof -
  let ?cs = "[PnConnectionOpen, PnSession, PnSessionOpen, PnSender ''MySender'']
                    @ (if use_anonymous s then [] else [PnSetTarget (target_address s)]) @ [PnLinkOpen]"
  obtain t u where t: "now_usec clock ((emit ?cs s)\<lparr>acked := count s\<rparr>) = Inr (t, u)"
    "snd_generate_message enc t u = Inr s'"
    using assms by (auto simp: bsnd_connection_init_def bnd_eq_Inr Let_def)
  have "u = (emit ?cs s)\<lparr>acked := count s, clk := Suc (clk s)\<rparr>" using now_usec_Inr [OF t(1)] by simp
  moreover obtain b n l where "s' = u\<lparr>encode_buffer := b, encode_buffer_size := n, encoded_data_size := l\<rparr>"
    using snd_generate_message_Inr [OF t(2)] by blast
  ultimately show ?thesis
    by (intro exI [of _ ?cs]) (simp add: bsnd_view_def)
qed

text \<open>The shape of every step, from which the contracts follow: at most one message is written.\<close>

definition bsnd_ledger :: "bsender \<Rightarrow> u64" where
  "bsnd_ledger s = acked s - accepted s - not_accepted s"

definition bsnd_owed :: "bsender \<Rightarrow> u64" where
  "bsnd_owed s = acked s - of_nat (settles (out s))"

definition bsnd_step_law :: "bsender \<Rightarrow> nat \<Rightarrow> bsender \<Rightarrow> bool" where
  "bsnd_step_law s n s' \<longleftrightarrow>
     (\<exists>cs. out s' = out s @ cs \<and> tags cs = map (\<lambda>i. (tag s + 1) + of_nat i) [0..<n])
     \<and> tag s' = tag s + of_nat n \<and> count s' = count s + of_nat n
     \<and> limit s' = limit s \<and> presettle s' = presettle s
     \<and> (stop s \<longrightarrow> stop s') \<and> (stop s' \<longrightarrow> \<not> stop s \<longrightarrow> PnReactorWakeup \<in> set (out s'))
     \<and> n + settles (out s) + of_bool (pending_ack s) \<le> settles (out s') + of_bool (pending_ack s')"

definition bsnd_ack_law :: "bsender \<Rightarrow> bsender \<Rightarrow> bool" where
  "bsnd_ack_law s s' \<longleftrightarrow>
     bsnd_ledger s' = bsnd_ledger s \<and> (\<not> presettle s \<longrightarrow> bsnd_owed s' = bsnd_owed s)"

lemma bsnd_same_law: "bsnd_view s' = bsnd_view s \<Longrightarrow> bsnd_step_law s 0 s' \<and> bsnd_ack_law s s'"
  by (simp add: bsnd_view_def bsnd_step_law_def bsnd_ack_law_def bsnd_ledger_def bsnd_owed_def)

lemma bsnd_send_msg_law:
  assumes "bsnd_send_msg clock enc credit s = Inr (sent, s')"
  shows "bsnd_step_law s (of_bool sent) s' \<and> bsnd_ack_law s s'
    \<and> (sent \<longrightarrow> limit s = 0 \<or> count s < limit s)"
proof (cases sent)
  case True
  then obtain p d where "bsnd_view s' = (out s @ message_block (presettle s) (tag s + 1) p
               @ (if d then [PnReactorWakeup] else []), stop s \<or> d, limit s, count s + 1, tag s + 1,
             presettle s, acked s, accepted s, not_accepted s, \<not> presettle s)"
    "\<not> pending_ack s" "limit s = 0 \<or> count s < limit s"
    using bsnd_send_msg_view [OF assms] by auto
  then show ?thesis
    using True
    by (simp add: bsnd_view_def message_block_def bsnd_step_law_def bsnd_ack_law_def bsnd_ledger_def bsnd_owed_def)
next
  case False
  then have "bsnd_view s' = bsnd_view s" using bsnd_send_msg_view [OF assms] by simp
  then show ?thesis using False bsnd_same_law by simp
qed

lemma bsnd_outcome_law:
  assumes "bsnd_outcome clock rs s = Inr s'"
  shows "bsnd_step_law s 0 s' \<and> bsnd_ack_law s s'"
proof (cases "rs = PN_RECEIVED")
  case True
  then have "bsnd_view s' = bsnd_view s" using bsnd_outcome_view [OF assms] by simp
  then show ?thesis by (rule bsnd_same_law)
next
  case False
  then show ?thesis using bsnd_outcome_view [OF assms]
    by (cases "rs = PN_ACCEPTED")
      (simp_all add: bsnd_view_def bsnd_step_law_def bsnd_ack_law_def bsnd_ledger_def bsnd_owed_def)
qed

lemma bsnd_law_trans:
  assumes "bsnd_step_law s 0 t" and "bsnd_step_law t n u"
  shows "bsnd_step_law s n u"
proof -
  obtain cs where cs: "out t = out s @ cs" "tags cs = []"
    using assms(1) by (auto simp: bsnd_step_law_def)
  obtain ds where ds: "out u = out t @ ds" "tags ds = map (\<lambda>i. (tag t + 1) + of_nat i) [0..<n]"
    using assms(2) by (auto simp: bsnd_step_law_def)
  have t: "tag t = tag s" "count t = count s" "limit t = limit s" "presettle t = presettle s"
    "settles (out s) + of_bool (pending_ack s) \<le> settles (out t) + of_bool (pending_ack t)"
    "stop s \<longrightarrow> stop t" "stop t \<longrightarrow> \<not> stop s \<longrightarrow> PnReactorWakeup \<in> set (out t)"
    using assms(1) by (simp_all add: bsnd_step_law_def)
  have u: "tag u = tag t + of_nat n" "count u = count t + of_nat n" "limit u = limit t"
    "presettle u = presettle t"
    "n + settles (out t) + of_bool (pending_ack t) \<le> settles (out u) + of_bool (pending_ack u)"
    "stop t \<longrightarrow> stop u" "stop u \<longrightarrow> \<not> stop t \<longrightarrow> PnReactorWakeup \<in> set (out u)"
    using assms(2) by (simp_all add: bsnd_step_law_def)
  have "\<exists>cs. out u = out s @ cs \<and> tags cs = map (\<lambda>i. (tag s + 1) + of_nat i) [0..<n]"
    using cs ds t(1) by (intro exI [of _ "cs @ ds"]) simp
  moreover have "n + settles (out s) + of_bool (pending_ack s) \<le> settles (out u) + of_bool (pending_ack u)"
    using t(5) u(5) by linarith
  moreover have "stop u \<longrightarrow> \<not> stop s \<longrightarrow> PnReactorWakeup \<in> set (out u)"
    using t(7) u(7) ds(1) by auto
  ultimately show ?thesis
    using t u unfolding bsnd_step_law_def by simp
qed

lemma bsnd_ack_trans:
  "bsnd_ack_law s t \<Longrightarrow> bsnd_ack_law t u \<Longrightarrow> presettle t = presettle s \<Longrightarrow> bsnd_ack_law s u"
  by (simp add: bsnd_ack_law_def)

lemma bsnd_delivery_law:
  assumes "bsnd_delivery clock enc updated rs credit s = Inr s'"
  shows "\<exists>sent. bsnd_step_law s (of_bool sent) s' \<and> bsnd_ack_law s s'
    \<and> (sent \<longrightarrow> limit s = 0 \<or> count s < limit s)"
proof (cases updated)
  case False
  then have "s' = s" using assms by (simp add: bsnd_delivery_def)
  then show ?thesis using bsnd_same_law [of s s] by (intro exI [of _ False]) simp
next
  case True
  then obtain t where t: "bsnd_outcome clock rs s = Inr t"
    and s': "(if limit t = 0 \<or> count t < limit t then
          if \<not> pending_ack t then bnd (bsnd_send_msg clock enc credit t) (\<lambda>(sent, s). Inr s)
          else Inr t
        else if acked t = limit t then
          bnd (now_usec clock (t\<lparr>stop := True\<rparr>)) (\<lambda>(t, s).
          Inr (emit [PnReactorWakeup] (s\<lparr>ack_stop_ts := t\<rparr>)))
        else Inr t) = Inr s'"
    using assms by (auto simp: bsnd_delivery_def bnd_eq_Inr)
  note o = bsnd_outcome_law [OF t]
  have ft: "presettle t = presettle s" "limit t = limit s" "count t = count s"
    using o by (simp_all add: bsnd_step_law_def)
  have "\<exists>sent. bsnd_step_law t (of_bool sent) s' \<and> bsnd_ack_law t s'
      \<and> (sent \<longrightarrow> limit t = 0 \<or> count t < limit t)"
  proof (cases "(limit t = 0 \<or> count t < limit t) \<and> \<not> pending_ack t")
    case True
    then obtain sent where "bsnd_send_msg clock enc credit t = Inr (sent, s')"
      using s' by (auto simp: bnd_eq_Inr)
    then show ?thesis using bsnd_send_msg_law by blast
  next
    case n: False
    show ?thesis
    proof (cases "limit t = 0 \<or> count t < limit t \<or> acked t \<noteq> limit t")
      case True
      then have "s' = t" using n s' by (auto split: if_splits)
      then show ?thesis using bsnd_same_law [of t t] by (intro exI [of _ False]) simp
    next
      case False
      then have "bsnd_view s' = (out t @ [PnReactorWakeup], True, limit t, count t, tag t, presettle t,
          acked t, accepted t, not_accepted t, pending_ack t)"
        using s' by (auto simp: bnd_eq_Inr bsnd_view_def emit_def dest!: now_usec_Inr)
      then show ?thesis
        by (intro exI [of _ False])
          (simp add: bsnd_view_def bsnd_step_law_def bsnd_ack_law_def bsnd_ledger_def bsnd_owed_def)
    qed
  qed
  then show ?thesis
    using o ft bsnd_law_trans bsnd_ack_trans by metis
qed

lemma bsnd_event_law:
  assumes "bsnd_event_handler clock enc s e = Inr s'"
  shows "\<exists>sent. bsnd_step_law s (of_bool sent) s' \<and> (sent \<longrightarrow> limit s = 0 \<or> count s < limit s)
    \<and> (e \<noteq> PN_CONNECTION_INIT \<longrightarrow> bsnd_ack_law s s')"
proof (cases e)
  case PN_CONNECTION_INIT
  then obtain cs where "tags cs = [] \<and> settles cs = 0 \<and> bsnd_view s' =
     (out s @ cs, stop s, limit s, count s, tag s, presettle s, count s, accepted s, not_accepted s, pending_ack s)"
    using assms bsnd_connection_init_view [of clock enc s s'] by auto
  with PN_CONNECTION_INIT show ?thesis
    by (intro exI [of _ False]) (simp add: bsnd_view_def bsnd_step_law_def)
next
  case (PN_LINK_FLOW credit)
  then obtain sent where "bsnd_send_msg clock enc credit s = Inr (sent, s')"
    using assms by (auto simp: bnd_eq_Inr)
  then show ?thesis using bsnd_send_msg_law by blast
next
  case (PN_DELIVERY u rs credit)
  then have "bsnd_delivery clock enc u rs credit s = Inr s'" using assms by simp
  then show ?thesis using bsnd_delivery_law by blast
next
  case (PN_SIGNAL sig)
  with assms show ?thesis
    by (intro exI [of _ False])
      (simp add: signal_handler_eq bsnd_step_law_def bsnd_ack_law_def bsnd_ledger_def bsnd_owed_def Let_def,
       auto)
next
  case PN_CONNECTION_BOUND
  with assms bsnd_same_law [of s s] show ?thesis by (intro exI [of _ False]) simp
next
  case PN_OTHER_EVENT
  with assms bsnd_same_law [of s s] show ?thesis by (intro exI [of _ False]) simp
qed

section \<open>The contracts\<close>

lemma bsnd_loop_body_Inr:
  assumes "snd_loop_body clock l s = Inr (l', s' :: bsender)"
  obtains k cs where "s' = s\<lparr>clk := k, out := out s @ cs\<rparr>" "tags cs = []" "settles cs = 0"
  using snd_loop_body_Inr [OF assms] by blast

interpretation bsnd: stopping_loop "bsnd_event_handler clock enc" out stop PnReactorWakeup
    "snd_loop_body clock" for clock enc
proof
  fix s s' :: bsender and e
  assume "bsnd_event_handler clock enc s e = Inr s'"
  then obtain sent where "bsnd_step_law s (of_bool sent) s'" using bsnd_event_law by blast
  then show "\<exists>cs. out s' = out s @ cs" "stop s \<Longrightarrow> stop s'"
    "\<not> stop s \<Longrightarrow> stop s' \<Longrightarrow> PnReactorWakeup \<in> set (out s')"
    by (auto simp: bsnd_step_law_def)
next
  fix l l' and s s' :: bsender
  assume "snd_loop_body clock l s = Inr (l', s')"
  then obtain k cs where "s' = s\<lparr>clk := k, out := out s @ cs\<rparr>" by (rule bsnd_loop_body_Inr)
  then show "\<exists>cs. out s' = out s @ cs" "stop s' = stop s" by simp_all
qed

interpretation bsnd: budgeted_loop "bsnd_event_handler clock enc" out limit count "\<lambda>s. tag s + 1"
    "snd_loop_body clock" for clock enc
proof
  fix s s' :: bsender and e
  assume a: "bsnd_event_handler clock enc s e = Inr s'"
  then obtain sent where l: "bsnd_step_law s (of_bool sent) s'" "sent \<longrightarrow> limit s = 0 \<or> count s < limit s"
    using bsnd_event_law by blast
  show "limit s' = limit s" using l(1) by (simp add: bsnd_step_law_def)
  have "unat (count s) + of_bool sent \<le> unat (limit s)" if "limit s \<noteq> 0" "count s \<le> limit s"
    using that l(2) by (cases sent) (auto simp: word_le_nat_alt word_less_nat_alt)
  then show "\<exists>n. tags (out s') = tags (out s) @ map (\<lambda>i. (tag s + 1) + of_nat i) [0..<n]
      \<and> tag s' + 1 = (tag s + 1) + of_nat n \<and> count s' = count s + of_nat n
      \<and> (limit s \<noteq> 0 \<longrightarrow> count s \<le> limit s \<longrightarrow> unat (count s) + n \<le> unat (limit s))"
    using l(1) by (intro exI [of _ "of_bool sent"]) (auto simp: bsnd_step_law_def algebra_simps)
next
  fix l l' and s s' :: bsender
  assume "snd_loop_body clock l s = Inr (l', s')"
  then obtain k cs where "s' = s\<lparr>clk := k, out := out s @ cs\<rparr>" "tags cs = []" by (rule bsnd_loop_body_Inr)
  then show "limit s' = limit s \<and> count s' = count s \<and> tag s' + 1 = tag s + 1 \<and> tags (out s') = tags (out s)"
    by simp
qed

interpretation bsnd: blocking_loop "bsnd_event_handler clock enc" out pending_ack
    "snd_loop_body clock" for clock enc
proof
  fix s s' :: bsender and e
  assume "bsnd_event_handler clock enc s e = Inr s'"
  then obtain sent where l: "bsnd_step_law s (of_bool sent) s'" using bsnd_event_law by blast
  then obtain cs where "out s' = out s @ cs" "length (tags cs) = of_bool sent"
    by (auto simp: bsnd_step_law_def)
  then show "deliveries (out s') + settles (out s) + of_bool (pending_ack s)
      \<le> deliveries (out s) + settles (out s') + of_bool (pending_ack s')"
    using l by (simp add: bsnd_step_law_def deliveries_tags)
next
  fix l l' and s s' :: bsender
  assume "snd_loop_body clock l s = Inr (l', s')"
  then obtain k cs where "s' = s\<lparr>clk := k, out := out s @ cs\<rparr>" "tags cs = []" "settles cs = 0"
    by (rule bsnd_loop_body_Inr)
  then show "pending_ack s' = pending_ack s \<and> deliveries (out s') = deliveries (out s) \<and> settles (out s') = settles (out s)"
    by (simp add: deliveries_tags)
qed

interpretation bsnd: ledger_loop "bsnd_event_handler clock enc" out acked accepted not_accepted
    "\<lambda>e. e = PN_CONNECTION_INIT" presettle "snd_loop_body clock" for clock enc
proof
  fix s s' :: bsender and e
  assume a: "bsnd_event_handler clock enc s e = Inr s'"
  then obtain sent where l: "bsnd_step_law s (of_bool sent) s'" "e \<noteq> PN_CONNECTION_INIT \<longrightarrow> bsnd_ack_law s s'"
    using bsnd_event_law by blast
  show "presettle s' = presettle s" using l(1) by (simp add: bsnd_step_law_def)
  show "e \<noteq> PN_CONNECTION_INIT \<Longrightarrow>
      acked s' + accepted s + not_accepted s = acked s + accepted s' + not_accepted s'"
    using l(2) by (simp add: bsnd_ack_law_def bsnd_ledger_def algebra_simps)
  show "e \<noteq> PN_CONNECTION_INIT \<Longrightarrow> \<not> presettle s \<Longrightarrow>
      of_nat (settles (out s')) + acked s = of_nat (settles (out s)) + acked s'"
    using l(2) by (simp add: bsnd_ack_law_def bsnd_owed_def algebra_simps)
next
  fix l l' and s s' :: bsender
  assume "snd_loop_body clock l s = Inr (l', s')"
  then obtain k cs where "s' = s\<lparr>clk := k, out := out s @ cs\<rparr>" "tags cs = []" "settles cs = 0"
    by (rule bsnd_loop_body_Inr)
  then show "acked s' = acked s \<and> accepted s' = accepted s \<and> not_accepted s' = not_accepted s
      \<and> presettle s' = presettle s \<and> settles (out s') = settles (out s)"
    by simp
qed

section \<open>Whole programs\<close>

lemma bsnd_main_run:
  assumes "bsnd_main clock enc opts ess = Inr s'"
  obtains d loc s where "snd_fresh s"
    "run (main_round (bsnd_event_handler clock enc) (snd_loop_body clock))
       ((d, False), emit [PnSetContainer (container_name s), PnSetHostname (host_address s)] s) ess = Inr (loc, s')"
proof -
  obtain d loc s where s: "parse_opts (snd_option clock) opts (0, bsnd_globals) = Inr (d, s)"
    "run (main_round (bsnd_event_handler clock enc) (snd_loop_body clock))
       ((d, False), emit [PnSetContainer (container_name s), PnSetHostname (host_address s)] s) ess = Inr (loc, s')"
    using assms by (auto simp: bsnd_main_def bnd_eq_Inr)
  have "snd_fresh (snd (d, s))"
  proof (rule parse_opts_preserves [where P = "\<lambda>ds. snd_fresh (snd ds)", OF _ _ s(1)])
    show "snd_fresh (snd (0, bsnd_globals))"
      by (simp add: snd_fresh_def bsnd_globals_def snd_globals_def sender.defs)
  qed (rule snd_option_fresh)
  with s(2) show ?thesis using that by simp
qed

text \<open>A concrete run: the second message waits for the outcome of the first.\<close>

abbreviation bsnd_sample_run :: "halt + bsender" where
  "bsnd_sample_run \<equiv> bsnd_main steady_clock (fixed_encoder [1, 2, 3]) [(CHR ''c'', ''2'')]
     [[PN_CONNECTION_INIT, PN_LINK_FLOW 3, PN_LINK_FLOW 3], [PN_DELIVERY True PN_ACCEPTED 2]]"

lemma bsnd_sample_run_Inr: "\<exists>s. bsnd_sample_run = Inr s \<and> limit s = 2 \<and> count s = 2 \<and> settles (out s) = 1"
proof -
  have "scan_u64 ''2'' = Some 2"
    by (simp add: scan_u64_def scan_number_def read_sign_def is_space_def is_digit_def strtoul_def)
  moreover note encode_loop_fixed [of "[1, 2, 3]" 612, simplified]
  ultimately show ?thesis
    by (simp add: bsnd_main_def snd_option_def main_round_def snd_globals_def bsnd_globals_def sender.defs
        bsnd_connection_init_def snd_generate_message_def encode_message_def
        BODY_SIZE_SMALL_def bsnd_send_msg_def end_stall_def mark_start_def Let_def
        refresh_message_def emit_def payload_def snd_loop_body_def bsnd_finish_def
        bsnd_delivery_def bsnd_outcome_def bsnd_mark_ack_def)
qed

text \<open>C39: the blocking sender has at most one message without an outcome: whatever the peer grants
  and answers, and presettled or not, it never creates a delivery while an earlier one is
  not settled.\<close>

theorem bsnd_one_unsettled_at_a_time:
  assumes "bsnd_main clock enc opts ess = Inr s"
  shows "deliveries (out s) \<le> settles (out s) + 1"
proof -
  obtain d loc t where t: "snd_fresh t"
    "run (main_round (bsnd_event_handler clock enc) (snd_loop_body clock))
       ((d, False), emit [PnSetContainer (container_name t), PnSetHostname (host_address t)] t) ess = Inr (loc, s)"
    using assms by (rule bsnd_main_run)
  show ?thesis
    using bsnd.round.run_one_unsettled [OF t(2)] t(1) by (simp add: snd_fresh_def)
qed

theorem bsnd_one_unsettled_at_a_time_witness:
  "\<exists>s. bsnd_sample_run = Inr s \<and> deliveries (out s) \<le> 2"
proof -
  obtain s where s: "bsnd_sample_run = Inr s" "settles (out s) = 1" using bsnd_sample_run_Inr by blast
  have "deliveries (out s) \<le> 2" using bsnd_one_unsettled_at_a_time [OF s(1)] s(2) by simp
  with s(1) show ?thesis by blast
qed

text \<open>The blocking sender keeps to its limit too, and its deliveries carry the tags 1, 2, ...
  in order, one for each message counted.\<close>

theorem bsnd_within_limit_in_order:
  assumes "bsnd_main clock enc opts ess = Inr s"
  shows "\<exists>n. tags (out s) = map (\<lambda>i. of_nat (Suc i)) [0..<n] \<and> count s = of_nat n
    \<and> (limit s = 0 \<or> n \<le> unat (limit s))"
proof -
  obtain d loc t where t: "snd_fresh t"
    "run (main_round (bsnd_event_handler clock enc) (snd_loop_body clock))
       ((d, False), emit [PnSetContainer (container_name t), PnSetHostname (host_address t)] t) ess = Inr (loc, s)"
    using assms by (rule bsnd_main_run)
  have "limit s = limit t" using bsnd.round.run_lim [OF t(2)] by simp
  then show ?thesis using bsnd.round.run_sent [OF t(2)] t(1)
    by (simp add: snd_fresh_def) (metis word_le_nat_alt unat_0 le0)
qed

theorem bsnd_within_limit_in_order_witness:
  "\<exists>s n. bsnd_sample_run = Inr s \<and> tags (out s) = map (\<lambda>i. of_nat (Suc i)) [0..<n] \<and> count s = of_nat n"
  using bsnd_sample_run_Inr bsnd_within_limit_in_order by blast

end
