(* ===== verification/LatencySender.thy ===== *)
theory LatencySender
  imports Sender
begin

text \<open>
  \<open>benchmarks/clients/src/latency-sender.c\<close>: a blocking sender that stamps every message
  with its send time and keeps statistics of the time to the outcome. The options and
  globals \<open>throughput-sender.c\<close> shares with it (priority, the largest body size) are here.
\<close>

section \<open>State\<close>

definition BODY_SIZE_WUMBO :: int where "BODY_SIZE_WUMBO = 1048576"
definition DEFAULT_PRIORITY :: u8 where "DEFAULT_PRIORITY = 4"

record prio_tx = tx +
  priority :: u8

record lsender = prio_tx +
  pending_ack :: bool
  send_ts :: u64
  ack_ts :: u64
  latency_total :: u64
  latency_sum_of_squares :: u64
  latency_max :: u64
  latency_min :: u64

definition lsnd_globals :: lsender where
  "lsnd_globals = \<lparr>
     clk = 0, out = [], stop = False, limit = 1, count = 0,
     host_address = ''127.0.0.1:5672'', container_name = ''LatencyBenchSender'',
     g_ssn = False, g_link = False, sig_ign = False,
     acked = 0, accepted = 0, not_accepted = 0, tag = 0,
     use_anonymous = False, body_size = BODY_SIZE_SMALL,
     encode_buffer = None, encode_buffer_size = 0, encoded_data_size = 0,
     target_address = ''benchmark'', priority = DEFAULT_PRIORITY,
     pending_ack = False, send_ts = 0, ack_ts = 0,
     latency_total = 0, latency_sum_of_squares = 0, latency_max = 0, latency_min = - 1\<rparr>"

section \<open>Sending\<close>

definition lsnd_message :: "u64 \<Rightarrow> lsender \<Rightarrow> message" where
  "lsnd_message now s = \<lparr>
     msg_address = Some (target_address s),
     msg_priority = (if priority s \<noteq> DEFAULT_PRIORITY then Some (priority s) else None),
     msg_annotations = [],
     msg_body = [DClear, DPutList, DEnter, DPutUlong now,
                 DPutBinary (zero_block (word_of_int (body_size s - 8))), DExit, DRewind]\<rparr>"

definition lsnd_generate_message :: "encoder \<Rightarrow> u64 \<Rightarrow> lsender \<Rightarrow> halt + lsender" where
  "lsnd_generate_message enc now s = encode_message enc (lsnd_message now s) s"

text \<open>
  What \<open>pn_link_send()\<close> returns is an argument: \<open>wr bs\<close> for the bytes \<open>bs\<close>. The handler
  exits unless all of them were taken. \<open>rc != encoded_data_size\<close> compares as unsigned.
\<close>

definition lsnd_send_msg ::
    "clock \<Rightarrow> encoder \<Rightarrow> (u8 list \<Rightarrow> int) \<Rightarrow> int \<Rightarrow> lsender \<Rightarrow> halt + bool \<times> lsender" where
  "lsnd_send_msg clock enc wr credit s =
     (if credit \<le> 0 then Inr (False, s)
      else if \<not> pending_ack s \<and> (limit s = 0 \<or> count s < limit s) then
        (let s = s\<lparr>count := count s + 1, tag := tag s + 1\<rparr>;
             s = emit [PnDelivery (tag s)] s
         in bnd (now_usec_u64 clock s) (\<lambda>(t, s).
            let s = s\<lparr>send_ts := t\<rparr> in
            bnd (lsnd_generate_message enc t s) (\<lambda>s.
            let rc = wr (payload s); s = emit [PnLinkSend (payload s)] s in
            if (word_of_int rc :: u64) \<noteq> encoded_data_size s then Inl (Exit (- 1))
            else Inr (True, emit [PnLinkAdvance] (s\<lparr>pending_ack := True\<rparr>)))))
      else Inr (False, s))"

section \<open>The event handler\<close>

definition lsnd_connection_init :: "lsender \<Rightarrow> halt + lsender" where
  "lsnd_connection_init s =
     Inr (emit ([PnConnectionOpen, PnSession, PnSessionOpen, PnSender ''MySender'']
                @ (if use_anonymous s then [] else [PnSetTarget (target_address s)])
                @ [PnLinkOpen]) s)"

definition record_latency :: "lsender \<Rightarrow> u64 \<Rightarrow> lsender" where
  "record_latency s latency =
     (let s = (if latency < latency_min s then s\<lparr>latency_min := latency\<rparr> else s);
          s = (if latency_max s < latency then s\<lparr>latency_max := latency\<rparr> else s);
          s = s\<lparr>latency_total := latency_total s + latency\<rparr>
      in s\<lparr>latency_sum_of_squares := latency_sum_of_squares s + latency * latency\<rparr>)"

definition lsnd_outcome :: "clock \<Rightarrow> disposition \<Rightarrow> lsender \<Rightarrow> halt + lsender" where
  "lsnd_outcome clock rs s =
     bnd (now_usec_u64 clock s) (\<lambda>(t, s).
     let s = s\<lparr>ack_ts := t, pending_ack := False, acked := acked s + 1\<rparr>;
         s = (if rs = PN_ACCEPTED then s\<lparr>accepted := accepted s + 1\<rparr>
              else s\<lparr>not_accepted := not_accepted s + 1\<rparr>);
         s = emit [PnSettle] s
     in Inr (record_latency s (ack_ts s - send_ts s)))"

definition lsnd_delivery ::
    "clock \<Rightarrow> encoder \<Rightarrow> (u8 list \<Rightarrow> int) \<Rightarrow> bool \<Rightarrow> disposition \<Rightarrow> int \<Rightarrow> lsender \<Rightarrow> halt + lsender" where
  "lsnd_delivery clock enc wr updated rs credit s =
     (if updated \<and> rs \<noteq> PN_RECEIVED then
        bnd (lsnd_outcome clock rs s) (\<lambda>s.
        if limit s = 0 \<or> count s < limit s then
          bnd (lsnd_send_msg clock enc wr credit s) (\<lambda>(sent, s). Inr s)
        else if limit s \<noteq> 0 \<and> acked s = limit s then
          Inr (emit [PnReactorWakeup] (s\<lparr>stop := True\<rparr>))
        else Inr s)
      else Inr s)"

fun lsnd_event_handler ::
    "clock \<Rightarrow> encoder \<Rightarrow> (u8 list \<Rightarrow> int) \<Rightarrow> lsender \<Rightarrow> tx_event \<Rightarrow> halt + lsender" where
  "lsnd_event_handler clock enc wr s PN_CONNECTION_INIT = lsnd_connection_init s"
| "lsnd_event_handler clock enc wr s (PN_LINK_FLOW credit) =
     (if \<not> stop s then bnd (lsnd_send_msg clock enc wr credit s) (\<lambda>(sent, s). Inr s) else Inr s)"
| "lsnd_event_handler clock enc wr s (PN_DELIVERY updated rs credit) =
     lsnd_delivery clock enc wr updated rs credit s"
| "lsnd_event_handler clock enc wr s (PN_SIGNAL sig) = Inr (signal_handler sig s)"
| "lsnd_event_handler clock enc wr s _ = Inr s"

section \<open>\<open>main\<close>\<close>

definition prio_body_size :: "string \<Rightarrow> int option" where
  "prio_body_size optarg =
     (if first_char optarg = CHR ''s'' then Some BODY_SIZE_SMALL
      else if first_char optarg = CHR ''m'' then Some BODY_SIZE_MEDIUM
      else if first_char optarg = CHR ''l'' then Some BODY_SIZE_LARGE
      else if first_char optarg = CHR ''x'' then Some BODY_SIZE_WUMBO
      else None)"

definition lsnd_option :: "opt \<Rightarrow> 'a prio_tx_scheme \<Rightarrow> halt + 'a prio_tx_scheme" where
  "lsnd_option p s =
     (case p of (c, optarg) \<Rightarrow>
      if c = CHR ''h'' then usage
      else if c = CHR ''a'' then Inr (s\<lparr>host_address := optarg\<rparr>)
      else if c = CHR ''c'' then
        (case scan_u64 optarg of None \<Rightarrow> usage | Some n \<Rightarrow> Inr (s\<lparr>limit := n\<rparr>))
      else if c = CHR ''i'' then Inr (s\<lparr>container_name := optarg\<rparr>)
      else if c = CHR ''n'' then Inr (s\<lparr>use_anonymous := True\<rparr>)
      else if c = CHR ''p'' then
        (case scan_u8 optarg of None \<Rightarrow> usage | Some n \<Rightarrow> Inr (s\<lparr>priority := n\<rparr>))
      else if c = CHR ''s'' then
        (case prio_body_size optarg of None \<Rightarrow> usage | Some n \<Rightarrow> Inr (s\<lparr>body_size := n\<rparr>))
      else if c = CHR ''t'' then Inr (s\<lparr>target_address := optarg\<rparr>)
      else usage)"

definition lsnd_loop_body :: "unit \<Rightarrow> 'a client_scheme \<Rightarrow> halt + unit \<times> 'a client_scheme" where
  "lsnd_loop_body loc s =
     Inr ((), if stop s
              then emit ((if g_link s then [PnLinkClose] else [])
                         @ (if g_ssn s then [PnSessionClose] else []) @ [PnConnectionClose]) s
              else s)"

definition lsnd_main ::
    "clock \<Rightarrow> encoder \<Rightarrow> (u8 list \<Rightarrow> int) \<Rightarrow> opt list \<Rightarrow> tx_event list list \<Rightarrow> halt + lsender" where
  "lsnd_main clock enc wr opts ess =
     bnd (parse_opts lsnd_option opts lsnd_globals) (\<lambda>s.
     bnd (run (main_round (lsnd_event_handler clock enc wr) lsnd_loop_body)
           ((), emit [PnSetContainer (container_name s), PnSetHostname (host_address s)] s) ess) (\<lambda>(loc, s). Inr s))"

text \<open>
  The closing report: mean and \<open>sos\<close>, the variance, of the latencies. It divides by \<open>count\<close>
  without asking whether it is zero: \<open>None\<close> is the arithmetic trap of that division.
\<close>

definition lsnd_report :: "lsender \<Rightarrow> (u64 \<times> u64) option" where
  "lsnd_report s =
     (if count s = 0 then None
      else (let lmean = latency_total s div count s;
                sos = latency_sum_of_squares s div count s;
                sos = sos - lmean * lmean
            in Some (lmean, sos)))"

section \<open>What one event does\<close>

lemma emit_prio_tx [simp]: "priority (emit cs s) = priority s"
  by (simp add: emit_def)

lemma emit_lsender [simp]:
  "pending_ack (emit cs s) = pending_ack s" "send_ts (emit cs s) = send_ts s"
  "ack_ts (emit cs s) = ack_ts s" "latency_total (emit cs s) = latency_total s"
  "latency_sum_of_squares (emit cs s) = latency_sum_of_squares s"
  "latency_max (emit cs s) = latency_max s" "latency_min (emit cs s) = latency_min s"
  by (simp_all add: emit_def)

definition lsnd_view :: "lsender \<Rightarrow>
    pn_call list \<times> bool \<times> u64 \<times> u64 \<times> u64 \<times> u64 \<times> u64 \<times> u64 \<times> bool" where
  "lsnd_view s = (out s, stop s, limit s, count s, tag s, acked s, accepted s, not_accepted s, pending_ack s)"

lemma record_latency_view: "lsnd_view (record_latency s x) = lsnd_view s"
  by (simp add: record_latency_def lsnd_view_def Let_def)

lemma lsnd_send_msg_view:
  assumes "lsnd_send_msg clock enc wr credit s = Inr (sent, s')"
  shows "if sent then 0 < credit \<and> \<not> pending_ack s \<and> (limit s = 0 \<or> count s < limit s)
      \<and> lsnd_view s' = (out s @ message_block False (tag s + 1) (payload s'), stop s, limit s,
           count s + 1, tag s + 1, acked s, accepted s, not_accepted s, True)
      \<and> word_of_int (wr (payload s')) = encoded_data_size s'
      \<and> (\<exists>t s1. now_usec_u64 clock s = Inr (t, s1) \<and> send_ts s' = t)
    else (credit \<le> 0 \<or> pending_ack s \<or> limit s \<noteq> 0 \<and> limit s \<le> count s) \<and> s' = s"
proof (cases "0 < credit \<and> \<not> pending_ack s \<and> (limit s = 0 \<or> count s < limit s)")
  case False
  show ?thesis
  proof (cases "credit \<le> 0")
    case True
    then show ?thesis using assms by (auto simp: lsnd_send_msg_def)
  next
    case c: False
    then have n: "\<not> (\<not> pending_ack s \<and> (limit s = 0 \<or> count s < limit s))" using False by simp
    have "\<not> sent \<and> s' = s"
      using assms unfolding lsnd_send_msg_def if_not_P [OF c] if_not_P [OF n] by simp
    then show ?thesis using n by (auto simp: not_less)
  qed
next
  case True
  define a where "a = emit [PnDelivery (tag s + 1)] (s\<lparr>count := count s + 1, tag := tag s + 1\<rparr>)"
  have c: "\<not> credit \<le> 0" "\<not> pending_ack s \<and> (limit s = 0 \<or> count s < limit s)" using True by simp_all
  obtain t b d where t: "now_usec_u64 clock a = Inr (t, b)"
    and d: "lsnd_generate_message enc t (b\<lparr>send_ts := t\<rparr>) = Inr d"
    and e: "word_of_int (wr (payload d)) = encoded_data_size d" "sent"
      "s' = emit [PnLinkAdvance] ((emit [PnLinkSend (payload d)] d)\<lparr>pending_ack := True\<rparr>)"
    using assms unfolding lsnd_send_msg_def if_not_P [OF c(1)] if_P [OF c(2)]
    by (auto simp: a_def bnd_eq_Inr Let_def split: if_splits)
  have b: "b = a\<lparr>clk := Suc (clk a)\<rparr>" using now_usec_u64_Inr [OF t] .
  obtain bs sz where d': "d = b\<lparr>send_ts := t, encode_buffer := Some bs, encode_buffer_size := sz,
      encoded_data_size := of_nat (length bs)\<rparr>"
    using encode_message_Inr [OF d [unfolded lsnd_generate_message_def]] by auto
  have p: "payload s' = payload d" using e(3) by (intro payload_cong) simp_all
  have "lsnd_view s' = (out s @ message_block False (tag s + 1) (payload s'), stop s, limit s,
           count s + 1, tag s + 1, acked s, accepted s, not_accepted s, True)"
    unfolding p by (simp add: e(3) d' b a_def lsnd_view_def message_block_def)
  moreover have "encoded_data_size s' = encoded_data_size d" "send_ts s' = t" using e(3) d' by simp_all
  moreover have "now_usec_u64 clock s = Inr (t, s\<lparr>clk := Suc (clk s)\<rparr>)"
    using t by (auto simp: a_def now_usec_u64_def clock_gettime_def split: sum.splits)
  ultimately show ?thesis using True e(1,2) p by auto
qed

lemma lsnd_outcome_view:
  assumes "lsnd_outcome clock rs s = Inr s'"
  shows "lsnd_view s' = (out s @ [PnSettle], stop s, limit s, count s, tag s, acked s + 1,
      if rs = PN_ACCEPTED then accepted s + 1 else accepted s,
      if rs = PN_ACCEPTED then not_accepted s else not_accepted s + 1, False)"
proof -
  obtain t u where t: "now_usec_u64 clock s = Inr (t, u)"
    using assms by (auto simp: lsnd_outcome_def bnd_eq_Inr)
  then have "u = s\<lparr>clk := Suc (clk s)\<rparr>" by (rule now_usec_u64_Inr)
  then show ?thesis
    using assms t by (auto simp: lsnd_outcome_def Let_def record_latency_view) (auto simp: lsnd_view_def)
qed

section \<open>The law of a step\<close>

definition lsnd_step_law :: "lsender \<Rightarrow> nat \<Rightarrow> lsender \<Rightarrow> bool" where
  "lsnd_step_law s n s' \<longleftrightarrow>
     (\<exists>cs. out s' = out s @ cs \<and> tags cs = map (\<lambda>i. (tag s + 1) + of_nat i) [0..<n])
     \<and> tag s' = tag s + of_nat n \<and> count s' = count s + of_nat n
     \<and> limit s' = limit s
     \<and> (stop s \<longrightarrow> stop s') \<and> (stop s' \<longrightarrow> \<not> stop s \<longrightarrow> PnReactorWakeup \<in> set (out s'))
     \<and> n + settles (out s) + of_bool (pending_ack s) \<le> settles (out s') + of_bool (pending_ack s')
     \<and> acked s' - accepted s' - not_accepted s' = acked s - accepted s - not_accepted s
     \<and> acked s' - of_nat (settles (out s')) = acked s - of_nat (settles (out s))"

lemma lsnd_law_trans:
  assumes "lsnd_step_law s 0 t" and "lsnd_step_law t n u"
  shows "lsnd_step_law s n u"
proof -
  obtain cs where cs: "out t = out s @ cs" "tags cs = []"
    using assms(1) by (auto simp: lsnd_step_law_def)
  obtain ds where ds: "out u = out t @ ds" "tags ds = map (\<lambda>i. (tag t + 1) + of_nat i) [0..<n]"
    using assms(2) by (auto simp: lsnd_step_law_def)
  have t: "tag t = tag s" "count t = count s" "limit t = limit s"
    "settles (out s) + of_bool (pending_ack s) \<le> settles (out t) + of_bool (pending_ack t)"
    "stop s \<longrightarrow> stop t" "stop t \<longrightarrow> \<not> stop s \<longrightarrow> PnReactorWakeup \<in> set (out t)"
    "acked t - accepted t - not_accepted t = acked s - accepted s - not_accepted s"
    "acked t - of_nat (settles (out t)) = acked s - of_nat (settles (out s))"
    using assms(1) by (simp_all add: lsnd_step_law_def)
  have u: "tag u = tag t + of_nat n" "count u = count t + of_nat n" "limit u = limit t"
    "n + settles (out t) + of_bool (pending_ack t) \<le> settles (out u) + of_bool (pending_ack u)"
    "stop t \<longrightarrow> stop u" "stop u \<longrightarrow> \<not> stop t \<longrightarrow> PnReactorWakeup \<in> set (out u)"
    "acked u - accepted u - not_accepted u = acked t - accepted t - not_accepted t"
    "acked u - of_nat (settles (out u)) = acked t - of_nat (settles (out t))"
    using assms(2) by (simp_all add: lsnd_step_law_def)
  have "\<exists>cs. out u = out s @ cs \<and> tags cs = map (\<lambda>i. (tag s + 1) + of_nat i) [0..<n]"
    using cs ds t(1) by (intro exI [of _ "cs @ ds"]) simp
  moreover have "n + settles (out s) + of_bool (pending_ack s) \<le> settles (out u) + of_bool (pending_ack u)"
    using t(4) u(4) by linarith
  moreover have "stop u \<longrightarrow> \<not> stop s \<longrightarrow> PnReactorWakeup \<in> set (out u)"
    using t(6) u(6) ds(1) by auto
  ultimately show ?thesis
    using t u unfolding lsnd_step_law_def by simp
qed

lemma lsnd_send_msg_law:
  assumes "lsnd_send_msg clock enc wr credit s = Inr (sent, s')"
  shows "lsnd_step_law s (of_bool sent) s' \<and> (sent \<longrightarrow> limit s = 0 \<or> count s < limit s)"
proof (cases sent)
  case True
  then have "lsnd_view s' = (out s @ message_block False (tag s + 1) (payload s'), stop s, limit s,
           count s + 1, tag s + 1, acked s, accepted s, not_accepted s, True)"
    "\<not> pending_ack s" "limit s = 0 \<or> count s < limit s"
    using lsnd_send_msg_view [OF assms] by auto
  then show ?thesis using True by (simp add: lsnd_view_def message_block_def lsnd_step_law_def)
next
  case False
  then have "s' = s" using lsnd_send_msg_view [OF assms] by simp
  then show ?thesis using False by (simp add: lsnd_step_law_def)
qed

lemma lsnd_delivery_law:
  assumes "lsnd_delivery clock enc wr updated rs credit s = Inr s'"
  shows "\<exists>sent. lsnd_step_law s (of_bool sent) s' \<and> (sent \<longrightarrow> limit s = 0 \<or> count s < limit s)"
proof (cases "updated \<and> rs \<noteq> PN_RECEIVED")
  case False
  then have "s' = s" using assms by (auto simp: lsnd_delivery_def)
  then show ?thesis by (intro exI [of _ False]) (simp add: lsnd_step_law_def)
next
  case True
  then obtain t where t: "lsnd_outcome clock rs s = Inr t"
    and s': "(if limit t = 0 \<or> count t < limit t then
          bnd (lsnd_send_msg clock enc wr credit t) (\<lambda>(sent, s). Inr s)
        else if limit t \<noteq> 0 \<and> acked t = limit t then
          Inr (emit [PnReactorWakeup] (t\<lparr>stop := True\<rparr>))
        else Inr t) = Inr s'"
    using assms by (auto simp: lsnd_delivery_def bnd_eq_Inr)
  have o: "lsnd_step_law s 0 t"
    using lsnd_outcome_view [OF t] by (simp add: lsnd_view_def lsnd_step_law_def)
  have "\<exists>sent. lsnd_step_law t (of_bool sent) s' \<and> (sent \<longrightarrow> limit t = 0 \<or> count t < limit t)"
  proof (cases "limit t = 0 \<or> count t < limit t")
    case True
    then obtain sent where "lsnd_send_msg clock enc wr credit t = Inr (sent, s')"
      using s' by (auto simp: bnd_eq_Inr)
    then show ?thesis using lsnd_send_msg_law by blast
  next
    case False
    then show ?thesis
      using s' by (intro exI [of _ False]) (auto simp: lsnd_step_law_def emit_def split: if_splits)
  qed
  moreover have "limit t = limit s" "count t = count s" using o by (simp_all add: lsnd_step_law_def)
  ultimately show ?thesis using o lsnd_law_trans by metis
qed

lemma lsnd_event_law:
  assumes "lsnd_event_handler clock enc wr s e = Inr s'"
  shows "\<exists>sent. lsnd_step_law s (of_bool sent) s' \<and> (sent \<longrightarrow> limit s = 0 \<or> count s < limit s)"
proof (cases e)
  case PN_CONNECTION_INIT
  with assms show ?thesis
    by (intro exI [of _ False]) (auto simp: lsnd_connection_init_def lsnd_step_law_def)
next
  case (PN_LINK_FLOW credit)
  show ?thesis
  proof (cases "stop s")
    case True
    with assms PN_LINK_FLOW show ?thesis by (intro exI [of _ False]) (simp add: lsnd_step_law_def)
  next
    case False
    then obtain sent where "lsnd_send_msg clock enc wr credit s = Inr (sent, s')"
      using assms PN_LINK_FLOW by (auto simp: bnd_eq_Inr)
    then show ?thesis using lsnd_send_msg_law by blast
  qed
next
  case (PN_DELIVERY u rs credit)
  then have "lsnd_delivery clock enc wr u rs credit s = Inr s'" using assms by simp
  then show ?thesis by (rule lsnd_delivery_law)
next
  case (PN_SIGNAL sig)
  with assms show ?thesis
    by (intro exI [of _ False]) (simp add: signal_handler_eq lsnd_step_law_def Let_def, auto)
qed (use assms in \<open>auto intro!: exI [of _ False] simp: lsnd_step_law_def\<close>)

lemma lsnd_loop_body_Inr:
  assumes "lsnd_loop_body l s = Inr (l', s')"
  obtains cs where "s' = emit cs s" "tags cs = []" "settles cs = 0"
    "set cs \<subseteq> {PnLinkClose, PnSessionClose, PnConnectionClose}"
proof (rule that)
  show "s' = emit (if stop s then (if g_link s then [PnLinkClose] else [])
      @ (if g_ssn s then [PnSessionClose] else []) @ [PnConnectionClose] else []) s"
    using assms by (auto simp: lsnd_loop_body_def emit_def)
qed auto

section \<open>The contracts\<close>

interpretation lsnd: stopping_loop "lsnd_event_handler clock enc wr" out stop PnReactorWakeup
    lsnd_loop_body for clock enc wr
proof
  fix s s' :: lsender and e
  assume "lsnd_event_handler clock enc wr s e = Inr s'"
  then obtain sent where "lsnd_step_law s (of_bool sent) s'" using lsnd_event_law by blast
  then show "\<exists>cs. out s' = out s @ cs" "stop s \<Longrightarrow> stop s'"
    "\<not> stop s \<Longrightarrow> stop s' \<Longrightarrow> PnReactorWakeup \<in> set (out s')"
    by (auto simp: lsnd_step_law_def)
next
  fix l l' and s s' :: lsender
  assume "lsnd_loop_body l s = Inr (l', s')"
  then obtain cs where "s' = emit cs s" by (rule lsnd_loop_body_Inr)
  then show "\<exists>cs. out s' = out s @ cs" "stop s' = stop s" by simp_all
qed

interpretation lsnd: budgeted_loop "lsnd_event_handler clock enc wr" out limit count "\<lambda>s. tag s + 1"
    lsnd_loop_body for clock enc wr
proof
  fix s s' :: lsender and e
  assume a: "lsnd_event_handler clock enc wr s e = Inr s'"
  then obtain sent where l: "lsnd_step_law s (of_bool sent) s'" "sent \<longrightarrow> limit s = 0 \<or> count s < limit s"
    using lsnd_event_law by blast
  show "limit s' = limit s" using l(1) by (simp add: lsnd_step_law_def)
  have "unat (count s) + of_bool sent \<le> unat (limit s)" if "limit s \<noteq> 0" "count s \<le> limit s"
    using that l(2) by (cases sent) (auto simp: word_le_nat_alt word_less_nat_alt)
  then show "\<exists>n. tags (out s') = tags (out s) @ map (\<lambda>i. (tag s + 1) + of_nat i) [0..<n]
      \<and> tag s' + 1 = (tag s + 1) + of_nat n \<and> count s' = count s + of_nat n
      \<and> (limit s \<noteq> 0 \<longrightarrow> count s \<le> limit s \<longrightarrow> unat (count s) + n \<le> unat (limit s))"
    using l(1) by (intro exI [of _ "of_bool sent"]) (auto simp: lsnd_step_law_def algebra_simps)
next
  fix l l' and s s' :: lsender
  assume "lsnd_loop_body l s = Inr (l', s')"
  then obtain cs where "s' = emit cs s" "tags cs = []" by (rule lsnd_loop_body_Inr)
  then show "limit s' = limit s \<and> count s' = count s \<and> tag s' + 1 = tag s + 1 \<and> tags (out s') = tags (out s)"
    by simp
qed

interpretation lsnd: blocking_loop "lsnd_event_handler clock enc wr" out pending_ack
    lsnd_loop_body for clock enc wr
proof
  fix s s' :: lsender and e
  assume "lsnd_event_handler clock enc wr s e = Inr s'"
  then obtain sent where l: "lsnd_step_law s (of_bool sent) s'" using lsnd_event_law by blast
  then obtain cs where "out s' = out s @ cs" "length (tags cs) = of_bool sent"
    by (auto simp: lsnd_step_law_def)
  then show "deliveries (out s') + settles (out s) + of_bool (pending_ack s)
      \<le> deliveries (out s) + settles (out s') + of_bool (pending_ack s')"
    using l by (simp add: lsnd_step_law_def deliveries_tags)
next
  fix l l' and s s' :: lsender
  assume "lsnd_loop_body l s = Inr (l', s')"
  then obtain cs where "s' = emit cs s" "tags cs = []" "settles cs = 0" by (rule lsnd_loop_body_Inr)
  then show "pending_ack s' = pending_ack s \<and> deliveries (out s') = deliveries (out s) \<and> settles (out s') = settles (out s)"
    by (simp add: deliveries_tags)
qed

interpretation lsnd: ledger_loop "lsnd_event_handler clock enc wr" out acked accepted not_accepted
    "\<lambda>e. False" "\<lambda>s. False" lsnd_loop_body for clock enc wr
proof
  fix s s' :: lsender and e
  assume "lsnd_event_handler clock enc wr s e = Inr s'"
  then obtain sent where l: "lsnd_step_law s (of_bool sent) s'" using lsnd_event_law by blast
  show "acked s' + accepted s + not_accepted s = acked s + accepted s' + not_accepted s'"
    "of_nat (settles (out s')) + acked s = of_nat (settles (out s)) + acked s'"
    using l by (simp_all add: lsnd_step_law_def algebra_simps)
next
  fix l l' and s s' :: lsender
  assume "lsnd_loop_body l s = Inr (l', s')"
  then obtain cs where "s' = emit cs s" "settles cs = 0" by (rule lsnd_loop_body_Inr)
  then show "acked s' = acked s \<and> accepted s' = accepted s \<and> not_accepted s' = not_accepted s
      \<and> False = False \<and> settles (out s') = settles (out s)"
    by simp
qed simp

interpretation lsnd_stats: latency_accumulator record_latency latency_total latency_sum_of_squares
    latency_max latency_min
  by unfold_locales (auto simp: record_latency_def Let_def)

section \<open>Whole programs\<close>

definition lsnd_fresh :: "lsender \<Rightarrow> bool" where
  "lsnd_fresh s \<longleftrightarrow> out s = [] \<and> \<not> stop s \<and> count s = 0 \<and> tag s = 0 \<and> acked s = 0
     \<and> accepted s = 0 \<and> not_accepted s = 0 \<and> \<not> pending_ack s \<and> \<not> g_link s \<and> \<not> g_ssn s"

lemma lsnd_option_fresh:
  fixes s :: lsender
  assumes "lsnd_option p s = Inr s'" and "lsnd_fresh s"
  shows "lsnd_fresh s'"
proof -
  obtain c optarg where p: "p = (c, optarg)" by (cases p)
  show ?thesis
    using assms unfolding p
    by (auto simp: lsnd_option_def lsnd_fresh_def usage_def split: if_splits option.splits)
qed

lemma lsnd_main_run:
  assumes "lsnd_main clock enc wr opts ess = Inr s'"
  obtains loc s where "lsnd_fresh s"
    "run (main_round (lsnd_event_handler clock enc wr) lsnd_loop_body)
       ((), emit [PnSetContainer (container_name s), PnSetHostname (host_address s)] s) ess = Inr (loc, s')"
proof -
  obtain loc s where s: "parse_opts lsnd_option opts lsnd_globals = Inr s"
    "run (main_round (lsnd_event_handler clock enc wr) lsnd_loop_body)
       ((), emit [PnSetContainer (container_name s), PnSetHostname (host_address s)] s) ess = Inr (loc, s')"
    using assms by (auto simp: lsnd_main_def bnd_eq_Inr)
  have "lsnd_fresh s"
    by (rule parse_opts_preserves [where P = lsnd_fresh, OF lsnd_option_fresh _ s(1)])
      (simp_all add: lsnd_fresh_def lsnd_globals_def)
  with s(2) show ?thesis using that by simp
qed

abbreviation lsnd_sample_run :: "halt + lsender" where
  "lsnd_sample_run \<equiv> lsnd_main steady_clock (fixed_encoder [1, 2, 3]) (\<lambda>bs. int (length bs)) [(CHR ''c'', ''2'')]
     [[PN_CONNECTION_INIT, PN_LINK_FLOW 3, PN_LINK_FLOW 3], [PN_DELIVERY True PN_ACCEPTED 2]]"

lemma lsnd_sample_run_Inr:
  "\<exists>s. lsnd_sample_run = Inr s \<and> limit s = 2 \<and> count s = 2 \<and> acked s = 1"
proof -
  have "scan_u64 ''2'' = Some 2"
    by (simp add: scan_u64_def scan_number_def read_sign_def is_space_def is_digit_def strtoul_def)
  moreover note encode_loop_fixed [of "[1, 2, 3]" 612, simplified]
  ultimately show ?thesis
    by (simp add: lsnd_main_def lsnd_option_def main_round_def lsnd_globals_def
        lsnd_connection_init_def lsnd_generate_message_def encode_message_def
        BODY_SIZE_SMALL_def lsnd_send_msg_def Let_def emit_def payload_def lsnd_loop_body_def
        lsnd_delivery_def lsnd_outcome_def record_latency_def)
qed

text \<open>The latency sender keeps its promises over a whole program: a limit is respected, at
  most one message is without an outcome, every outcome is counted once as accepted or not
  accepted, and every acknowledged message is settled.\<close>

theorem lsnd_program_invariant:
  assumes "lsnd_main clock enc wr opts ess = Inr s"
  shows "deliveries (out s) \<le> settles (out s) + 1 \<and> of_nat (settles (out s)) = acked s
    \<and> acked s = accepted s + not_accepted s \<and> (limit s = 0 \<or> count s \<le> limit s)
    \<and> (stop s \<longrightarrow> PnReactorWakeup \<in> set (out s))"
proof -
  obtain loc t where t: "lsnd_fresh t"
    "run (main_round (lsnd_event_handler clock enc wr) lsnd_loop_body)
       ((), emit [PnSetContainer (container_name t), PnSetHostname (host_address t)] t) ess = Inr (loc, s)"
    using assms by (rule lsnd_main_run)
  have l: "limit s = limit t" using lsnd.round.run_lim [OF t(2)] by simp
  have "deliveries (out s) \<le> settles (out s) + 1"
    using lsnd.round.run_one_unsettled [OF t(2)] t(1) by (simp add: lsnd_fresh_def)
  moreover have "of_nat (settles (out s)) = acked s" "acked s = accepted s + not_accepted s"
    using lsnd.loop_settled [OF t(2)] lsnd.loop_ledger [OF t(2)] t(1) by (simp_all add: lsnd_fresh_def)
  moreover have "limit s = 0 \<or> count s \<le> limit s"
    using lsnd.round.run_within_budget(2) [OF t(2)] t(1) l by (auto simp: lsnd_fresh_def)
  moreover have "stop s \<longrightarrow> PnReactorWakeup \<in> set (out s)"
    using lsnd.round.run_stop_wakes [OF t(2)] t(1) by (auto simp: lsnd_fresh_def)
  ultimately show ?thesis by blast
qed

theorem lsnd_program_invariant_witness:
  "\<exists>s. lsnd_sample_run = Inr s \<and> deliveries (out s) \<le> settles (out s) + 1 \<and> of_nat (settles (out s)) = acked s"
  using lsnd_sample_run_Inr lsnd_program_invariant by blast

text \<open>While a message is out, nothing but its outcome touches the measurement.\<close>

definition terminal :: "tx_event \<Rightarrow> bool" where
  "terminal e = (case e of PN_DELIVERY updated rs _ \<Rightarrow> updated \<and> rs \<noteq> PN_RECEIVED | _ \<Rightarrow> False)"

lemma lsnd_event_pending:
  assumes "lsnd_event_handler clock enc wr s e = Inr s'" and "\<not> terminal e" and "pending_ack s"
  shows "pending_ack s' \<and> send_ts s' = send_ts s \<and> latency_total s' = latency_total s"
proof (cases e)
  case (PN_LINK_FLOW credit)
  have "s' = s"
  proof (cases "stop s")
    case False
    then obtain sent where "lsnd_send_msg clock enc wr credit s = Inr (sent, s')"
      using assms(1) PN_LINK_FLOW by (auto simp: bnd_eq_Inr)
    from lsnd_send_msg_view [OF this] assms(3) show ?thesis by (cases sent) auto
  qed (use assms(1) PN_LINK_FLOW in simp)
  then show ?thesis using assms(3) by simp
next
  case (PN_DELIVERY u rs credit)
  then have "s' = s" using assms(1,2) by (auto simp: terminal_def lsnd_delivery_def)
  then show ?thesis using assms(3) by simp
next
  case (PN_SIGNAL sig)
  with assms show ?thesis by (auto simp: signal_handler_eq Let_def)
qed (use assms in \<open>auto simp: lsnd_connection_init_def\<close>)

text \<open>C38: a recorded latency is the round trip of one message: whatever happens between sending
  a message and its outcome, the time added to \<open>latency_total\<close> is the clock at the outcome
  less the clock at the sending.\<close>

theorem lsnd_latency_is_round_trip:
  assumes "lsnd_send_msg clock enc wr credit s = Inr (True, s1)"
    and "run (lsnd_event_handler clock enc wr) s1 es = Inr s2" and "\<forall>e\<in>set es. \<not> terminal e"
    and "lsnd_outcome clock rs s2 = Inr s3"
    and "now_usec_u64 clock s = Inr (t0, u0)" and "now_usec_u64 clock s2 = Inr (t1, u1)"
  shows "latency_total s3 = latency_total s1 + (t1 - t0)"
proof -
  have s1: "send_ts s1 = t0" "pending_ack s1"
    using lsnd_send_msg_view [OF assms(1)] assms(5) by (auto simp: lsnd_view_def)
  have "pending_ack s2 \<and> send_ts s2 = send_ts s1 \<and> latency_total s2 = latency_total s1"
    by (rule run_preserves [where P = "\<lambda>t. pending_ack t \<and> send_ts t = send_ts s1
        \<and> latency_total t = latency_total s1", OF _ _ assms(2)])
      (use assms(3) s1 lsnd_event_pending in auto)
  moreover have "latency_total s3 = latency_total s2 + (t1 - send_ts s2)"
    using assms(4,6)
    by (auto simp: lsnd_outcome_def Let_def record_latency_def dest!: now_usec_u64_Inr)
  ultimately show ?thesis using s1 by simp
qed

theorem lsnd_latency_is_round_trip_witness:
  "\<exists>s1 s3. lsnd_send_msg steady_clock (fixed_encoder [1, 2, 3]) (\<lambda>bs. int (length bs)) 3 lsnd_globals = Inr (True, s1)
     \<and> lsnd_outcome steady_clock PN_ACCEPTED s1 = Inr s3 \<and> latency_total s3 = latency_total s1 + 1000000"
proof -
  note encode_loop_fixed [of "[1, 2, 3]" 612, simplified]
  then obtain s1 where s1: "lsnd_send_msg steady_clock (fixed_encoder [1, 2, 3]) (\<lambda>bs. int (length bs)) 3 lsnd_globals
      = Inr (True, s1)" "clk s1 = 1"
    by (simp add: lsnd_globals_def lsnd_generate_message_def encode_message_def
        BODY_SIZE_SMALL_def lsnd_send_msg_def Let_def emit_def payload_def)
  obtain s3 where s3: "lsnd_outcome steady_clock PN_ACCEPTED s1 = Inr s3"
    by (simp add: lsnd_outcome_def Let_def)
  have "run (lsnd_event_handler steady_clock (fixed_encoder [1, 2, 3]) (\<lambda>bs. int (length bs))) s1 [] = Inr s1" by simp
  from lsnd_latency_is_round_trip [OF s1(1) this _ s3 steady_now(2) steady_now(2)] s1(2) s1 s3 show ?thesis
    by (simp add: lsnd_globals_def)
qed

text \<open>The latency report is exact: after \<open>count\<close> messages whose latencies were recorded, and as
  long as their squares add up to less than \<open>2 ^ 64\<close>, it gives the integer mean and variance
  without wrap-around, and \<open>latency_min\<close> and \<open>latency_max\<close> are among the latencies and bound them.\<close>

theorem lsnd_report_exact:
  assumes "xs \<noteq> []" and "sum_sq xs < 2 ^ 64" and "length xs < 2 ^ 64"
    and "s = foldl record_latency (lsnd_globals\<lparr>count := of_nat (length xs)\<rparr>) (map of_nat xs)"
  shows "\<exists>lmean sos. lsnd_report s = Some (lmean, sos)
      \<and> unat lmean = sum_list xs div length xs \<and> unat sos = nat_variance xs
      \<and> (\<forall>x\<in>set xs. latency_min s \<le> of_nat x \<and> of_nat x \<le> latency_max s)"
proof -
  let ?s = "lsnd_globals\<lparr>count := of_nat (length xs)\<rparr>"
  have "count (foldl record_latency u ys) = count u" for u ys
    by (induction ys arbitrary: u) (simp_all add: record_latency_def Let_def)
  then have c: "count s = of_nat (length xs)" using assms(4) by simp
  have "unat (of_nat (length xs) :: u64) = length xs" using assms(3) by (rule unat_of_nat_u64)
  then have nz: "(of_nat (length xs) :: u64) \<noteq> 0" using assms(1) by (metis length_0_conv unat_0)
  have tot: "latency_total s = of_nat (sum_list xs)" "latency_sum_of_squares s = of_nat (sum_sq xs)"
    using lsnd_stats.total_fold [of ?s "map of_nat xs"]
      lsnd_stats.sumsq_fold [of ?s "map of_nat xs"] assms(4)
    by (simp_all only: sum_list_of_nat_u64 sum_sq_of_nat_u64) (simp_all add: lsnd_globals_def)
  have "\<forall>x\<in>set xs. latency_min s \<le> of_nat x \<and> of_nat x \<le> latency_max s"
    using lsnd_stats.least_fold_bound [of _ ?s "map of_nat xs"]
      lsnd_stats.largest_fold_bound [of _ "map of_nat xs" ?s] assms(4) by auto
  moreover have "lsnd_report s = Some (mean_u64 (of_nat (sum_list xs)) (of_nat (length xs)),
      variance_u64 (of_nat (sum_list xs)) (of_nat (sum_sq xs)) (of_nat (length xs)))"
    using c tot nz by (simp add: lsnd_report_def mean_u64_def variance_u64_def Let_def)
  ultimately show ?thesis
    using variance_u64_exact [OF assms(1,2,3)] by simp
qed

theorem lsnd_report_exact_witness:
  "\<exists>lmean sos. lsnd_report (foldl record_latency (lsnd_globals\<lparr>count := 2\<rparr>) [2, 4]) = Some (lmean, sos)
     \<and> unat lmean = 3 \<and> unat sos = 1"
  using lsnd_report_exact [of "[2, 4]", OF _ _ _ refl]
  by (simp add: nat_variance_def numeral_2_eq_2 [symmetric]) blast

text \<open>The report of a latency sender that was interrupted before its first message divides by
  zero.\<close>

theorem lsnd_report_traps_without_messages:
  "\<exists>s. lsnd_main clock enc wr [] [[PN_SIGNAL SIGINT]] = Inr s \<and> lsnd_report s = None"
  by (simp add: lsnd_main_def main_round_def signal_handler_def lsnd_loop_body_def lsnd_report_def
      lsnd_globals_def emit_def)

end
