(* ===== verification/ThroughputSender.thy ===== *)
theory ThroughputSender
  imports LatencySender
begin

text \<open>
  \<open>benchmarks/clients/src/throughput-sender.c\<close>: sends as the credit allows and times the
  whole run from the first grant to the last outcome. Options and the loop of \<open>main()\<close> are those of
  \<open>latency-sender.c\<close>, which the file repeats.
\<close>

section \<open>State and operations\<close>

record tsender = prio_tx +
  start_ts :: u64
  stop_ts :: u64

definition tsnd_globals :: tsender where
  "tsnd_globals = \<lparr>
     clk = 0, out = [], stop = False, limit = 1, count = 0,
     host_address = ''127.0.0.1:5672'', container_name = ''ThroughputSender'',
     g_ssn = False, g_link = False, sig_ign = False,
     acked = 0, accepted = 0, not_accepted = 0, tag = 0,
     use_anonymous = False, body_size = BODY_SIZE_SMALL,
     encode_buffer = None, encode_buffer_size = 0, encoded_data_size = 0,
     target_address = ''test-throughput'', priority = DEFAULT_PRIORITY,
     start_ts = 0, stop_ts = 0\<rparr>"

definition tsnd_message :: "tsender \<Rightarrow> message" where
  "tsnd_message s = \<lparr>
     msg_address = Some (target_address s),
     msg_priority = (if priority s \<noteq> DEFAULT_PRIORITY then Some (priority s) else None),
     msg_annotations = [],
     msg_body = [DClear, DPutList, DEnter,
                 DPutBinary (zero_block (word_of_int (body_size s))), DExit, DRewind]\<rparr>"

definition tsnd_generate_message :: "encoder \<Rightarrow> tsender \<Rightarrow> halt + tsender" where
  "tsnd_generate_message enc s = encode_message enc (tsnd_message s) s"

definition tsnd_mark_stop :: "clock \<Rightarrow> tsender \<Rightarrow> halt + tsender" where
  "tsnd_mark_stop clock s =
     (if stop_ts s = 0 then bnd (now_usec_u64 clock s) (\<lambda>(t, s). Inr (s\<lparr>stop_ts := t\<rparr>)) else Inr s)"

definition tsnd_signal_handler :: "clock \<Rightarrow> signal \<Rightarrow> tsender \<Rightarrow> halt + tsender" where
  "tsnd_signal_handler clock sig s =
     (if sig_ign s then Inr s
      else let s = s\<lparr>sig_ign := True\<rparr> in
        (case sig of
           SIGOTHER \<Rightarrow> Inr s
         | _ \<Rightarrow> bnd (tsnd_mark_stop clock (s\<lparr>stop := True\<rparr>)) (\<lambda>s. Inr (emit [PnReactorWakeup] s))))"

definition tsnd_connection_init :: "encoder \<Rightarrow> tsender \<Rightarrow> halt + tsender" where
  "tsnd_connection_init enc s =
     tsnd_generate_message enc
       (emit ([PnConnectionOpen, PnSession, PnSessionOpen, PnSender ''MySender'']
              @ (if use_anonymous s then [] else [PnSetTarget (target_address s)])
              @ [PnLinkOpen]) s)"

definition tsnd_send_one :: "(u8 list \<Rightarrow> int) \<Rightarrow> tsender \<Rightarrow> halt + tsender" where
  "tsnd_send_one wr s =
     (let s = s\<lparr>count := count s + 1\<rparr>;
          s = emit [PnDelivery (tag s)] s;
          s = s\<lparr>tag := tag s + 1\<rparr>;
          rc = wr (payload s);
          s = emit [PnLinkSend (payload s)] s
      in if (word_of_int rc :: u64) \<noteq> encoded_data_size s then Inl (Exit (- 1))
         else Inr (emit [PnLinkAdvance] s))"

fun tsnd_send_loop :: "(u8 list \<Rightarrow> int) \<Rightarrow> nat \<Rightarrow> tsender \<Rightarrow> halt + tsender" where
  "tsnd_send_loop wr 0 s = Inr s"
| "tsnd_send_loop wr (Suc credit) s =
     (if limit s = 0 \<or> count s < limit s
      then bnd (tsnd_send_one wr s) (tsnd_send_loop wr credit)
      else Inr s)"

definition tsnd_link_flow :: "clock \<Rightarrow> (u8 list \<Rightarrow> int) \<Rightarrow> int \<Rightarrow> tsender \<Rightarrow> halt + tsender" where
  "tsnd_link_flow clock wr credit s =
     (if credit < 1 then Inr s
      else bnd (if start_ts s = 0 then bnd (now_usec_u64 clock s) (\<lambda>(t, s). Inr (s\<lparr>start_ts := t\<rparr>))
                else Inr s)
             (tsnd_send_loop wr (nat credit)))"

definition tsnd_delivery :: "clock \<Rightarrow> bool \<Rightarrow> disposition \<Rightarrow> tsender \<Rightarrow> halt + tsender" where
  "tsnd_delivery clock updated rs s =
     (if updated then
        (let s = (if rs = PN_RECEIVED then s
                  else let s = s\<lparr>acked := acked s + 1\<rparr>;
                           s = (if rs = PN_ACCEPTED then s\<lparr>accepted := accepted s + 1\<rparr>
                                else s\<lparr>not_accepted := not_accepted s + 1\<rparr>)
                       in emit [PnSettle] s)
         in if limit s \<noteq> 0 \<and> acked s = limit s
            then bnd (tsnd_mark_stop clock (s\<lparr>stop := True\<rparr>)) (\<lambda>s. Inr (emit [PnReactorWakeup] s))
            else Inr s)
      else Inr s)"

fun tsnd_event_handler ::
    "clock \<Rightarrow> encoder \<Rightarrow> (u8 list \<Rightarrow> int) \<Rightarrow> tsender \<Rightarrow> tx_event \<Rightarrow> halt + tsender" where
  "tsnd_event_handler clock enc wr s PN_CONNECTION_INIT = tsnd_connection_init enc s"
| "tsnd_event_handler clock enc wr s (PN_LINK_FLOW credit) = tsnd_link_flow clock wr credit s"
| "tsnd_event_handler clock enc wr s (PN_DELIVERY updated rs _) = tsnd_delivery clock updated rs s"
| "tsnd_event_handler clock enc wr s (PN_SIGNAL sig) = tsnd_signal_handler clock sig s"
| "tsnd_event_handler clock enc wr s _ = Inr s"

definition tsnd_main ::
    "clock \<Rightarrow> encoder \<Rightarrow> (u8 list \<Rightarrow> int) \<Rightarrow> opt list \<Rightarrow> tx_event list list \<Rightarrow> halt + tsender" where
  "tsnd_main clock enc wr opts ess =
     bnd (parse_opts lsnd_option opts tsnd_globals) (\<lambda>s.
     bnd (run (main_round (tsnd_event_handler clock enc wr) lsnd_loop_body)
           ((), emit [PnSetContainer (container_name s), PnSetHostname (host_address s)] s) ess) (\<lambda>(loc, s). Inr s))"

text \<open>The report: \<open>duration_sec\<close> in microseconds, an unsigned difference, and the rate.\<close>

definition tsnd_report :: "tsender \<Rightarrow> u64 \<times> rat" where
  "tsnd_report s =
     (let duration = stop_ts s - start_ts s
      in (duration,
          if 0 < duration then of_nat (unat (count s)) / (of_nat (unat duration) / of_int USECS_PER_SECOND)
          else 0))"

section \<open>What one event does\<close>

lemma emit_tsender [simp]:
  "start_ts (emit cs s) = start_ts s" "stop_ts (emit cs s) = stop_ts s"
  by (simp_all add: emit_def)

definition tsnd_view :: "tsender \<Rightarrow>
    pn_call list \<times> bool \<times> u64 \<times> u64 \<times> u64 \<times> u64 \<times> u64 \<times> u64" where
  "tsnd_view s = (out s, stop s, limit s, count s, tag s, acked s, accepted s, not_accepted s)"

lemma tsnd_mark_stop_view: "tsnd_mark_stop clock s = Inr s' \<Longrightarrow> tsnd_view s' = tsnd_view s"
  by (auto simp: tsnd_mark_stop_def tsnd_view_def bnd_eq_Inr dest!: now_usec_u64_Inr split: if_splits)

lemma tsnd_send_one_Inr:
  assumes "tsnd_send_one wr s = Inr s'"
  shows "s' = s\<lparr>count := count s + 1, tag := tag s + 1,
             out := out s @ message_block False (tag s) (payload s)\<rparr>
    \<and> word_of_int (wr (payload s)) = encoded_data_size s \<and> payload s' = payload s"
proof -
  have p: "payload (s\<lparr>count := a, out := b, tag := c\<rparr>) = payload s" for a b c
    by (intro payload_cong) simp_all
  have "s' = s\<lparr>count := count s + 1, tag := tag s + 1,
             out := out s @ message_block False (tag s) (payload s)\<rparr>"
    "word_of_int (wr (payload s)) = encoded_data_size s"
    using assms by (auto simp: tsnd_send_one_def Let_def emit_def message_block_def p split: if_splits)
  moreover from this(1) have "payload s' = payload s" by (intro payload_cong) simp_all
  ultimately show ?thesis by blast
qed

lemma tsnd_send_loop_Inr:
  assumes "tsnd_send_loop wr c s = Inr s'"
  shows "s' = s\<lparr>count := count s + of_nat (quota (limit s) (count s) (int c)),
      tag := tag s + of_nat (quota (limit s) (count s) (int c)),
      out := out s @ message_blocks False (tag s) (replicate (quota (limit s) (count s) (int c)) (payload s))\<rparr>"
  using assms
proof (induction c arbitrary: s)
  case 0
  then show ?case by (simp add: quota_def)
next
  case (Suc c)
  show ?case
  proof (cases "limit s = 0 \<or> count s < limit s")
    case False
    then have "quota (limit s) (count s) (int (Suc c)) = 0" by (intro quota_zero) simp
    then show ?thesis using False Suc.prems by simp
  next
    case True
    then obtain t where t: "tsnd_send_one wr s = Inr t" "tsnd_send_loop wr c t = Inr s'"
      using Suc.prems by (auto simp: bnd_eq_Inr)
    have t': "t = s\<lparr>count := count s + 1, tag := tag s + 1,
        out := out s @ message_block False (tag s) (payload s)\<rparr>" "payload t = payload s"
      using tsnd_send_one_Inr [OF t(1)] by blast+
    have q: "quota (limit s) (count s) (int (Suc c)) = Suc (quota (limit s) (count s + 1) (int c))"
      using quota_step [of "int (Suc c)" "limit s" "count s"] True by simp
    show ?thesis
      unfolding Suc.IH [OF t(2)] q t'(2) by (simp add: t'(1) algebra_simps)
  qed
qed

lemma tsnd_link_flow_view:
  assumes "tsnd_link_flow clock wr credit s = Inr s'"
  shows "tsnd_view s' = (out s @ message_blocks False (tag s) (replicate (quota (limit s) (count s) credit) (payload s)),
      stop s, limit s, count s + of_nat (quota (limit s) (count s) credit),
      tag s + of_nat (quota (limit s) (count s) credit), acked s, accepted s, not_accepted s)"
proof (cases "credit < 1")
  case True
  then have "quota (limit s) (count s) credit = 0" by (intro quota_zero) simp
  then show ?thesis using assms True by (simp add: tsnd_link_flow_def tsnd_view_def)
next
  case False
  then obtain t where t: "(if start_ts s = 0 then bnd (now_usec_u64 clock s) (\<lambda>(t, s). Inr (s\<lparr>start_ts := t\<rparr>))
                else Inr s) = Inr t" "tsnd_send_loop wr (nat credit) t = Inr s'"
    using assms by (auto simp: tsnd_link_flow_def bnd_eq_Inr)
  have "tsnd_view t = tsnd_view s" "encode_buffer t = encode_buffer s" "encoded_data_size t = encoded_data_size s"
    using t(1) by (auto simp: tsnd_view_def bnd_eq_Inr dest!: now_usec_u64_Inr split: if_splits)
  moreover from this have "payload t = payload s" by (intro payload_cong)
  ultimately show ?thesis
    using tsnd_send_loop_Inr [OF t(2)] False by (simp add: tsnd_view_def)
qed

lemma tsnd_connection_init_view:
  assumes "tsnd_connection_init enc s = Inr s'"
  shows "\<exists>cs. tags cs = [] \<and> settles cs = 0 \<and> sent_bytes cs = [] \<and> tsnd_view s' =
     (out s @ cs, stop s, limit s, count s, tag s, acked s, accepted s, not_accepted s)"
  using assms
  by (auto simp: tsnd_connection_init_def tsnd_generate_message_def tsnd_view_def dest!: encode_message_Inr)

lemma tsnd_delivery_view:
  assumes "tsnd_delivery clock u rs s = Inr s'"
  shows "\<exists>d. tsnd_view s' =
    (out s @ (if u \<and> rs \<noteq> PN_RECEIVED then [PnSettle] else []) @ (if d then [PnReactorWakeup] else []),
     stop s \<or> d, limit s, count s, tag s,
     if u \<and> rs \<noteq> PN_RECEIVED then acked s + 1 else acked s,
     if u \<and> rs = PN_ACCEPTED then accepted s + 1 else accepted s,
     if u \<and> rs \<noteq> PN_RECEIVED \<and> rs \<noteq> PN_ACCEPTED then not_accepted s + 1 else not_accepted s)
   \<and> d = (u \<and> limit s \<noteq> 0 \<and> acked s' = limit s)"
proof (cases u)
  case False
  then show ?thesis using assms by (intro exI [of _ False]) (simp add: tsnd_delivery_def tsnd_view_def)
next
  case True
  define t where "t = (if rs = PN_RECEIVED then s
                  else let s = s\<lparr>acked := acked s + 1\<rparr>;
                           s = (if rs = PN_ACCEPTED then s\<lparr>accepted := accepted s + 1\<rparr>
                                else s\<lparr>not_accepted := not_accepted s + 1\<rparr>)
                       in emit [PnSettle] s)"
  have s': "(if limit t \<noteq> 0 \<and> acked t = limit t
            then bnd (tsnd_mark_stop clock (t\<lparr>stop := True\<rparr>)) (\<lambda>s. Inr (emit [PnReactorWakeup] s))
            else Inr t) = Inr s'"
    using assms True unfolding tsnd_delivery_def Let_def t_def by simp
  define d where "d \<longleftrightarrow> limit t \<noteq> 0 \<and> acked t = limit t"
  have "tsnd_view s' = (out t @ (if d then [PnReactorWakeup] else []), stop t \<or> d, limit t, count t, tag t,
      acked t, accepted t, not_accepted t)"
  proof (cases d)
    case True
    then obtain v where "tsnd_mark_stop clock (t\<lparr>stop := True\<rparr>) = Inr v" "s' = emit [PnReactorWakeup] v"
      using s' by (auto simp: d_def bnd_eq_Inr)
    with True tsnd_mark_stop_view show ?thesis by (fastforce simp: tsnd_view_def)
  next
    case False
    then show ?thesis using s' by (auto simp: d_def tsnd_view_def)
  qed
  moreover have "tsnd_view t =
    (out s @ (if rs \<noteq> PN_RECEIVED then [PnSettle] else []), stop s, limit s, count s, tag s,
     if rs \<noteq> PN_RECEIVED then acked s + 1 else acked s,
     if rs = PN_ACCEPTED then accepted s + 1 else accepted s,
     if rs \<noteq> PN_RECEIVED \<and> rs \<noteq> PN_ACCEPTED then not_accepted s + 1 else not_accepted s)"
    by (auto simp: t_def tsnd_view_def Let_def)
  ultimately show ?thesis
    using True by (intro exI [of _ d]) (simp add: tsnd_view_def d_def)
qed

lemma tsnd_signal_view:
  assumes "tsnd_signal_handler clock sig s = Inr s'"
  shows "\<exists>d. tsnd_view s' = (out s @ (if d then [PnReactorWakeup] else []), stop s \<or> d, limit s, count s,
      tag s, acked s, accepted s, not_accepted s)"
proof (cases "sig_ign s \<or> sig = SIGOTHER")
  case True
  then show ?thesis using assms
    by (intro exI [of _ False]) (auto simp: tsnd_signal_handler_def tsnd_view_def Let_def split: if_splits)
next
  case False
  then obtain t where t: "tsnd_mark_stop clock (s\<lparr>sig_ign := True, stop := True\<rparr>) = Inr t"
    "s' = emit [PnReactorWakeup] t"
    using assms by (cases sig) (auto simp: tsnd_signal_handler_def Let_def bnd_eq_Inr)
  have "tsnd_view t = tsnd_view (s\<lparr>sig_ign := True, stop := True\<rparr>)" by (rule tsnd_mark_stop_view [OF t(1)])
  then show ?thesis by (intro exI [of _ True]) (simp add: t(2) tsnd_view_def)
qed

section \<open>The contracts\<close>

lemma tsnd_event_view:
  assumes "tsnd_event_handler clock enc wr s e = Inr s'"
  shows "\<exists>cs n. out s' = out s @ cs \<and> tags cs = map (\<lambda>i. tag s + of_nat i) [0..<n]
    \<and> count s' = count s + of_nat n \<and> tag s' = tag s + of_nat n
    \<and> (limit s \<noteq> 0 \<longrightarrow> count s \<le> limit s \<longrightarrow> unat (count s) + n \<le> unat (limit s))
    \<and> limit s' = limit s
    \<and> (stop s \<longrightarrow> stop s') \<and> (stop s' \<longrightarrow> stop s \<or> PnReactorWakeup \<in> set cs)
    \<and> acked s' + accepted s + not_accepted s = acked s + accepted s' + not_accepted s'
    \<and> of_nat (settles cs) + acked s = acked s'"
proof (cases e)
  case PN_CONNECTION_INIT
  then have "tsnd_connection_init enc s = Inr s'" using assms by simp
  then obtain cs where "tags cs = []" "settles cs = 0" "tsnd_view s' =
     (out s @ cs, stop s, limit s, count s, tag s, acked s, accepted s, not_accepted s)"
    using tsnd_connection_init_view by blast
  then show ?thesis
    by (intro exI [of _ cs] exI [of _ 0]) (simp add: tsnd_view_def word_le_nat_alt)
next
  case (PN_LINK_FLOW credit)
  let ?q = "quota (limit s) (count s) credit"
  have "tsnd_link_flow clock wr credit s = Inr s'" using assms PN_LINK_FLOW by simp
  note v = tsnd_link_flow_view [OF this]
  have "unat (count s) + ?q \<le> unat (limit s)" if "limit s \<noteq> 0" "count s \<le> limit s"
    using that quota_within by simp
  then show ?thesis using v
    by (intro exI [of _ "message_blocks False (tag s) (replicate ?q (payload s))"] exI [of _ ?q])
      (simp add: tsnd_view_def)
next
  case (PN_DELIVERY u rs p)
  then have "tsnd_delivery clock u rs s = Inr s'" using assms by simp
  from tsnd_delivery_view [OF this] obtain d where d: "tsnd_view s' =
    (out s @ (if u \<and> rs \<noteq> PN_RECEIVED then [PnSettle] else []) @ (if d then [PnReactorWakeup] else []),
     stop s \<or> d, limit s, count s, tag s,
     if u \<and> rs \<noteq> PN_RECEIVED then acked s + 1 else acked s,
     if u \<and> rs = PN_ACCEPTED then accepted s + 1 else accepted s,
     if u \<and> rs \<noteq> PN_RECEIVED \<and> rs \<noteq> PN_ACCEPTED then not_accepted s + 1 else not_accepted s)" by blast
  then show ?thesis
    by (intro exI [of _ "(if u \<and> rs \<noteq> PN_RECEIVED then [PnSettle] else []) @ (if d then [PnReactorWakeup] else [])"]
        exI [of _ 0]) (auto simp: tsnd_view_def word_le_nat_alt)
next
  case (PN_SIGNAL sig)
  then have "tsnd_signal_handler clock sig s = Inr s'" using assms by simp
  from tsnd_signal_view [OF this] obtain d where "tsnd_view s' =
      (out s @ (if d then [PnReactorWakeup] else []), stop s \<or> d, limit s, count s,
      tag s, acked s, accepted s, not_accepted s)" by blast
  then show ?thesis
    by (intro exI [of _ "if d then [PnReactorWakeup] else []"] exI [of _ 0])
      (auto simp: tsnd_view_def word_le_nat_alt)
qed (use assms in \<open>auto intro!: exI [of _ "[]"] exI [of _ 0] simp: word_le_nat_alt\<close>)

interpretation tsnd: stopping_loop "tsnd_event_handler clock enc wr" out stop PnReactorWakeup
    lsnd_loop_body for clock enc wr
proof
  fix s s' :: tsender and e
  assume a: "tsnd_event_handler clock enc wr s e = Inr s'"
  show "\<exists>cs. out s' = out s @ cs" "stop s \<Longrightarrow> stop s'" using tsnd_event_view [OF a] by blast+
  show "\<not> stop s \<Longrightarrow> stop s' \<Longrightarrow> PnReactorWakeup \<in> set (out s')" using tsnd_event_view [OF a] by auto
next
  fix l l' and s s' :: tsender
  assume "lsnd_loop_body l s = Inr (l', s')"
  then obtain cs where "s' = emit cs s" by (rule lsnd_loop_body_Inr)
  then show "\<exists>cs. out s' = out s @ cs" "stop s' = stop s" by simp_all
qed

interpretation tsnd: budgeted_loop "tsnd_event_handler clock enc wr" out limit count tag
    lsnd_loop_body for clock enc wr
proof
  fix s s' :: tsender and e
  assume a: "tsnd_event_handler clock enc wr s e = Inr s'"
  show "limit s' = limit s" using tsnd_event_view [OF a] by blast
  show "\<exists>n. tags (out s') = tags (out s) @ map (\<lambda>i. tag s + of_nat i) [0..<n]
      \<and> tag s' = tag s + of_nat n \<and> count s' = count s + of_nat n
      \<and> (limit s \<noteq> 0 \<longrightarrow> count s \<le> limit s \<longrightarrow> unat (count s) + n \<le> unat (limit s))"
    using tsnd_event_view [OF a] by auto
next
  fix l l' and s s' :: tsender
  assume "lsnd_loop_body l s = Inr (l', s')"
  then obtain cs where "s' = emit cs s" "tags cs = []" by (rule lsnd_loop_body_Inr)
  then show "limit s' = limit s \<and> count s' = count s \<and> tag s' = tag s \<and> tags (out s') = tags (out s)"
    by simp
qed

interpretation tsnd: ledger_loop "tsnd_event_handler clock enc wr" out acked accepted not_accepted
    "\<lambda>e. False" "\<lambda>s. False" lsnd_loop_body for clock enc wr
proof
  fix s s' :: tsender and e
  assume a: "tsnd_event_handler clock enc wr s e = Inr s'"
  show "acked s' + accepted s + not_accepted s = acked s + accepted s' + not_accepted s'"
    using tsnd_event_view [OF a] by blast
  show "of_nat (settles (out s')) + acked s = of_nat (settles (out s)) + acked s'"
    using tsnd_event_view [OF a] by (auto simp: algebra_simps)
next
  fix l l' and s s' :: tsender
  assume "lsnd_loop_body l s = Inr (l', s')"
  then obtain cs where "s' = emit cs s" "settles cs = 0" by (rule lsnd_loop_body_Inr)
  then show "acked s' = acked s \<and> accepted s' = accepted s \<and> not_accepted s' = not_accepted s
      \<and> False = False \<and> settles (out s') = settles (out s)"
    by simp
qed simp

section \<open>Properties\<close>

definition tsnd_fresh :: "tsender \<Rightarrow> bool" where
  "tsnd_fresh s \<longleftrightarrow> out s = [] \<and> \<not> stop s \<and> count s = 0 \<and> tag s = 0 \<and> acked s = 0
     \<and> accepted s = 0 \<and> not_accepted s = 0"

lemma tsnd_option_fresh:
  fixes s :: tsender
  assumes "lsnd_option p s = Inr s'" and "tsnd_fresh s"
  shows "tsnd_fresh s'"
proof -
  obtain c optarg where p: "p = (c, optarg)" by (cases p)
  show ?thesis
    using assms unfolding p
    by (auto simp: lsnd_option_def tsnd_fresh_def usage_def split: if_splits option.splits)
qed

text \<open>Over a whole program the throughput sender keeps to its limit, tags its deliveries
  0, 1, 2, ..., settles every message it counts as acknowledged, counts each as accepted or not
  accepted, and stops only together with waking its reactor.\<close>

theorem tsnd_program_invariant:
  assumes "tsnd_main clock enc wr opts ess = Inr s"
  shows "\<exists>n. tags (out s) = map of_nat [0..<n] \<and> count s = of_nat n \<and> (limit s = 0 \<or> n \<le> unat (limit s))
    \<and> of_nat (settles (out s)) = acked s \<and> acked s = accepted s + not_accepted s
    \<and> (stop s \<longrightarrow> PnReactorWakeup \<in> set (out s))"
proof -
  obtain loc t where t: "parse_opts lsnd_option opts tsnd_globals = Inr t"
    "run (main_round (tsnd_event_handler clock enc wr) lsnd_loop_body)
       ((), emit [PnSetContainer (container_name t), PnSetHostname (host_address t)] t) ess = Inr (loc, s)"
    using assms by (auto simp: tsnd_main_def bnd_eq_Inr)
  have f: "tsnd_fresh t"
    by (rule parse_opts_preserves [where P = tsnd_fresh, OF tsnd_option_fresh _ t(1)])
      (simp_all add: tsnd_fresh_def tsnd_globals_def)
  have l: "limit s = limit t" using tsnd.round.run_lim [OF t(2)] by simp
  have "of_nat (settles (out s)) = acked s" "acked s = accepted s + not_accepted s"
    using tsnd.loop_settled [OF t(2)] tsnd.loop_ledger [OF t(2)] f by (simp_all add: tsnd_fresh_def)
  moreover have "stop s \<longrightarrow> PnReactorWakeup \<in> set (out s)"
    using tsnd.round.run_stop_wakes [OF t(2)] f by (auto simp: tsnd_fresh_def)
  moreover obtain n where "tags (out s) = map of_nat [0..<n]" "count s = of_nat n"
      "limit s = 0 \<or> n \<le> unat (limit s)"
    using tsnd.round.run_sent [OF t(2)] f l by (auto simp: tsnd_fresh_def word_le_nat_alt)
  ultimately show ?thesis by blast
qed

theorem tsnd_program_invariant_witness:
  "\<exists>s n. tsnd_main steady_clock (fixed_encoder [1, 2, 3]) (\<lambda>bs. int (length bs)) []
         [[PN_CONNECTION_INIT, PN_LINK_FLOW 3], [PN_DELIVERY True PN_RELEASED 2]] = Inr s
     \<and> tags (out s) = map of_nat [0..<n] \<and> count s = of_nat n \<and> n \<le> 1 \<and> acked s = accepted s + not_accepted s"
proof -
  note encode_loop_fixed [of "[1, 2, 3]" 612, simplified]
  moreover have "tsnd_send_loop wr 3 s = (if limit s = 0 \<or> count s < limit s
      then bnd (tsnd_send_one wr s) (tsnd_send_loop wr 2) else Inr s)" for wr s
    by (simp add: numeral_eq_Suc)
  moreover have "tsnd_send_loop wr 2 s = (if limit s = 0 \<or> count s < limit s
      then bnd (tsnd_send_one wr s) (tsnd_send_loop wr 1) else Inr s)" for wr s
    by (simp add: numeral_eq_Suc)
  ultimately obtain s where s: "tsnd_main steady_clock (fixed_encoder [1, 2, 3]) (\<lambda>bs. int (length bs)) []
         [[PN_CONNECTION_INIT, PN_LINK_FLOW 3], [PN_DELIVERY True PN_RELEASED 2]] = Inr s" "limit s = 1"
    by (simp add: tsnd_main_def main_round_def tsnd_globals_def tsnd_connection_init_def
        tsnd_generate_message_def encode_message_def BODY_SIZE_SMALL_def tsnd_link_flow_def
        tsnd_send_one_def Let_def emit_def payload_def lsnd_loop_body_def tsnd_delivery_def
        tsnd_mark_stop_def)
  from tsnd_program_invariant [OF s(1)] s(2) show ?thesis
    by (intro exI [of _ s]) (auto simp: s(1))
qed

lemma tsnd_send_loop_total:
  assumes "encode_buffer s = Some bs" and "encoded_data_size s = of_nat (length bs)"
    and "payload s = bs" and "wr bs = int (length bs)"
  shows "\<exists>s'. tsnd_send_loop wr c s = Inr s'"
  using assms(1-3)
proof (induction c arbitrary: s)
  case (Suc c)
  have "\<exists>t. tsnd_send_one wr s = Inr t"
    using Suc.prems assms(4) payload_cong [of "s\<lparr>count := count s + 1, out := out s @ [PnDelivery (tag s)], tag := tag s + 1\<rparr>" s]
    by (simp add: tsnd_send_one_def emit_def Let_def)
  then obtain t where t: "tsnd_send_one wr s = Inr t" by blast
  have t': "t = s\<lparr>count := count s + 1, tag := tag s + 1,
             out := out s @ message_block False (tag s) (payload s)\<rparr>" "payload t = payload s"
    using tsnd_send_one_Inr [OF t] by blast+
  have "encode_buffer t = Some bs" "encoded_data_size t = of_nat (length bs)" "payload t = bs"
    unfolding t'(2) using Suc.prems by (simp_all add: t'(1))
  with t Suc.IH show ?case by simp
qed simp

text \<open>When a grant of credit arrives, the throughput sender writes its encoded message once for
  each credit the limit allows, provided Proton takes every byte; if a message would be taken only in
  part, the client exits with status -1 and the stream is never continued after a torn message.\<close>

theorem tsnd_flow_writes_or_exits:
  assumes "clock_works clock" and "encode_buffer s = Some bs"
    and "encoded_data_size s = of_nat (length bs)" and "length bs < 2 ^ 63"
  shows "if wr bs = int (length bs)
    then \<exists>s'. tsnd_link_flow clock wr credit s = Inr s'
      \<and> sent_bytes (out s') = sent_bytes (out s) @ concat (replicate (quota (limit s) (count s) credit) bs)
      \<and> count s' = count s + of_nat (quota (limit s) (count s) credit)
    else wr bs < int (length bs) \<longrightarrow> - 1 \<le> wr bs \<longrightarrow> 0 < quota (limit s) (count s) credit \<longrightarrow>
      tsnd_link_flow clock wr credit s = Inl (Exit (- 1))"
proof -
  define t where "t = (if start_ts s = 0 then s\<lparr>clk := Suc (clk s), start_ts := fst (projr (now_usec_u64 clock s))\<rparr> else s)"
  obtain x where "now_usec_u64 clock s = Inr (x, s\<lparr>clk := Suc (clk s)\<rparr>)"
    using now_works(2) [OF assms(1)] by blast
  then have flow: "tsnd_link_flow clock wr credit s = (if credit < 1 then Inr s else tsnd_send_loop wr (nat credit) t)"
    by (simp add: tsnd_link_flow_def t_def)
  have ft: "encode_buffer t = Some bs" "encoded_data_size t = of_nat (length bs)" "limit t = limit s" "count t = count s"
    using assms(2,3) by (simp_all add: t_def)
  have pay: "payload s = bs" "payload t = bs"
    using assms ft by (simp_all add: payload_def unat_of_nat take_bit_nat_eq_self)
  show ?thesis
  proof (cases "wr bs = int (length bs)")
    case True
    obtain s' where s': "tsnd_link_flow clock wr credit s = Inr s'"
      using tsnd_send_loop_total [where wr = wr and bs = bs, OF ft(1,2) pay(2) True] flow by (cases "credit < 1") auto
    from tsnd_link_flow_view [OF s'] show ?thesis
      using True s' pay by (simp add: tsnd_view_def)
  next
    case False
    have "tsnd_link_flow clock wr credit s = Inl (Exit (- 1))"
      if w: "wr bs < int (length bs)" "- 1 \<le> wr bs" and q: "0 < quota (limit s) (count s) credit"
    proof -
      have c: "0 < credit" "limit s = 0 \<or> count s < limit s"
        using q quota_zero [of credit "limit s" "count s"] by auto
      then obtain k where k: "nat credit = Suc k" by (cases "nat credit") auto
      have "(word_of_int (wr bs) :: u64) \<noteq> of_nat (length bs)"
      proof
        assume "(word_of_int (wr bs) :: u64) = of_nat (length bs)"
        then have "(word_of_int (wr bs) :: u64) = word_of_int (int (length bs))" by simp
        then have "take_bit 64 (wr bs) = take_bit 64 (int (length bs))"
          by (simp only: word_of_int_eq_iff) simp
        then have "wr bs mod 2 ^ 64 = int (length bs) mod 2 ^ 64" by (simp only: take_bit_eq_mod)
        then have "(2 ^ 64) dvd (int (length bs) - wr bs)" by (metis mod_eq_dvd_iff)
        moreover have "0 < int (length bs) - wr bs" "int (length bs) - wr bs < 2 ^ 64"
          using w assms(4) by simp_all
        ultimately show False using zdvd_imp_le by fastforce
      qed
      moreover have "payload (emit [PnDelivery (tag t)] (t\<lparr>count := count t + 1\<rparr>)\<lparr>tag := tag t + 1\<rparr>) = bs"
        unfolding pay(2) [symmetric] by (intro payload_cong) simp_all
      ultimately have "tsnd_send_one wr t = Inl (Exit (- 1))"
        using ft by (simp add: tsnd_send_one_def Let_def)
      then show ?thesis using flow c ft k by simp
    qed
    with False show ?thesis by simp
  qed
qed

theorem tsnd_flow_writes_or_exits_witness:
  "tsnd_link_flow steady_clock (\<lambda>bs. 1) 5
      (tsnd_globals\<lparr>encode_buffer := Some [7, 8], encoded_data_size := 2\<rparr>) = Inl (Exit (- 1))"
  using tsnd_flow_writes_or_exits [OF steady_clock_works, of "tsnd_globals\<lparr>encode_buffer := Some [7, 8],
      encoded_data_size := 2\<rparr>" "[7, 8]" "\<lambda>bs. 1" 5]
  by (simp add: tsnd_globals_def quota_def)

end
