(* ===== verification/Receiver.thy ===== *)
theory Receiver
  imports Tx
begin

text \<open>
  \<open>benchmarks/clients/src/receiver.c\<close>, and what the three receivers share: the globals, the
  events, the credit they grant again and the report of latencies. Decoding a message is
  the Proton library's: a \<open>decoder\<close> takes the buffer and the length to read and gives an error
  code or the value of the body section, if there is one.
\<close>

section \<open>State and events\<close>

type_synonym decoder = "u8 list \<Rightarrow> u64 \<Rightarrow> int + amqp option"

record rx = client +
  credit_window :: int
  source_address :: string

lemma emit_rx [simp]:
  "credit_window (emit cs s) = credit_window s" "source_address (emit cs s) = source_address s"
  by (simp_all add: emit_def)

text \<open>
  What the handlers ask about a delivery: whether it is readable and partial, the number of
  bytes pending, what the calls of \<open>pn_link_recv()\<close> on it return (bytes, or a negative code),
  and the credit of the link.
\<close>

record delivery =
  readable :: bool
  partial :: bool
  pending :: u64
  recvs :: "(int + u8 list) list"
  dlv_credit :: int

datatype rx_event =
    CONNECTION_INIT
  | DELIVERY delivery
  | SIGNAL signal
  | OTHER_EVENT

definition whole :: "delivery \<Rightarrow> bool" where
  "whole d \<longleftrightarrow> readable d \<and> \<not> partial d"

definition PN_EOS :: int where "PN_EOS = - 1"

section \<open>Granting credit again\<close>

text \<open>
  \<open>else if (pn_link_credit(pn_link) <= credit_window/2) { ... }\<close>, as all three receivers have
  it. \<open>limit - count\<close> is an unsigned 64 bit number, \<open>grant\<close> an \<open>int\<close>.
\<close>

definition regrant :: "int \<Rightarrow> 'a rx_scheme \<Rightarrow> 'a rx_scheme" where
  "regrant credit s =
     (if credit \<le> credit_window s sdiv 2 then
        (let grant = credit_window s - credit;
             grant = (if limit s \<noteq> 0 \<and> limit s - count s < word_of_int grant
                      then u64_to_int (limit s - count s) else grant)
         in if grant \<noteq> 0 then emit [PnLinkFlow (credit_window s - credit)] s else s)
      else s)"

definition at_limit :: "'a client_scheme \<Rightarrow> bool" where
  "at_limit s \<longleftrightarrow> limit s \<noteq> 0 \<and> count s = limit s"

section \<open>The receiver\<close>

record receiver = rx +
  min_latency :: int
  max_latency :: int
  total_latency :: int
  sum_of_squares :: int
  start_ts :: int
  latency_count :: int
  check_latency :: bool
  in_buffer :: "u8 list"

definition MAX_SIZE :: nat where "MAX_SIZE = 1024 * 64"

definition rcv_globals :: receiver where
  "rcv_globals = \<lparr>
     clk = 0, out = [], stop = False, limit = 0, count = 0,
     host_address = ''127.0.0.1:5672'', container_name = ''BenchReceiver'',
     g_ssn = False, g_link = False, sig_ign = False,
     credit_window = 1000, source_address = ''benchmark'',
     min_latency = 2 ^ 63 - 1, max_latency = 0, total_latency = 0, sum_of_squares = 0,
     start_ts = 0, latency_count = 0, check_latency = False,
     in_buffer = replicate MAX_SIZE 0\<rparr>"

definition rcv_connection_init :: "'a rx_scheme \<Rightarrow> 'a rx_scheme" where
  "rcv_connection_init s =
     emit [PnConnectionOpen, PnSession, PnSessionOpen, PnReceiver ''MyReceiver'',
           PnSetSource (source_address s), PnLinkOpen, PnLinkFlow (credit_window s)]
       (s\<lparr>g_ssn := True, g_link := True\<rparr>)"

definition rcv_record_latency :: "receiver \<Rightarrow> int \<Rightarrow> receiver" where
  "rcv_record_latency s latency =
     (let s = (if latency < min_latency s then s\<lparr>min_latency := latency\<rparr> else s);
          s = (if max_latency s < latency then s\<lparr>max_latency := latency\<rparr> else s);
          s = s\<lparr>total_latency := total_latency s + latency\<rparr>;
          s = s\<lparr>sum_of_squares := sum_of_squares s + latency * latency\<rparr>
      in s\<lparr>latency_count := latency_count s + 1\<rparr>)"

text \<open>Expect a list of two items or more, the first a \<open>PN_LONG\<close>: the transmit time.\<close>

fun rcv_timestamp :: "amqp option \<Rightarrow> int option" where
  "rcv_timestamp (Some (AList (ALong t # x # xs))) = Some t"
| "rcv_timestamp _ = None"

text \<open>
  One \<open>pn_link_recv()\<close> into the buffer. Its \<open>ssize_t\<close> result is kept in a \<open>size_t\<close>, so that an
  error code is a large length and not \<open>0\<close>.
\<close>

definition rcv_recv :: "delivery \<Rightarrow> receiver \<Rightarrow> u64 \<times> receiver" where
  "rcv_recv d s =
     (case recvs d of
        [] \<Rightarrow> (word_of_int PN_EOS, s)
      | Inl err # _ \<Rightarrow> (word_of_int err, s)
      | Inr bs # _ \<Rightarrow>
          (let bs = take MAX_SIZE bs
           in (of_nat (length bs), s\<lparr>in_buffer := bs @ drop (length bs) (in_buffer s)\<rparr>)))"

definition rcv_read_timestamp :: "clock \<Rightarrow> decoder \<Rightarrow> delivery \<Rightarrow> receiver \<Rightarrow> halt + receiver" where
  "rcv_read_timestamp clock decode d s =
     (if check_latency s \<and> pending d < of_nat MAX_SIZE then
        (case rcv_recv d s of (len, s) \<Rightarrow>
         if 0 < len then
           (case decode (in_buffer s) len of
              Inl rc \<Rightarrow> Inr s
            | Inr body \<Rightarrow>
                (case rcv_timestamp body of
                   None \<Rightarrow> Inr s
                 | Some sent \<Rightarrow> bnd (now_usec clock s) (\<lambda>(t, s). Inr (rcv_record_latency s (t - sent)))))
         else Inr s)
      else Inr s)"

definition rcv_delivery :: "clock \<Rightarrow> decoder \<Rightarrow> delivery \<Rightarrow> receiver \<Rightarrow> halt + receiver" where
  "rcv_delivery clock decode d s =
     (if limit s \<noteq> 0 \<and> count s = limit s then Inr s
      else if whole d then
        bnd (if start_ts s = 0 then bnd (now_usec clock s) (\<lambda>(t, s). Inr (s\<lparr>start_ts := t\<rparr>)) else Inr s) (\<lambda>s.
        bnd (rcv_read_timestamp clock decode d (s\<lparr>count := count s + 1\<rparr>)) (\<lambda>s.
        let s = emit [PnUpdate PN_ACCEPTED, PnSettle] s in
        if limit s \<noteq> 0 \<and> count s = limit s then Inr (emit [PnReactorWakeup] (s\<lparr>stop := True\<rparr>))
        else Inr (regrant (dlv_credit d) s)))
      else Inr s)"

fun rcv_event_handler :: "clock \<Rightarrow> decoder \<Rightarrow> receiver \<Rightarrow> rx_event \<Rightarrow> halt + receiver" where
  "rcv_event_handler clock decode s CONNECTION_INIT = Inr (rcv_connection_init s)"
| "rcv_event_handler clock decode s (DELIVERY d) = rcv_delivery clock decode d s"
| "rcv_event_handler clock decode s (SIGNAL sig) = Inr (signal_handler sig s)"
| "rcv_event_handler clock decode s OTHER_EVENT = Inr s"

section \<open>\<open>main\<close>\<close>

definition rcv_window_option :: "string \<Rightarrow> 'a rx_scheme \<Rightarrow> halt + 'a rx_scheme" where
  "rcv_window_option optarg s =
     (case scan_int optarg of
        None \<Rightarrow> usage
      | Some n \<Rightarrow> if n \<le> 0 then usage else Inr (s\<lparr>credit_window := n\<rparr>))"

definition rcv_option :: "clock \<Rightarrow> opt \<Rightarrow> int \<times> receiver \<Rightarrow> halt + int \<times> receiver" where
  "rcv_option clock p ds =
     (case (p, ds) of ((c, optarg), (deadline, s)) \<Rightarrow>
      if c = CHR ''h'' then usage
      else if c = CHR ''a'' then Inr (deadline, s\<lparr>host_address := optarg\<rparr>)
      else if c = CHR ''c'' then
        (case scan_u64 optarg of None \<Rightarrow> usage | Some n \<Rightarrow> Inr (deadline, s\<lparr>limit := n\<rparr>))
      else if c = CHR ''i'' then Inr (deadline, s\<lparr>container_name := optarg\<rparr>)
      else if c = CHR ''l'' then Inr (deadline, s\<lparr>check_latency := True\<rparr>)
      else if c = CHR ''s'' then Inr (deadline, s\<lparr>source_address := optarg\<rparr>)
      else if c = CHR ''w'' then bnd (rcv_window_option optarg s) (\<lambda>s. Inr (deadline, s))
      else if c = CHR ''v'' then bnd (now_usec clock s) (\<lambda>(t, s). Inr (t + 10 * USECS_PER_SECOND, s))
      else usage)"

text \<open>One round of the loop of \<open>main()\<close> after its events; the globals \<open>pn_link\<close> and \<open>pn_ssn\<close> are
  set here, by the handler.\<close>

definition close_endpoints :: "'a client_scheme \<Rightarrow> 'a client_scheme" where
  "close_endpoints s = emit ((if g_link s then [PnLinkClose] else [])
     @ (if g_ssn s then [PnSessionClose] else []) @ [PnConnectionClose]) s"

definition rcv_loop_body :: "clock \<Rightarrow> int \<times> bool \<Rightarrow> receiver \<Rightarrow> halt + (int \<times> bool) \<times> receiver" where
  "rcv_loop_body clock loc s =
     (case loc of (deadline, printed) \<Rightarrow>
      if stop s then
        bnd (now_usec clock s) (\<lambda>(now, s).
        Inr ((deadline, printed \<or> count s \<noteq> 0), close_endpoints s))
      else if deadline \<noteq> 0 then
        bnd (now_usec clock s) (\<lambda>(t, s).
        if deadline \<le> t
        then bnd (now_usec clock s) (\<lambda>(t, s). Inr ((t + 10 * USECS_PER_SECOND, printed), s))
        else Inr ((deadline, printed), s))
      else Inr (loc, s))"

definition rcv_main :: "clock \<Rightarrow> decoder \<Rightarrow> opt list \<Rightarrow> rx_event list list \<Rightarrow> halt + receiver" where
  "rcv_main clock decode opts ess =
     bnd (parse_opts (rcv_option clock) opts (0, rcv_globals)) (\<lambda>(deadline, s).
     bnd (run (main_round (rcv_event_handler clock decode) (rcv_loop_body clock))
           ((deadline, False), emit [PnSetContainer (container_name s), PnSetHostname (host_address s)] s) ess) (\<lambda>(loc, s). Inr s))"

text \<open>The latency report: mean and variance by the signed divisions of the code.\<close>

definition rcv_report :: "receiver \<Rightarrow> (int \<times> int) option" where
  "rcv_report s =
     (if latency_count s \<noteq> 0 then
        (let lmean = total_latency s sdiv latency_count s;
             isos = sum_of_squares s sdiv latency_count s;
             isos = isos - lmean * lmean
         in Some (lmean, isos))
      else None)"

section \<open>The grant law\<close>

text \<open>
  Below half the window the credit is always filled up to the window: the amount clamped
  by what is left to receive only decides whether to grant, and it is never zero.
\<close>

lemma uint_u64_to_int_pos:
  assumes "(x::u64) < word_of_int g" and "0 < g" and "g < 2 ^ 31" and "x \<noteq> 0"
  shows "u64_to_int x \<noteq> 0"
proof -
  have "unat (word_of_int g :: u64) = nat g" using assms by (intro unat_word_of_int) simp_all
  then have "unat x < nat g" using assms(1) by (simp add: word_less_nat_alt)
  then have "unat x < 2 ^ 31" using assms(3) by simp
  then have "u64_to_int x = int (unat x)" by (rule u64_to_int_small)
  moreover have "unat x \<noteq> 0" using assms(4) by (metis unat_eq_zero)
  ultimately show ?thesis by linarith
qed

lemma regrant_eq:
  assumes "0 < credit_window s" and "credit_window s < 2 ^ 31" and "0 \<le> credit"
    and "limit s \<noteq> 0 \<Longrightarrow> count s \<noteq> limit s"
  shows "regrant credit s =
    (if credit \<le> credit_window s sdiv 2 then emit [PnLinkFlow (credit_window s - credit)] s else s)"
proof (cases "credit \<le> credit_window s sdiv 2")
  case True
  let ?g = "credit_window s - credit"
  have g: "0 < ?g" "?g < 2 ^ 31" using True assms(1-3) by (auto simp: signed_divide_int_def)
  have "limit s - count s \<noteq> 0" if "limit s \<noteq> 0" using assms(4) that by simp
  then have "(if limit s \<noteq> 0 \<and> limit s - count s < word_of_int ?g
      then u64_to_int (limit s - count s) else ?g) \<noteq> 0"
    using g uint_u64_to_int_pos [of "limit s - count s" ?g] by simp
  then show ?thesis using True unfolding regrant_def Let_def by simp
qed (simp add: regrant_def)

lemma regrant_emits:
  obtains cs where "regrant c s = emit cs s" "tags cs = []" "settles cs = 0" "closings cs = 0"
proof (cases "regrant c s = s")
  case True
  then show ?thesis by (intro that [of "[]"]) (simp_all add: emit_def)
next
  case False
  then have "regrant c s = emit [PnLinkFlow (credit_window s - c)] s"
    unfolding regrant_def Let_def by metis
  then show ?thesis by (rule that) simp_all
qed

section \<open>What a receiver does with a whole message\<close>

text \<open>
  The shape of the step in all three receivers: the message is counted, accepted and
  settled; the last one stops the client, the others may grant credit again.
\<close>

definition rx_view :: "'a rx_scheme \<Rightarrow> pn_call list \<times> bool \<times> u64 \<times> u64 \<times> int \<times> bool \<times> bool" where
  "rx_view s = (out s, stop s, limit s, count s, credit_window s, g_link s, g_ssn s)"

definition takes_message :: "int \<Rightarrow> 'a rx_scheme \<Rightarrow> 'a rx_scheme \<Rightarrow> bool" where
  "takes_message credit s s' \<longleftrightarrow> (\<exists>t :: 'a rx_scheme.
     rx_view t = (out s @ [PnUpdate PN_ACCEPTED, PnSettle], stop s, limit s, count s + 1,
                  credit_window s, g_link s, g_ssn s)
     \<and> rx_view s' = rx_view (if at_limit t then emit [PnReactorWakeup] (t\<lparr>stop := True\<rparr>) else regrant credit t))"

lemma takes_message_basic:
  assumes "takes_message credit s s'"
  shows "limit s' = limit s" "count s' = count s + 1" "credit_window s' = credit_window s"
    "g_link s' = g_link s" "g_ssn s' = g_ssn s"
    "\<exists>cs. out s' = out s @ cs \<and> tags cs = [] \<and> settles cs = 1 \<and> closings cs = 0"
    "stop s \<Longrightarrow> stop s'" "\<not> stop s \<Longrightarrow> stop s' \<Longrightarrow> at_limit s' \<and> PnReactorWakeup \<in> set (out s')"
    "at_limit s' \<Longrightarrow> stop s'"
proof -
  obtain t :: "'a rx_scheme" where t: "rx_view t = (out s @ [PnUpdate PN_ACCEPTED, PnSettle], stop s, limit s, count s + 1,
                  credit_window s, g_link s, g_ssn s)"
    and s': "rx_view s' = rx_view (if at_limit t then emit [PnReactorWakeup] (t\<lparr>stop := True\<rparr>) else regrant credit t)"
    using assms by (auto simp: takes_message_def)
  obtain cs where cs: "regrant credit t = emit cs t" "tags cs = []" "settles cs = 0" "closings cs = 0"
    by (rule regrant_emits)
  define xs where "xs = (if at_limit t then [PnReactorWakeup] else cs)"
  have v: "rx_view s' = (out s @ [PnUpdate PN_ACCEPTED, PnSettle] @ xs, stop s \<or> at_limit t, limit s, count s + 1,
      credit_window s, g_link s, g_ssn s)"
    using s' t by (auto simp: xs_def cs(1) rx_view_def)
  then show "limit s' = limit s" "count s' = count s + 1" "credit_window s' = credit_window s"
    "g_link s' = g_link s" "g_ssn s' = g_ssn s" "stop s \<Longrightarrow> stop s'"
    by (simp_all add: rx_view_def)
  have l: "at_limit t = at_limit s'" using t v by (simp add: rx_view_def at_limit_def)
  show "\<exists>cs. out s' = out s @ cs \<and> tags cs = [] \<and> settles cs = 1 \<and> closings cs = 0"
    using v cs by (intro exI [of _ "[PnUpdate PN_ACCEPTED, PnSettle] @ xs"]) (simp add: rx_view_def xs_def)
  show "\<not> stop s \<Longrightarrow> stop s' \<Longrightarrow> at_limit s' \<and> PnReactorWakeup \<in> set (out s')" "at_limit s' \<Longrightarrow> stop s'"
    using v l by (auto simp: rx_view_def xs_def)
qed

lemma takes_message_balance:
  assumes "takes_message credit s s'" and "0 \<le> credit" and "0 < credit_window s" and "credit_window s < 2 ^ 31"
  shows "credit_balance (out s') = credit_balance (out s) - 1
    + (if at_limit s' \<or> credit_window s sdiv 2 < credit then 0 else credit_window s - credit)"
proof -
  obtain t :: "'a rx_scheme" where t: "rx_view t = (out s @ [PnUpdate PN_ACCEPTED, PnSettle], stop s, limit s, count s + 1,
                  credit_window s, g_link s, g_ssn s)"
    and s': "rx_view s' = rx_view (if at_limit t then emit [PnReactorWakeup] (t\<lparr>stop := True\<rparr>) else regrant credit t)"
    using assms(1) by (auto simp: takes_message_def)
  have l: "at_limit t = at_limit s'"
    using t takes_message_basic(1,2) [OF assms(1)] by (simp add: rx_view_def at_limit_def)
  have w: "credit_window t = credit_window s" and o: "out t = out s @ [PnUpdate PN_ACCEPTED, PnSettle]"
    using t by (simp_all add: rx_view_def)
  show ?thesis
  proof (cases "at_limit t")
    case True
    with s' have "out s' = out t @ [PnReactorWakeup]" by (simp add: rx_view_def)
    with True l o show ?thesis by (simp add: credit_balance_def)
  next
    case False
    then have "regrant credit t = (if credit \<le> credit_window t sdiv 2
        then emit [PnLinkFlow (credit_window t - credit)] t else t)"
      using assms(2-4) w by (intro regrant_eq) (auto simp: at_limit_def)
    with s' False have "out s' = out t @ (if credit \<le> credit_window s sdiv 2
        then [PnLinkFlow (credit_window s - credit)] else [])"
      by (simp add: rx_view_def w split: if_splits)
    with False l o show ?thesis by (simp add: credit_balance_def)
  qed
qed

text \<open>The credit the library reports when an event brings a whole message.\<close>

definition arrival :: "rx_event \<Rightarrow> int option" where
  "arrival e = (case e of DELIVERY d \<Rightarrow> if whole d then Some (dlv_credit d) else None | _ \<Rightarrow> None)"

text \<open>The law of a step of a receiver, for the interpretations.\<close>

definition rx_step_law :: "'a rx_scheme \<Rightarrow> rx_event \<Rightarrow> 'a rx_scheme \<Rightarrow> bool" where
  "rx_step_law s e s' \<longleftrightarrow>
     (case arrival e of
        Some c \<Rightarrow> if at_limit s then rx_view s' = rx_view s else takes_message c s s'
      | None \<Rightarrow>
          (e = CONNECTION_INIT \<and> (\<exists>cs. settles cs = 0 \<and> rx_view s' =
             (out s @ cs, stop s, limit s, count s, credit_window s, True, True)))
          \<or> (\<exists>d. rx_view s' = (out s @ (if d then [PnReactorWakeup] else []), stop s \<or> d, limit s, count s,
             credit_window s, g_link s, g_ssn s)))"

lemma rx_law_cases:
  assumes "rx_step_law s e s'"
  obtains c where "takes_message c s s'" and "\<not> at_limit s"
    | cs where "settles cs = 0" and "rx_view s' = (out s @ cs, stop s, limit s, count s, credit_window s, True, True)"
    | d where "rx_view s' = (out s @ (if d then [PnReactorWakeup] else []), stop s \<or> d,
        limit s, count s, credit_window s, g_link s, g_ssn s)"
proof (cases "arrival e")
  case None
  then show ?thesis using assms that(2,3) by (auto simp: rx_step_law_def)
next
  case (Some c)
  show ?thesis
  proof (cases "at_limit s")
    case True
    then have "rx_view s' = rx_view s" using assms Some by (simp add: rx_step_law_def)
    then show ?thesis using that(3) [of False] by (simp add: rx_view_def)
  next
    case False
    then show ?thesis using assms Some that(1) by (simp add: rx_step_law_def)
  qed
qed

lemma rx_law_window:
  assumes "rx_step_law s e s'"
  shows "credit_window s' = credit_window s"
  using assms
proof (cases rule: rx_law_cases)
  case (1 c)
  show ?thesis by (rule takes_message_basic(3) [OF 1(1)])
qed (simp_all add: rx_view_def)

lemma rx_law_quiet:
  assumes "rx_step_law s e s'" and "e \<noteq> CONNECTION_INIT" and "arrival e = None \<or> at_limit s"
  shows "credit_balance (out s') = credit_balance (out s) \<and> (at_limit s \<longrightarrow> at_limit s')"
  using assms
  by (auto simp: rx_step_law_def rx_view_def at_limit_def credit_balance_def split: option.splits if_splits)

lemma rx_law_arrival:
  assumes "rx_step_law s e s'" and "arrival e = Some c" and "\<not> at_limit s"
    and "0 \<le> c" and "0 < credit_window s" and "credit_window s < 2 ^ 31"
  shows "credit_balance (out s') = credit_balance (out s) - 1
    + (if at_limit s' \<or> credit_window s sdiv 2 < c then 0 else credit_window s - c)"
  using assms by (intro takes_message_balance) (simp_all add: rx_step_law_def)

lemma rx_law_stop:
  assumes "rx_step_law s e s'"
  shows "(\<exists>cs. out s' = out s @ cs) \<and> (stop s \<longrightarrow> stop s')
    \<and> (\<not> stop s \<longrightarrow> stop s' \<longrightarrow> PnReactorWakeup \<in> set (out s'))"
  using assms
proof (cases rule: rx_law_cases)
  case (1 c)
  then show ?thesis using takes_message_basic(6-8) [OF 1(1)] by blast
next
  case (3 d)
  then show ?thesis by (auto simp: rx_view_def)
qed (simp add: rx_view_def)

section \<open>The contracts, for the receiver\<close>

lemma emit_receiver [simp]:
  "start_ts (emit cs s) = start_ts s" "check_latency (emit cs s) = check_latency s"
  "in_buffer (emit cs s) = in_buffer s" "latency_count (emit cs s) = latency_count s"
  "total_latency (emit cs s) = total_latency s" "sum_of_squares (emit cs s) = sum_of_squares s"
  "min_latency (emit cs s) = min_latency s" "max_latency (emit cs s) = max_latency s"
  by (simp_all add: emit_def)

lemma rcv_record_latency_view: "rx_view (rcv_record_latency s x) = rx_view s"
  by (simp add: rcv_record_latency_def rx_view_def Let_def)

lemma rcv_recv_view: "rcv_recv d s = (len, s') \<Longrightarrow> rx_view s' = rx_view s"
  by (auto simp: rcv_recv_def rx_view_def Let_def split: list.splits sum.splits)

lemma rcv_read_timestamp_view:
  assumes "rcv_read_timestamp clock decode d s = Inr s'"
  shows "rx_view s' = rx_view s"
proof (cases "check_latency s \<and> pending d < of_nat MAX_SIZE")
  case False
  then show ?thesis using assms unfolding rcv_read_timestamp_def if_not_P [OF False] by simp
next
  case True
  obtain len t where t: "rcv_recv d s = (len, t)" by (cases "rcv_recv d s")
  have "rx_view s' = rx_view t"
    using assms t unfolding rcv_read_timestamp_def if_P [OF True]
    by (auto simp: bnd_eq_Inr rcv_record_latency_view split: if_splits sum.splits option.splits
        dest!: now_usec_Inr) (auto simp: rx_view_def)
  then show ?thesis using rcv_recv_view [OF t] by simp
qed

lemma rcv_delivery_law:
  assumes "rcv_delivery clock decode d s = Inr s'"
  shows "rx_step_law s (DELIVERY d) s'"
proof (cases "at_limit s \<or> \<not> whole d")
  case True
  then have "s' = s" using assms by (auto simp: rcv_delivery_def at_limit_def split: if_splits)
  then show ?thesis using True
    by (auto simp: rx_step_law_def arrival_def rx_view_def split: option.splits intro: exI [of _ False])
next
  case False
  then have n: "\<not> (limit s \<noteq> 0 \<and> count s = limit s)" "whole d" by (simp_all add: at_limit_def)
  from assms obtain t u where
    t: "(if start_ts s = 0 then bnd (now_usec clock s) (\<lambda>(t, s). Inr (s\<lparr>start_ts := t\<rparr>)) else Inr s) = Inr t"
    and u: "rcv_read_timestamp clock decode d (t\<lparr>count := count t + 1\<rparr>) = Inr u"
    and s': "s' = (if at_limit (emit [PnUpdate PN_ACCEPTED, PnSettle] u)
        then emit [PnReactorWakeup] (emit [PnUpdate PN_ACCEPTED, PnSettle] u\<lparr>stop := True\<rparr>)
        else regrant (dlv_credit d) (emit [PnUpdate PN_ACCEPTED, PnSettle] u))"
    unfolding rcv_delivery_def if_not_P [OF n(1)] if_P [OF n(2)] bnd_eq_Inr Let_def at_limit_def
    by (elim exE conjE) (rule that, assumption, assumption, auto simp: at_limit_def split: if_splits)
  have "rx_view t = rx_view s"
    using t by (auto simp: rx_view_def bnd_eq_Inr dest!: now_usec_Inr split: if_splits)
  then have "rx_view u = (out s, stop s, limit s, count s + 1, credit_window s, g_link s, g_ssn s)"
    using rcv_read_timestamp_view [OF u] by (simp add: rx_view_def)
  then have "takes_message (dlv_credit d) s s'" unfolding takes_message_def
    by (intro exI [of _ "emit [PnUpdate PN_ACCEPTED, PnSettle] u"]) (simp add: s' rx_view_def)
  then show ?thesis using False by (simp add: rx_step_law_def arrival_def)
qed

lemma rcv_connection_init_law: "rx_step_law s CONNECTION_INIT (rcv_connection_init s)"
  by (simp add: rx_step_law_def arrival_def rcv_connection_init_def rx_view_def)

lemma rx_signal_law: "rx_step_law s (SIGNAL sig) (signal_handler sig s)"
  by (auto simp: rx_step_law_def arrival_def signal_handler_eq rx_view_def Let_def)

lemma rx_same_law: "arrival e = None \<Longrightarrow> rx_step_law s e s"
  by (auto simp: rx_step_law_def rx_view_def intro: exI [of _ False])

lemma rcv_event_law:
  assumes "rcv_event_handler clock decode s e = Inr s'"
  shows "rx_step_law s e s'"
proof (cases e)
  case CONNECTION_INIT
  with assms rcv_connection_init_law [of s] show ?thesis by simp
next
  case (DELIVERY d)
  then show ?thesis using assms rcv_delivery_law by simp
next
  case (SIGNAL sig)
  then show ?thesis using assms rx_signal_law [of s sig] by simp
next
  case OTHER_EVENT
  then show ?thesis using assms rx_same_law [of OTHER_EVENT s] by (simp add: arrival_def)
qed

lemma close_endpoints_Inr:
  "\<exists>cs. close_endpoints s = emit cs s \<and> tags cs = [] \<and> settles cs = 0
     \<and> (g_link s \<longrightarrow> PnLinkClose \<in> set cs) \<and> (g_ssn s \<longrightarrow> PnSessionClose \<in> set cs) \<and> PnConnectionClose \<in> set cs"
  unfolding close_endpoints_def by (intro exI conjI) (rule refl, auto)

lemma rcv_loop_body_Inr:
  assumes "rcv_loop_body clock loc s = Inr (loc', s')"
  shows "(\<exists>cs. out s' = out s @ cs) \<and> stop s' = stop s"
proof -
  obtain deadline printed where loc: "loc = (deadline, printed)" by (cases loc)
  show ?thesis
  proof (cases "stop s")
    case True
    then obtain k where "s' = close_endpoints (s\<lparr>clk := k\<rparr>)"
      using assms loc by (auto simp: rcv_loop_body_def bnd_eq_Inr dest!: now_usec_Inr)
    then show ?thesis by (simp add: close_endpoints_def)
  next
    case False
    then have "s' = s\<lparr>clk := clk s'\<rparr>"
      using assms loc
      by (cases "deadline = 0") (auto simp: rcv_loop_body_def bnd_eq_Inr dest!: now_usec_Inr split: if_splits)
    then have "out s' = out (s\<lparr>clk := clk s'\<rparr>)" "stop s' = stop (s\<lparr>clk := clk s'\<rparr>)" by presburger+
    then show ?thesis by simp
  qed
qed

interpretation rcv: stopping_loop "rcv_event_handler clock decode" out stop PnReactorWakeup
    "rcv_loop_body clock" for clock decode
proof
  fix s s' :: receiver and e
  assume "rcv_event_handler clock decode s e = Inr s'"
  note l = rx_law_stop [OF rcv_event_law [OF this]]
  show "\<exists>cs. out s' = out s @ cs" "stop s \<Longrightarrow> stop s'"
    "\<not> stop s \<Longrightarrow> stop s' \<Longrightarrow> PnReactorWakeup \<in> set (out s')"
    using l by blast+
next
  fix l l' and s s' :: receiver
  assume "rcv_loop_body clock l s = Inr (l', s')"
  from rcv_loop_body_Inr [OF this] show "\<exists>cs. out s' = out s @ cs" "stop s' = stop s" by blast+
qed

interpretation rcv: crediting_receiver "rcv_event_handler clock decode" out credit_window at_limit
    "\<lambda>e. e = CONNECTION_INIT" arrival for clock decode
proof
  fix s s' :: receiver and e
  assume "rcv_event_handler clock decode s e = Inr s'"
  note l = rcv_event_law [OF this]
  show "credit_window s' = credit_window s" by (rule rx_law_window [OF l])
  show "e \<noteq> CONNECTION_INIT \<Longrightarrow> arrival e = None \<or> at_limit s \<Longrightarrow>
      credit_balance (out s') = credit_balance (out s) \<and> (at_limit s \<longrightarrow> at_limit s')"
    by (rule rx_law_quiet [OF l])
  show "credit_balance (out s') = credit_balance (out s) - 1
            + (if at_limit s' \<or> credit_window s sdiv 2 < c then 0 else credit_window s - c)"
    if "e \<noteq> CONNECTION_INIT" "arrival e = Some c" "\<not> at_limit s" "0 \<le> c" "0 < credit_window s"
      "credit_window s < 2 ^ 31" for c
    using rx_law_arrival [OF l that(2-6)] .
qed

interpretation rcv_stats: latency_accumulator rcv_record_latency total_latency sum_of_squares
    max_latency min_latency
  by unfold_locales (auto simp: rcv_record_latency_def Let_def)

section \<open>Properties\<close>

text \<open>C40: a receiver never has more credit outstanding than its window, and never lets it fall to
  half the window or less before it has received all it wants, if the credit the library
  reports with each message is true.\<close>

theorem rcv_keeps_credit_window:
  assumes "run (rcv_event_handler clock decode) s (CONNECTION_INIT # es) = Inr s'"
    and "out s = []" and "0 < credit_window s" and "credit_window s < 2 ^ 31"
    and "CONNECTION_INIT \<notin> set es"
    and "honest (rcv_event_handler clock decode) out at_limit arrival (rcv_connection_init s) es"
  shows "credit_balance (out s') \<le> credit_window s
    \<and> (at_limit s' \<or> credit_window s sdiv 2 < credit_balance (out s'))"
proof -
  let ?s = "rcv_connection_init s"
  have w: "credit_window ?s = credit_window s" "credit_balance (out ?s) = credit_window s"
    using assms(2) by (simp_all add: rcv_connection_init_def credit_balance_def)
  have "in_window (credit_window ?s) (at_limit ?s) (credit_balance (out ?s))"
    using assms(3) w by (simp add: in_window_def signed_divide_int_def) linarith
  then have "in_window (credit_window s') (at_limit s') (credit_balance (out s')) \<and> credit_window s' = credit_window ?s"
    using assms w by (intro rcv.run_in_window [where es = es]) auto
  then show ?thesis using w by (auto simp: in_window_def)
qed

abbreviation sample_delivery :: "int \<Rightarrow> rx_event" where
  "sample_delivery c \<equiv> DELIVERY \<lparr>readable = True, partial = False, pending = 3, recvs = [Inr [1, 2, 3]], dlv_credit = c\<rparr>"

theorem rcv_keeps_credit_window_witness:
  "\<exists>s'. run (rcv_event_handler steady_clock (\<lambda>bs n. Inl (- 1))) (rcv_globals\<lparr>credit_window := 4\<rparr>)
          [CONNECTION_INIT, sample_delivery 3, sample_delivery 2] = Inr s'
      \<and> credit_balance (out s') \<le> 4 \<and> (at_limit s' \<or> 2 < credit_balance (out s'))"
proof -
  let ?s = "rcv_globals\<lparr>credit_window := 4\<rparr>" and ?h = "rcv_event_handler steady_clock (\<lambda>bs n. Inl (- 1))"
  have h: "honest ?h out at_limit arrival (rcv_connection_init ?s) [sample_delivery 3, sample_delivery 2]"
    by (simp add: rcv_connection_init_def rcv_globals_def at_limit_def arrival_def whole_def credit_balance_def
        rcv_delivery_def rcv_read_timestamp_def regrant_def signed_divide_int_def emit_def)
  have "\<exists>s'. run ?h ?s [CONNECTION_INIT, sample_delivery 3, sample_delivery 2] = Inr s'"
    by (simp add: rcv_connection_init_def rcv_globals_def whole_def
        rcv_delivery_def rcv_read_timestamp_def regrant_def signed_divide_int_def emit_def)
  then obtain s' where s': "run ?h ?s [CONNECTION_INIT, sample_delivery 3, sample_delivery 2] = Inr s'" by blast
  from rcv_keeps_credit_window [OF s' _ _ _ _ h] s' show ?thesis
    by (auto simp: rcv_globals_def signed_divide_int_def)
qed

text \<open>When less is left to receive than would fill the window, the receiver still grants
  credit up to the window: the clamped \<open>grant\<close> is computed and not used, so the peer may send
  messages the receiver does not want.\<close>

theorem rcv_grants_more_than_wanted:
  assumes "0 < credit_window s" and "credit_window s < 2 ^ 31" and "0 \<le> credit"
    and "credit \<le> credit_window s sdiv 2" and "count s < limit s"
    and "int (unat (limit s - count s)) < credit_window s - credit"
  shows "flows (out (regrant credit s)) = flows (out s) + (credit_window s - credit)
    \<and> int (unat (limit s - count s)) < flows (out (regrant credit s)) - flows (out s)"
proof -
  have "regrant credit s = emit [PnLinkFlow (credit_window s - credit)] s"
    using regrant_eq [OF assms(1-3)] assms(4,5) by auto
  then show ?thesis using assms(6) by simp
qed

theorem rcv_grants_more_than_wanted_witness:
  "flows (out (regrant 2 (rcv_globals\<lparr>credit_window := 10, limit := 7, count := 5\<rparr>))) = 8"
  using rcv_grants_more_than_wanted [of "rcv_globals\<lparr>credit_window := 10, limit := 7, count := 5\<rparr>" 2]
  by (simp add: rcv_globals_def signed_divide_int_def)

text \<open>The options leave the counters alone and the window positive.\<close>

definition rcv_fresh :: "receiver \<Rightarrow> bool" where
  "rcv_fresh s \<longleftrightarrow> out s = [] \<and> \<not> stop s \<and> count s = 0 \<and> 0 < credit_window s"

lemma rcv_option_fresh:
  assumes "rcv_option clock p ds = Inr ds'" and "rcv_fresh (snd ds)"
  shows "rcv_fresh (snd ds')"
proof -
  obtain c optarg d s where p: "p = (c, optarg)" "ds = (d, s)" by (cases p; cases ds)
  show ?thesis
    using assms unfolding p
    by (auto simp: rcv_option_def rcv_window_option_def rcv_fresh_def usage_def bnd_eq_Inr dest!: now_usec_Inr
        split: if_splits option.splits)
qed

lemma rcv_main_run:
  assumes "rcv_main clock decode opts ess = Inr s'"
  obtains d loc s where "rcv_fresh s"
    "run (main_round (rcv_event_handler clock decode) (rcv_loop_body clock))
       ((d, False), emit [PnSetContainer (container_name s), PnSetHostname (host_address s)] s) ess = Inr (loc, s')"
proof -
  obtain d loc s where s: "parse_opts (rcv_option clock) opts (0, rcv_globals) = Inr (d, s)"
    "run (main_round (rcv_event_handler clock decode) (rcv_loop_body clock))
       ((d, False), emit [PnSetContainer (container_name s), PnSetHostname (host_address s)] s) ess = Inr (loc, s')"
    using assms by (auto simp: rcv_main_def bnd_eq_Inr)
  have "rcv_fresh (snd (d, s))"
    by (rule parse_opts_preserves [where P = "\<lambda>ds. rcv_fresh (snd ds)", OF rcv_option_fresh _ s(1)])
      (simp_all add: rcv_fresh_def rcv_globals_def)
  with s(2) show ?thesis using that by simp
qed

text \<open>Every message counted is settled, and the count respects the limit.\<close>

definition rx_counts :: "'a rx_scheme \<Rightarrow> bool" where
  "rx_counts s \<longleftrightarrow> of_nat (settles (out s)) = count s \<and> (limit s = 0 \<or> count s \<le> limit s)"

lemma rx_law_counts:
  assumes "rx_step_law s e s'" and "rx_counts s"
  shows "rx_counts s'"
  using assms(1)
proof (cases rule: rx_law_cases)
  case (1 c)
  note b = takes_message_basic [OF 1(1)]
  have "limit s = 0 \<or> count s < limit s"
    using 1(2) assms(2) by (auto simp: at_limit_def rx_counts_def)
  then have "limit s = 0 \<or> count s + 1 \<le> limit s" using inc_le_word by blast
  moreover obtain cs where "out s' = out s @ cs" "settles cs = 1" using b(6) by blast
  ultimately show ?thesis using b(1,2) assms(2) by (simp add: rx_counts_def algebra_simps)
next
  case (2 cs)
  then show ?thesis using assms(2) by (simp add: rx_view_def rx_counts_def)
next
  case (3 d)
  then show ?thesis using assms(2) by (simp add: rx_view_def rx_counts_def)
qed

lemma rcv_loop_body_quiet:
  assumes "rcv_loop_body clock loc s = Inr (loc', s')"
  shows "\<exists>cs. out s' = out s @ cs \<and> settles cs = 0 \<and> limit s' = limit s \<and> count s' = count s
    \<and> g_link s' = g_link s
    \<and> (stop s \<longrightarrow> PnConnectionClose \<in> set cs \<and> (g_link s \<longrightarrow> PnLinkClose \<in> set cs))"
proof -
  obtain deadline printed where loc: "loc = (deadline, printed)" by (cases loc)
  show ?thesis
  proof (cases "stop s")
    case True
    then obtain k where s': "s' = close_endpoints (s\<lparr>clk := k\<rparr>)"
      using assms loc by (auto simp: rcv_loop_body_def bnd_eq_Inr dest!: now_usec_Inr)
    show ?thesis unfolding s' close_endpoints_def by (intro exI conjI) auto
  next
    case False
    then have "s' = s\<lparr>clk := clk s'\<rparr>"
      using assms loc
      by (cases "deadline = 0") (auto simp: rcv_loop_body_def bnd_eq_Inr dest!: now_usec_Inr split: if_splits)
    then obtain k where "s' = s\<lparr>clk := k\<rparr>" by blast
    with False show ?thesis by (intro exI [of _ "[]"]) simp
  qed
qed

text \<open>Over a whole program the receiver settles exactly the messages it counts, never counts
  more than its limit, and when the last round found it stopped it has closed the connection,
  and the link if it had one.\<close>

theorem rcv_program_invariant:
  assumes "rcv_main clock decode opts (ess @ [es]) = Inr s"
  shows "of_nat (settles (out s)) = count s \<and> (limit s = 0 \<or> count s \<le> limit s)
    \<and> (stop s \<longrightarrow> PnReactorWakeup \<in> set (out s) \<and> PnConnectionClose \<in> set (out s)
         \<and> (g_link s \<longrightarrow> PnLinkClose \<in> set (out s)))"
proof -
  let ?R = "main_round (rcv_event_handler clock decode) (rcv_loop_body clock)"
  obtain d loc t where t: "rcv_fresh t"
    "run ?R ((d, False), emit [PnSetContainer (container_name t), PnSetHostname (host_address t)] t) (ess @ [es]) = Inr (loc, s)"
    using assms by (rule rcv_main_run)
  then obtain ls where ls: "run ?R ls [es] = Inr (loc, s)"
    by (auto simp: run_append bnd_eq_Inr)
  then obtain u where u: "rcv_loop_body clock (fst ls) u = Inr (loc, s)"
    by (auto simp: main_round_def bnd_eq_Inr)
  have "rx_counts (snd (loc, s))"
  proof (rule run_preserves [where P = "\<lambda>ls. rx_counts (snd ls)", OF _ _ t(2)])
    show "rx_counts (snd ((d, False), emit [PnSetContainer (container_name t), PnSetHostname (host_address t)] t))"
      using t(1) by (simp add: rcv_fresh_def rx_counts_def)
  next
    fix ls es ls'
    assume a: "rx_counts (snd ls)" "?R ls es = Inr ls'"
    then obtain v where v: "run (rcv_event_handler clock decode) (snd ls) es = Inr v"
      "rcv_loop_body clock (fst ls) v = Inr (fst ls', snd ls')"
      by (auto simp: main_round_def bnd_eq_Inr)
    have "rx_counts v"
      by (rule run_preserves [where P = rx_counts, OF _ a(1) v(1)]) (rule rx_law_counts [OF rcv_event_law])
    then show "rx_counts (snd ls')"
      using rcv_loop_body_quiet [OF v(2)] by (auto simp: rx_counts_def)
  qed
  moreover have "stop s \<longrightarrow> PnReactorWakeup \<in> set (out s)"
    using rcv.round.run_stop_wakes [OF t(2)] t(1) by (auto simp: rcv_fresh_def)
  moreover have "stop u = stop s" using rcv.body_stopped [OF u] by simp
  ultimately show ?thesis
    using rcv_loop_body_quiet [OF u] by (auto simp: rx_counts_def)
qed

theorem rcv_program_invariant_witness:
  "\<exists>s. rcv_main steady_clock (\<lambda>bs n. Inl (- 1)) [(CHR ''c'', ''1'')]
         ([] @ [[CONNECTION_INIT, sample_delivery 9, sample_delivery 8]]) = Inr s
     \<and> count s = 1 \<and> settles (out s) = 1 \<and> PnLinkClose \<in> set (out s)"
proof -
  have "scan_u64 ''1'' = Some 1"
    by (simp add: scan_u64_def scan_number_def read_sign_def is_space_def is_digit_def strtoul_def)
  then obtain s where s: "rcv_main steady_clock (\<lambda>bs n. Inl (- 1)) [(CHR ''c'', ''1'')]
         ([] @ [[CONNECTION_INIT, sample_delivery 9, sample_delivery 8]]) = Inr s"
      "count s = 1" "settles (out s) = 1" "stop s" "g_link s"
    by (simp add: rcv_main_def rcv_option_def main_round_def rcv_connection_init_def rcv_globals_def whole_def
        rcv_delivery_def rcv_read_timestamp_def regrant_def signed_divide_int_def emit_def rcv_loop_body_def
        close_endpoints_def)
  from rcv_program_invariant [OF s(1)] s show ?thesis by blast
qed

text \<open>A \<open>pn_link_recv()\<close> that reports an error is taken for a message: its negative code
  becomes a length of almost \<open>2 ^ 64\<close> bytes that passes the test \<open>len > 0\<close>, and the decoder is
  asked to read that many from the 64 kB buffer.\<close>

theorem rcv_recv_error_is_a_length:
  assumes "recvs d = Inl err # rs" and "- (2 ^ 31) \<le> err" and "err < 0"
  shows "0 < fst (rcv_recv d s) \<and> 2 ^ 64 - 2 ^ 31 \<le> unat (fst (rcv_recv d s))
    \<and> snd (rcv_recv d s) = s"
proof -
  have "uint (word_of_int err :: u64) = err mod 2 ^ 64" by (simp add: unsigned_of_int take_bit_eq_mod)
  also have "\<dots> = (err + 2 ^ 64) mod 2 ^ 64" by simp
  also have "\<dots> = err + 2 ^ 64" using assms(2,3) by (intro mod_pos_pos_trivial) simp_all
  finally have u: "uint (word_of_int err :: u64) = err + 2 ^ 64" .
  then have "unat (word_of_int err :: u64) = nat (err + 2 ^ 64)" by (metis nat_uint_eq)
  moreover from this have "0 < (word_of_int err :: u64)"
    using assms(2) by (simp add: word_less_nat_alt)
  ultimately show ?thesis using assms by (simp add: rcv_recv_def nat_le_eq_zle)
qed

theorem rcv_recv_error_is_a_length_witness:
  "0 < fst (rcv_recv \<lparr>readable = True, partial = False, pending = 3, recvs = [Inl PN_EOS], dlv_credit = 5\<rparr> rcv_globals)"
  using rcv_recv_error_is_a_length [of "\<lparr>readable = True, partial = False, pending = 3, recvs = [Inl PN_EOS], dlv_credit = 5\<rparr>" PN_EOS "[]"]
  by (simp add: PN_EOS_def)

lemma sdiv_of_nat: "int a sdiv int b = int (a div b)"
  by (auto simp: signed_divide_int_def sgn_if zdiv_int)

text \<open>The latency report of the receiver is exact for the latencies it recorded, as long as they
  are not negative: their integer mean and variance, and bounds that hold for each.\<close>

theorem rcv_report_exact:
  assumes "xs \<noteq> []" and "s = foldl rcv_record_latency rcv_globals (map int xs)"
  shows "rcv_report s = Some (int (sum_list xs div length xs), int (nat_variance xs))
    \<and> (\<forall>x\<in>set xs. min_latency s \<le> int x \<and> int x \<le> max_latency s)"
proof -
  have n: "latency_count (foldl rcv_record_latency u ys) = latency_count u + int (length ys)" for u ys
    by (induction ys arbitrary: u) (simp_all add: rcv_record_latency_def Let_def)
  have c: "latency_count s = int (length xs)"
    using n [of rcv_globals "map int xs"] assms(2) by (simp add: rcv_globals_def)
  have "sum_list (map int ys) = int (sum_list ys)" for ys by (induction ys) simp_all
  moreover have "sum_list (map (\<lambda>x. x * x) (map int ys)) = int (sum_sq ys)" for ys by (induction ys) simp_all
  ultimately have tot: "total_latency s = int (sum_list xs)" "sum_of_squares s = int (sum_sq xs)"
    using rcv_stats.total_fold [of rcv_globals "map int xs"]
      rcv_stats.sumsq_fold [of rcv_globals "map int xs"] assms(2)
    by (simp_all only:) (simp_all add: rcv_globals_def)
  have "(sum_list xs div length xs) * (sum_list xs div length xs) \<le> sum_sq xs div length xs"
    using assms(1) square_sum_le by (intro mean_square_le) simp_all
  then have v: "int (sum_sq xs div length xs) - int (sum_list xs div length xs) * int (sum_list xs div length xs)
      = int (nat_variance xs)"
    by (simp add: nat_variance_def of_nat_diff)
  have "rcv_report s = Some (int (sum_list xs div length xs), int (nat_variance xs))"
    using assms(1) v unfolding rcv_report_def c tot Let_def
    by (simp only: sdiv_of_nat of_nat_eq_0_iff length_0_conv if_True simp_thms)
  then show ?thesis
    using rcv_stats.least_fold_bound [of _ rcv_globals "map int xs"]
      rcv_stats.largest_fold_bound [of _ "map int xs" rcv_globals] assms(2) by auto
qed

theorem rcv_report_exact_witness:
  "rcv_report (foldl rcv_record_latency rcv_globals [2, 4]) = Some (3, 1)"
  using rcv_report_exact [of "[2, 4]", OF _ refl]
  by (simp add: nat_variance_def numeral_2_eq_2 [symmetric])

end
