(* ===== verification/LatencyReceiver.thy ===== *)
theory LatencyReceiver
  imports Receiver
begin

text \<open>
  \<open>benchmarks/clients/src/latency-receiver.c\<close>: receives the messages of
  \<open>latency-sender.c\<close>, reads the send time from the body and keeps statistics of the latency. A
  message it cannot read or does not believe ends the process with status -1.
\<close>

section \<open>State and operations\<close>

record lreceiver = rx +
  min_latency :: u64
  max_latency :: u64
  total_latency :: u64
  sum_of_squares :: u64

definition MAX_SIZE :: nat where "MAX_SIZE = 1048576 * 2"

definition lrcv_globals :: lreceiver where
  "lrcv_globals = \<lparr>
     clk = 0, out = [], stop = False, limit = 0, count = 0,
     host_address = ''127.0.0.1:5672'', container_name = ''BenchReceiver'',
     g_ssn = False, g_link = False, sig_ign = False,
     credit_window = 1000, source_address = ''benchmark'',
     min_latency = - 1, max_latency = 0, total_latency = 0, sum_of_squares = 0\<rparr>"

text \<open>
  \<open>do { len = pn_link_recv(...); ... } while (len > 0)\<close>: the last \<open>len\<close> and the bytes read. After
  the answers listed the call returns \<open>PN_EOS\<close>.
\<close>

fun lrcv_recv_loop :: "(int + u8 list) list \<Rightarrow> u8 list \<Rightarrow> int \<times> u8 list" where
  "lrcv_recv_loop [] acc = (PN_EOS, acc)"
| "lrcv_recv_loop (Inl err # rs) acc = (err, acc)"
| "lrcv_recv_loop (Inr bs # rs) acc =
     (let bs = take (MAX_SIZE - length acc) bs
      in if bs = [] then (0, acc) else lrcv_recv_loop rs (acc @ bs))"

fun lrcv_timestamp :: "amqp option \<Rightarrow> u64 option" where
  "lrcv_timestamp (Some (AList (AUlong t # xs))) = Some t"
| "lrcv_timestamp _ = None"

definition lrcv_record_latency :: "lreceiver \<Rightarrow> u64 \<Rightarrow> lreceiver" where
  "lrcv_record_latency s latency =
     (let s = (if latency < min_latency s then s\<lparr>min_latency := latency\<rparr> else s);
          s = (if max_latency s < latency then s\<lparr>max_latency := latency\<rparr> else s);
          s = s\<lparr>total_latency := total_latency s + latency\<rparr>
      in s\<lparr>sum_of_squares := sum_of_squares s + latency * latency\<rparr>)"

definition lrcv_delivery :: "clock \<Rightarrow> decoder \<Rightarrow> delivery \<Rightarrow> lreceiver \<Rightarrow> halt + lreceiver" where
  "lrcv_delivery clock decode d s =
     (if limit s \<noteq> 0 \<and> count s = limit s then Inr s
      else if whole d then
        bnd (now_usec_u64 clock s) (\<lambda>(in_ts, s).
        let s = s\<lparr>count := count s + 1\<rparr> in
        if of_nat MAX_SIZE < pending d then Inl (Exit (- 1))
        else (case lrcv_recv_loop (recvs d) [] of (len, bs) \<Rightarrow>
          if len \<noteq> PN_EOS then Inl (Exit (- 1))
          else let s = emit [PnUpdate PN_ACCEPTED, PnSettle] s in
            (case decode bs (of_nat (length bs)) of
               Inl rc \<Rightarrow> Inl (Exit (- 1))
             | Inr body \<Rightarrow>
                 (case lrcv_timestamp body of
                    None \<Rightarrow> Inl (Exit (- 1))
                  | Some send_ts \<Rightarrow>
                      if send_ts = 0 \<or> in_ts < send_ts then Inl (Exit (- 1))
                      else let s = lrcv_record_latency s (in_ts - send_ts) in
                        if limit s \<noteq> 0 \<and> count s = limit s
                        then Inr (emit [PnReactorWakeup] (s\<lparr>stop := True\<rparr>))
                        else Inr (regrant (dlv_credit d) s)))))
      else Inr s)"

fun lrcv_event_handler :: "clock \<Rightarrow> decoder \<Rightarrow> lreceiver \<Rightarrow> rx_event \<Rightarrow> halt + lreceiver" where
  "lrcv_event_handler clock decode s CONNECTION_INIT = Inr (rcv_connection_init s)"
| "lrcv_event_handler clock decode s (DELIVERY d) = lrcv_delivery clock decode d s"
| "lrcv_event_handler clock decode s (SIGNAL sig) = Inr (signal_handler sig s)"
| "lrcv_event_handler clock decode s OTHER_EVENT = Inr s"

definition lrcv_option :: "opt \<Rightarrow> lreceiver \<Rightarrow> halt + lreceiver" where
  "lrcv_option p s =
     (case p of (c, optarg) \<Rightarrow>
      if c = CHR ''h'' then usage
      else if c = CHR ''a'' then Inr (s\<lparr>host_address := optarg\<rparr>)
      else if c = CHR ''c'' then
        (case scan_u64 optarg of None \<Rightarrow> usage | Some n \<Rightarrow> Inr (s\<lparr>limit := n\<rparr>))
      else if c = CHR ''i'' then Inr (s\<lparr>container_name := optarg\<rparr>)
      else if c = CHR ''s'' then Inr (s\<lparr>source_address := optarg\<rparr>)
      else if c = CHR ''w'' then rcv_window_option optarg s
      else usage)"

definition lrcv_loop_body :: "unit \<Rightarrow> lreceiver \<Rightarrow> halt + unit \<times> lreceiver" where
  "lrcv_loop_body loc s = Inr ((), if stop s then close_endpoints s else s)"

definition lrcv_main :: "clock \<Rightarrow> decoder \<Rightarrow> opt list \<Rightarrow> rx_event list list \<Rightarrow> halt + lreceiver" where
  "lrcv_main clock decode opts ess =
     bnd (parse_opts lrcv_option opts lrcv_globals) (\<lambda>s.
     bnd (run (main_round (lrcv_event_handler clock decode) lrcv_loop_body)
           ((), emit [PnSetContainer (container_name s), PnSetHostname (host_address s)] s) ess) (\<lambda>(loc, s). Inr s))"

definition lrcv_report :: "lreceiver \<Rightarrow> (u64 \<times> u64) option" where
  "lrcv_report s =
     (if count s \<noteq> 0 then
        (let lmean = total_latency s div count s;
             isos = sum_of_squares s div count s;
             isos = isos - lmean * lmean
         in Some (lmean, isos))
      else None)"

section \<open>What one event does\<close>

lemma emit_lreceiver [simp]:
  "min_latency (emit cs s) = min_latency s" "max_latency (emit cs s) = max_latency s"
  "total_latency (emit cs s) = total_latency s" "sum_of_squares (emit cs s) = sum_of_squares s"
  by (simp_all add: emit_def)

lemma lrcv_record_latency_view: "rx_view (lrcv_record_latency s x) = rx_view s"
  by (simp add: lrcv_record_latency_def rx_view_def Let_def)

lemma lrcv_record_latency_fields [simp]:
  "limit (lrcv_record_latency s x) = limit s" "count (lrcv_record_latency s x) = count s"
  by (simp_all add: lrcv_record_latency_def Let_def)

lemma regrant_statistics:
  "total_latency (regrant c s) = total_latency s" "sum_of_squares (regrant c s) = sum_of_squares s"
proof -
  obtain cs where "regrant c s = emit cs s" by (rule regrant_emits)
  then show "total_latency (regrant c s) = total_latency s" "sum_of_squares (regrant c s) = sum_of_squares s"
    by simp_all
qed

lemma lrcv_delivery_Inr:
  assumes "lrcv_delivery clock decode d s = Inr s'" and "\<not> at_limit s" and "whole d"
  obtains in_ts send_ts s1 bs body t where
    "now_usec_u64 clock s = Inr (in_ts, s1)" "pending d \<le> of_nat MAX_SIZE"
    "lrcv_recv_loop (recvs d) [] = (PN_EOS, bs)" "decode bs (of_nat (length bs)) = Inr body"
    "lrcv_timestamp body = Some send_ts" "send_ts \<noteq> 0" "send_ts \<le> in_ts"
    "t = lrcv_record_latency (emit [PnUpdate PN_ACCEPTED, PnSettle] (s\<lparr>clk := Suc (clk s), count := count s + 1\<rparr>))
           (in_ts - send_ts)"
    "s' = (if at_limit t then emit [PnReactorWakeup] (t\<lparr>stop := True\<rparr>) else regrant (dlv_credit d) t)"
proof -
  have n: "\<not> (limit s \<noteq> 0 \<and> count s = limit s)" using assms(2) by (simp add: at_limit_def)
  obtain in_ts s1 where t1: "now_usec_u64 clock s = Inr (in_ts, s1)"
    using assms(1) unfolding lrcv_delivery_def if_not_P [OF n] if_P [OF assms(3)] by (auto simp: bnd_eq_Inr)
  have s1: "s1 = s\<lparr>clk := Suc (clk s)\<rparr>" using now_usec_u64_Inr [OF t1] .
  obtain len bs where l: "lrcv_recv_loop (recvs d) [] = (len, bs)" by (cases "lrcv_recv_loop (recvs d) []")
  have p: "\<not> of_nat MAX_SIZE < pending d" and len: "len = PN_EOS"
    using assms(1) unfolding lrcv_delivery_def if_not_P [OF n] if_P [OF assms(3)]
    by (auto simp: t1 l Let_def split: if_splits)
  obtain body where b: "decode bs (of_nat (length bs)) = Inr body"
    using assms(1) p len unfolding lrcv_delivery_def if_not_P [OF n] if_P [OF assms(3)]
    by (auto simp: t1 l Let_def split: sum.splits)
  obtain send_ts where st: "lrcv_timestamp body = Some send_ts"
    using assms(1) p len b unfolding lrcv_delivery_def if_not_P [OF n] if_P [OF assms(3)]
    by (auto simp: t1 l Let_def split: option.splits)
  have ts: "\<not> (send_ts = 0 \<or> in_ts < send_ts)"
    using assms(1) p len b st unfolding lrcv_delivery_def if_not_P [OF n] if_P [OF assms(3)]
    by (simp add: t1 l Let_def split: if_splits)
  define t where "t = lrcv_record_latency (emit [PnUpdate PN_ACCEPTED, PnSettle]
    (s\<lparr>clk := Suc (clk s), count := count s + 1\<rparr>)) (in_ts - send_ts)"
  have s': "s' = (if at_limit t then emit [PnReactorWakeup] (t\<lparr>stop := True\<rparr>) else regrant (dlv_credit d) t)"
    using assms(1) p len b st ts unfolding lrcv_delivery_def if_not_P [OF n] if_P [OF assms(3)]
    by (auto simp: t1 l s1 Let_def t_def at_limit_def split: if_splits)
  have "pending d \<le> of_nat MAX_SIZE" "send_ts \<noteq> 0" "send_ts \<le> in_ts" using p ts by auto
  then show ?thesis using that [OF t1 _ l [unfolded len] b st _ _ t_def s'] by blast
qed

lemma lrcv_delivery_law:
  assumes "lrcv_delivery clock decode d s = Inr s'"
  shows "rx_step_law s (DELIVERY d) s'"
proof (cases "at_limit s \<or> \<not> whole d")
  case True
  then have "s' = s" using assms by (auto simp: lrcv_delivery_def at_limit_def split: if_splits)
  then show ?thesis using True
    by (auto simp: rx_step_law_def arrival_def rx_view_def split: option.splits intro: exI [of _ False])
next
  case False
  then have n: "\<not> at_limit s" "whole d" by simp_all
  obtain in_ts send_ts s1 bs body t where a:
    "now_usec_u64 clock s = Inr (in_ts, s1)" "pending d \<le> of_nat MAX_SIZE"
    "lrcv_recv_loop (recvs d) [] = (PN_EOS, bs)" "decode bs (of_nat (length bs)) = Inr body"
    "lrcv_timestamp body = Some send_ts" "send_ts \<noteq> 0" "send_ts \<le> in_ts"
    "t = lrcv_record_latency (emit [PnUpdate PN_ACCEPTED, PnSettle] (s\<lparr>clk := Suc (clk s), count := count s + 1\<rparr>))
           (in_ts - send_ts)"
    "s' = (if at_limit t then emit [PnReactorWakeup] (t\<lparr>stop := True\<rparr>) else regrant (dlv_credit d) t)"
    by (rule lrcv_delivery_Inr [OF assms n])
  have "rx_view t = (out s @ [PnUpdate PN_ACCEPTED, PnSettle], stop s, limit s, count s + 1,
      credit_window s, g_link s, g_ssn s)"
    unfolding a(8) lrcv_record_latency_view by (simp add: rx_view_def)
  then have "takes_message (dlv_credit d) s s'" unfolding takes_message_def
    by (intro exI [of _ t]) (simp add: a(9))
  then show ?thesis using False by (simp add: rx_step_law_def arrival_def)
qed

lemma lrcv_event_law:
  assumes "lrcv_event_handler clock decode s e = Inr s'"
  shows "rx_step_law s e s'"
proof (cases e)
  case CONNECTION_INIT
  with assms rcv_connection_init_law [of s] show ?thesis by simp
next
  case (DELIVERY d)
  then show ?thesis using assms lrcv_delivery_law by simp
next
  case (SIGNAL sig)
  then show ?thesis using assms rx_signal_law [of s sig] by simp
next
  case OTHER_EVENT
  then show ?thesis using assms rx_same_law [of OTHER_EVENT s] by (simp add: arrival_def)
qed

section \<open>The contracts\<close>

interpretation lrcv: stopping_loop "lrcv_event_handler clock decode" out stop PnReactorWakeup
    lrcv_loop_body for clock decode
proof
  fix s s' :: lreceiver and e
  assume "lrcv_event_handler clock decode s e = Inr s'"
  note l = rx_law_stop [OF lrcv_event_law [OF this]]
  show "\<exists>cs. out s' = out s @ cs" "stop s \<Longrightarrow> stop s'"
    "\<not> stop s \<Longrightarrow> stop s' \<Longrightarrow> PnReactorWakeup \<in> set (out s')"
    using l by blast+
next
  fix l l' and s s' :: lreceiver
  assume "lrcv_loop_body l s = Inr (l', s')"
  then show "\<exists>cs. out s' = out s @ cs" "stop s' = stop s"
    by (auto simp: lrcv_loop_body_def close_endpoints_def split: if_splits)
qed

interpretation lrcv: crediting_receiver "lrcv_event_handler clock decode" out credit_window at_limit
    "\<lambda>e. e = CONNECTION_INIT" arrival for clock decode
proof
  fix s s' :: lreceiver and e
  assume "lrcv_event_handler clock decode s e = Inr s'"
  note l = lrcv_event_law [OF this]
  show "credit_window s' = credit_window s" by (rule rx_law_window [OF l])
  show "e \<noteq> CONNECTION_INIT \<Longrightarrow> arrival e = None \<or> at_limit s \<Longrightarrow>
      credit_balance (out s') = credit_balance (out s) \<and> (at_limit s \<longrightarrow> at_limit s')"
    by (rule rx_law_quiet [OF l])
  show "credit_balance (out s') = credit_balance (out s) - 1
            + (if at_limit s' \<or> credit_window s sdiv 2 < c then 0 else credit_window s - c)"
    if "e \<noteq> CONNECTION_INIT" "arrival e = Some c" "\<not> at_limit s" "0 \<le> c" "0 < credit_window s"
      "credit_window s < 2 ^ 31" for c
    using rx_law_arrival [OF l that(2-6)] .
qed

interpretation lrcv_stats: latency_accumulator lrcv_record_latency total_latency sum_of_squares
    max_latency min_latency
  by unfold_locales (auto simp: lrcv_record_latency_def Let_def)

section \<open>Properties\<close>

text \<open>The latency receiver survives a message only if it could read all of it, decode it and
  find a send time that is neither zero nor in its own future; the latency it then adds is the
  difference of the two times as numbers, never a wrapped one.\<close>

theorem lrcv_latency_does_not_wrap:
  assumes "lrcv_delivery clock decode d s = Inr s'" and "\<not> at_limit s" and "whole d"
  shows "\<exists>in_ts s1 bs body send_ts.
      now_usec_u64 clock s = Inr (in_ts, s1)
    \<and> lrcv_recv_loop (recvs d) [] = (PN_EOS, bs) \<and> decode bs (of_nat (length bs)) = Inr body
    \<and> lrcv_timestamp body = Some send_ts \<and> 0 < send_ts
    \<and> total_latency s' = total_latency s + (in_ts - send_ts)
    \<and> unat (in_ts - send_ts) + unat send_ts = unat in_ts"
proof -
  obtain in_ts send_ts s1 bs body t where a:
    "now_usec_u64 clock s = Inr (in_ts, s1)" "pending d \<le> of_nat MAX_SIZE"
    "lrcv_recv_loop (recvs d) [] = (PN_EOS, bs)" "decode bs (of_nat (length bs)) = Inr body"
    "lrcv_timestamp body = Some send_ts" "send_ts \<noteq> 0" "send_ts \<le> in_ts"
    "t = lrcv_record_latency (emit [PnUpdate PN_ACCEPTED, PnSettle] (s\<lparr>clk := Suc (clk s), count := count s + 1\<rparr>))
           (in_ts - send_ts)"
    "s' = (if at_limit t then emit [PnReactorWakeup] (t\<lparr>stop := True\<rparr>) else regrant (dlv_credit d) t)"
    by (rule lrcv_delivery_Inr [OF assms])
  have "total_latency s' = total_latency t" using a(9) by (simp add: regrant_statistics)
  moreover have "total_latency t = total_latency s + (in_ts - send_ts)"
    by (simp add: a(8) lrcv_record_latency_def Let_def)
  moreover have "unat (in_ts - send_ts) + unat send_ts = unat in_ts"
    using a(7) by (simp add: unat_sub word_le_nat_alt)
  moreover have "0 < send_ts" using a(6) by (simp add: word_neq_0_conv)
  ultimately show ?thesis using a(1,3-5) by auto
qed

theorem lrcv_latency_does_not_wrap_witness:
  "\<exists>s'. lrcv_delivery steady_clock (\<lambda>bs n. Inr (Some (AList [AUlong 2000000])))
         \<lparr>readable = True, partial = False, pending = 1, recvs = [Inr [9]], dlv_credit = 900\<rparr>
         (lrcv_globals\<lparr>clk := 5\<rparr>) = Inr s' \<and> total_latency s' = 3000000"
proof -
  let ?d = "\<lparr>readable = True, partial = False, pending = 1, recvs = [Inr [9]], dlv_credit = 900\<rparr>"
    and ?f = "\<lambda>bs n. Inr (Some (AList [AUlong 2000000]))"
  have "\<exists>s'. lrcv_delivery steady_clock ?f ?d (lrcv_globals\<lparr>clk := 5\<rparr>) = Inr s'"
    by (simp add: lrcv_delivery_def lrcv_globals_def whole_def MAX_SIZE_def PN_EOS_def Let_def
        lrcv_record_latency_def emit_def)
  then obtain s' where s': "lrcv_delivery steady_clock ?f ?d (lrcv_globals\<lparr>clk := 5\<rparr>) = Inr s'" by blast
  have "\<not> at_limit (lrcv_globals\<lparr>clk := 5\<rparr>)" "whole ?d" by (simp_all add: at_limit_def lrcv_globals_def whole_def)
  from lrcv_latency_does_not_wrap [OF s' this] s' show ?thesis by (auto simp: lrcv_globals_def)
qed

text \<open>The latency receiver takes the bytes of a message in the order Proton gives them: when every
  read gives some bytes, it has them all at the end and no more than its buffer holds.\<close>

theorem lrcv_reads_whole_message:
  assumes "\<forall>bs\<in>set bss. bs \<noteq> []" and "length (concat bss) \<le> MAX_SIZE"
  shows "lrcv_recv_loop (map Inr bss) [] = (PN_EOS, concat bss)"
proof -
  have "lrcv_recv_loop (map Inr bss) acc = (PN_EOS, acc @ concat bss)"
    if "\<forall>bs\<in>set bss. bs \<noteq> []" "length acc + length (concat bss) \<le> MAX_SIZE" for acc
    using that
  proof (induction bss arbitrary: acc)
    case (Cons bs bss)
    then have "take (MAX_SIZE - length acc) bs = bs" by simp
    with Cons show ?case by simp
  qed simp
  from this [of "[]"] assms show ?thesis by simp
qed

theorem lrcv_reads_whole_message_witness:
  "lrcv_recv_loop (map Inr [[1, 2], [3]]) [] = (PN_EOS, [1, 2, 3])"
  using lrcv_reads_whole_message [of "[[1, 2], [3]]"] by (simp add: MAX_SIZE_def)

end
