(* ===== verification/ThroughputReceiver.thy ===== *)
theory ThroughputReceiver
  imports Receiver
begin

text \<open>
  \<open>benchmarks/clients/src/throughput-receiver.c\<close>: counts messages, and their bytes on demand,
  as a client that connects or as a server that accepts one connection. In server mode the
  handlers of the acceptor and of the accepted connection replace the client's handler.
\<close>

section \<open>State and operations\<close>

text \<open>\<open>conn\<close> and \<open>acceptor\<close> say whether the pointers \<open>pn_conn\<close> and \<open>acceptor\<close> are set.\<close>

record treceiver = rx +
  start_ts :: u64
  stop_ts :: u64
  server_mode :: bool
  bytes_throughput :: bool
  conn :: bool
  acceptor :: bool
  total_bytes :: u64

definition trcv_globals :: treceiver where
  "trcv_globals = \<lparr>
     clk = 0, out = [], stop = False, limit = 0, count = 0,
     host_address = ''127.0.0.1:5672'', container_name = ''ThroughputReceiver'',
     g_ssn = False, g_link = False, sig_ign = False,
     credit_window = 1000, source_address = ''test-throughput'',
     start_ts = 0, stop_ts = 0, server_mode = False, bytes_throughput = False,
     conn = False, acceptor = False, total_bytes = 0\<rparr>"

text \<open>The events, by the handler they reach.\<close>

datatype trcv_event =
    OUTGOING rx_event
  | SESSION_REMOTE_OPEN
  | LINK_REMOTE_OPEN
  | INCOMING_DELIVERY delivery
  | CONNECTION_REMOTE_CLOSE
  | ACCEPTOR_CONNECTION_INIT

definition trcv_mark_stop :: "clock \<Rightarrow> treceiver \<Rightarrow> halt + treceiver" where
  "trcv_mark_stop clock s =
     (if stop_ts s = 0 then bnd (now_usec_u64 clock s) (\<lambda>(t, s). Inr (s\<lparr>stop_ts := t\<rparr>)) else Inr s)"

definition trcv_signal_handler :: "clock \<Rightarrow> signal \<Rightarrow> treceiver \<Rightarrow> halt + treceiver" where
  "trcv_signal_handler clock sig s =
     (if sig_ign s then Inr s
      else let s = s\<lparr>sig_ign := True\<rparr> in
        (case sig of
           SIGOTHER \<Rightarrow> Inr s
         | _ \<Rightarrow> bnd (trcv_mark_stop clock (s\<lparr>stop := True\<rparr>)) (\<lambda>s. Inr (emit [PnReactorWakeup] s))))"

text \<open>
  \<open>while ((rc = pn_link_recv(...)) != PN_EOS) total_bytes += rc\<close>, with 2097152 bytes of room
  for each read.
\<close>

definition SCRATCH :: nat where "SCRATCH = 2097152"

fun trcv_drain :: "(int + u8 list) list \<Rightarrow> u64 \<Rightarrow> u64" where
  "trcv_drain [] n = n"
| "trcv_drain (Inl rc # rs) n = (if rc = PN_EOS then n else trcv_drain rs (n + word_of_int rc))"
| "trcv_drain (Inr bs # rs) n = trcv_drain rs (n + of_nat (min SCRATCH (length bs)))"

definition handle_delivery :: "clock \<Rightarrow> delivery \<Rightarrow> treceiver \<Rightarrow> halt + treceiver" where
  "handle_delivery clock d s =
     (if limit s \<noteq> 0 \<and> count s = limit s then Inr s
      else if whole d then
        bnd (if start_ts s = 0 then bnd (now_usec_u64 clock s) (\<lambda>(t, s). Inr (s\<lparr>start_ts := t\<rparr>)) else Inr s) (\<lambda>s.
        let s = s\<lparr>count := count s + 1\<rparr>;
            s = emit [PnUpdate PN_ACCEPTED] s;
            s = (if bytes_throughput s then s\<lparr>total_bytes := trcv_drain (recvs d) (total_bytes s)\<rparr> else s);
            s = emit [PnSettle] s
        in if limit s \<noteq> 0 \<and> count s = limit s
           then bnd (trcv_mark_stop clock (s\<lparr>stop := True\<rparr>)) (\<lambda>s. Inr (emit [PnReactorWakeup] s))
           else Inr (regrant (dlv_credit d) s))
      else Inr s)"

fun outgoing_conn_event_handler :: "clock \<Rightarrow> treceiver \<Rightarrow> rx_event \<Rightarrow> halt + treceiver" where
  "outgoing_conn_event_handler clock s CONNECTION_INIT = Inr (rcv_connection_init s)"
| "outgoing_conn_event_handler clock s (DELIVERY d) = handle_delivery clock d s"
| "outgoing_conn_event_handler clock s (SIGNAL sig) = trcv_signal_handler clock sig s"
| "outgoing_conn_event_handler clock s OTHER_EVENT = Inr s"

definition acceptor_connection_init :: "treceiver \<Rightarrow> halt + treceiver" where
  "acceptor_connection_init s =
     (if \<not> server_mode s then Inl Abort
      else if conn s then Inr (emit [PnConnectionReject] s)
      else Inr (emit [PnSetContainer (container_name s), PnSetHostname (host_address s)] (s\<lparr>conn := True\<rparr>)))"

definition trcv_link_remote_open :: "treceiver \<Rightarrow> halt + treceiver" where
  "trcv_link_remote_open s =
     (if g_link s then Inl Abort
      else Inr (emit [PnSetSource (source_address s), PnLinkOpen, PnLinkFlow (credit_window s)]
                  (s\<lparr>g_link := True\<rparr>)))"

definition trcv_remote_close :: "clock \<Rightarrow> treceiver \<Rightarrow> halt + treceiver" where
  "trcv_remote_close clock s =
     bnd (trcv_mark_stop clock s) (\<lambda>s.
     if acceptor s then Inr (emit [PnAcceptorClose] s) else Inl Abort)"

fun trcv_event_handler :: "clock \<Rightarrow> treceiver \<Rightarrow> trcv_event \<Rightarrow> halt + treceiver" where
  "trcv_event_handler clock s (OUTGOING e) = outgoing_conn_event_handler clock s e"
| "trcv_event_handler clock s SESSION_REMOTE_OPEN =
     (if g_ssn s then Inl Abort else Inr (emit [PnSessionOpen] (s\<lparr>g_ssn := True\<rparr>)))"
| "trcv_event_handler clock s LINK_REMOTE_OPEN = trcv_link_remote_open s"
| "trcv_event_handler clock s (INCOMING_DELIVERY d) = handle_delivery clock d s"
| "trcv_event_handler clock s CONNECTION_REMOTE_CLOSE = trcv_remote_close clock s"
| "trcv_event_handler clock s ACCEPTOR_CONNECTION_INIT = acceptor_connection_init s"

section \<open>\<open>main\<close>\<close>

definition trcv_option :: "opt \<Rightarrow> treceiver \<Rightarrow> halt + treceiver" where
  "trcv_option p s =
     (case p of (c, optarg) \<Rightarrow>
      if c = CHR ''h'' then usage
      else if c = CHR ''a'' then Inr (s\<lparr>host_address := optarg\<rparr>)
      else if c = CHR ''c'' then
        (case scan_u64 optarg of None \<Rightarrow> usage | Some n \<Rightarrow> Inr (s\<lparr>limit := n\<rparr>))
      else if c = CHR ''i'' then Inr (s\<lparr>container_name := optarg\<rparr>)
      else if c = CHR ''s'' then Inr (s\<lparr>source_address := optarg\<rparr>)
      else if c = CHR ''B'' then Inr (s\<lparr>bytes_throughput := True\<rparr>)
      else if c = CHR ''S'' then Inr (s\<lparr>server_mode := True\<rparr>)
      else if c = CHR ''w'' then rcv_window_option optarg s
      else usage)"

text \<open>Where the server listens: the address split at its last colon, with defaults for empty halves.\<close>

definition trcv_listen_address :: "string \<Rightarrow> string \<times> string" where
  "trcv_listen_address addr =
     (let (host, port) = (case split_last CHR '':'' addr of
                            None \<Rightarrow> (None, None)
                          | Some (h, p) \<Rightarrow> (if h = [] then None else Some h, if p = [] then None else Some p))
      in (case host of None \<Rightarrow> addr | Some h \<Rightarrow> h, case port of None \<Rightarrow> ''5672'' | Some p \<Rightarrow> p))"

definition trcv_loop_body :: "unit \<Rightarrow> treceiver \<Rightarrow> halt + unit \<times> treceiver" where
  "trcv_loop_body loc s =
     Inr ((), if stop s
              then emit ((if g_link s then [PnLinkClose] else [])
                         @ (if g_ssn s then [PnSessionClose] else [])
                         @ (if conn s then [PnConnectionClose] else [])
                         @ (if acceptor s then [PnAcceptorClose] else [])) s
              else s)"

text \<open>\<open>acc\<close>: whether \<open>pn_reactor_acceptor()\<close> gave an acceptor for the host and port.\<close>

definition trcv_main ::
    "clock \<Rightarrow> (string \<Rightarrow> string \<Rightarrow> bool) \<Rightarrow> opt list \<Rightarrow> trcv_event list list \<Rightarrow> halt + treceiver" where
  "trcv_main clock acc opts ess =
     bnd (parse_opts trcv_option opts trcv_globals) (\<lambda>s.
     bnd (if server_mode s
          then (case trcv_listen_address (host_address s) of (host, port) \<Rightarrow>
                if acc host port then Inr (s\<lparr>acceptor := True\<rparr>) else Inl Abort)
          else Inr (emit [PnSetContainer (container_name s), PnSetHostname (host_address s)] (s\<lparr>conn := True\<rparr>))) (\<lambda>s.
     bnd (run (main_round (trcv_event_handler clock) trcv_loop_body) ((), s) ess) (\<lambda>(loc, s). Inr s)))"

text \<open>The report: duration in microseconds, messages and bytes per second.\<close>

definition trcv_report :: "treceiver \<Rightarrow> (u64 \<times> rat \<times> rat option) option" where
  "trcv_report s =
     (if count s \<noteq> 0 then
        (let duration = stop_ts s - start_ts s;
             sec = of_nat (unat duration) / of_int USECS_PER_SECOND;
             rate = (\<lambda>n. if 1 < sec then of_nat (unat n) / sec else of_nat (unat n))
         in Some (duration, rate (count s), if total_bytes s \<noteq> 0 then Some (rate (total_bytes s)) else None))
      else None)"

section \<open>What one event does\<close>

lemma emit_treceiver [simp]:
  "start_ts (emit cs s) = start_ts s" "stop_ts (emit cs s) = stop_ts s"
  "server_mode (emit cs s) = server_mode s" "bytes_throughput (emit cs s) = bytes_throughput s"
  "conn (emit cs s) = conn s" "acceptor (emit cs s) = acceptor s" "total_bytes (emit cs s) = total_bytes s"
  by (simp_all add: emit_def)

lemma trcv_mark_stop_view:
  "trcv_mark_stop clock s = Inr s' \<Longrightarrow> rx_view s' = rx_view s \<and> total_bytes s' = total_bytes s"
  by (auto simp: trcv_mark_stop_def rx_view_def bnd_eq_Inr dest!: now_usec_u64_Inr split: if_splits)

lemma regrant_total_bytes: "total_bytes (regrant c s) = total_bytes s"
proof -
  obtain cs where "regrant c s = emit cs s" by (rule regrant_emits)
  then show ?thesis by simp
qed

lemma handle_delivery_takes:
  assumes "handle_delivery clock d s = Inr s'" and "\<not> at_limit s" and "whole d"
  shows "takes_message (dlv_credit d) s s'
    \<and> total_bytes s' = (if bytes_throughput s then trcv_drain (recvs d) (total_bytes s) else total_bytes s)"
proof -
  have n: "\<not> (limit s \<noteq> 0 \<and> count s = limit s)" using assms(2) by (simp add: at_limit_def)
  obtain t where t: "(if start_ts s = 0 then bnd (now_usec_u64 clock s) (\<lambda>(t, s). Inr (s\<lparr>start_ts := t\<rparr>))
      else Inr s) = Inr t"
    using assms(1) unfolding handle_delivery_def if_not_P [OF n] if_P [OF assms(3)] bnd_eq_Inr by blast
  have ft: "rx_view t = rx_view s" "bytes_throughput t = bytes_throughput s" "total_bytes t = total_bytes s"
    using t by (auto simp: rx_view_def bnd_eq_Inr dest!: now_usec_u64_Inr split: if_splits)
  define u where "u = emit [PnUpdate PN_ACCEPTED, PnSettle] (t\<lparr>count := count t + 1,
      total_bytes := (if bytes_throughput t then trcv_drain (recvs d) (total_bytes t) else total_bytes t)\<rparr>)"
  define a where "a = emit [PnUpdate PN_ACCEPTED] (t\<lparr>count := count t + 1\<rparr>)"
  define b where "b = (if bytes_throughput a then a\<lparr>total_bytes := trcv_drain (recvs d) (total_bytes a)\<rparr> else a)"
  have bu: "emit [PnSettle] b = u"
    by (cases "bytes_throughput t") (simp_all add: a_def b_def u_def emit_def)
  have "(if at_limit (emit [PnSettle] b)
           then bnd (trcv_mark_stop clock ((emit [PnSettle] b)\<lparr>stop := True\<rparr>)) (\<lambda>s. Inr (emit [PnReactorWakeup] s))
           else Inr (regrant (dlv_credit d) (emit [PnSettle] b))) = Inr s'"
    using assms(1) unfolding handle_delivery_def if_not_P [OF n] if_P [OF assms(3)] t a_def b_def at_limit_def Let_def
    by (simp only: bnd_Inr)
  then have s': "(if at_limit u
           then bnd (trcv_mark_stop clock (u\<lparr>stop := True\<rparr>)) (\<lambda>s. Inr (emit [PnReactorWakeup] s))
           else Inr (regrant (dlv_credit d) u)) = Inr s'" unfolding bu .
  have vu: "rx_view u = (out s @ [PnUpdate PN_ACCEPTED, PnSettle], stop s, limit s, count s + 1,
      credit_window s, g_link s, g_ssn s)"
    using ft(1) by (simp add: u_def rx_view_def)
  have "rx_view s' = rx_view (if at_limit u then emit [PnReactorWakeup] (u\<lparr>stop := True\<rparr>) else regrant (dlv_credit d) u)
      \<and> total_bytes s' = total_bytes u"
  proof (cases "at_limit u")
    case True
    then obtain v where v: "trcv_mark_stop clock (u\<lparr>stop := True\<rparr>) = Inr v" "s' = emit [PnReactorWakeup] v"
      using s' by (auto simp: bnd_eq_Inr)
    from trcv_mark_stop_view [OF v(1)] show ?thesis using True v(2) by (simp add: rx_view_def)
  next
    case False
    then show ?thesis using s' by (auto simp: regrant_total_bytes)
  qed
  moreover have "total_bytes u = (if bytes_throughput s then trcv_drain (recvs d) (total_bytes s) else total_bytes s)"
    using ft by (simp add: u_def)
  ultimately show ?thesis using vu unfolding takes_message_def by (intro conjI exI [of _ u]) simp_all
qed

lemma handle_delivery_law:
  assumes "handle_delivery clock d s = Inr s'"
  shows "rx_step_law s (DELIVERY d) s'"
proof (cases "at_limit s \<or> \<not> whole d")
  case True
  then have "s' = s" using assms by (auto simp: handle_delivery_def at_limit_def split: if_splits)
  then show ?thesis using True
    by (auto simp: rx_step_law_def arrival_def rx_view_def split: option.splits intro: exI [of _ False])
next
  case False
  then show ?thesis using handle_delivery_takes [OF assms] by (simp add: rx_step_law_def arrival_def)
qed

lemma trcv_signal_law:
  assumes "trcv_signal_handler clock sig s = Inr s'"
  shows "rx_step_law s (SIGNAL sig) s'"
proof (cases "sig_ign s \<or> sig = SIGOTHER")
  case True
  then have "rx_view s' = rx_view s" using assms
    by (auto simp: trcv_signal_handler_def rx_view_def Let_def split: if_splits)
  then show ?thesis
    by (auto simp: rx_step_law_def arrival_def rx_view_def intro: exI [of _ False])
next
  case False
  then obtain t where t: "trcv_mark_stop clock (s\<lparr>sig_ign := True, stop := True\<rparr>) = Inr t"
    "s' = emit [PnReactorWakeup] t"
    using assms by (cases sig) (auto simp: trcv_signal_handler_def Let_def bnd_eq_Inr)
  from trcv_mark_stop_view [OF t(1)] t(2) show ?thesis
    by (auto simp: rx_step_law_def arrival_def rx_view_def intro: exI [of _ True])
qed

lemma outgoing_law:
  assumes "outgoing_conn_event_handler clock s e = Inr s'"
  shows "rx_step_law s e s'"
proof (cases e)
  case CONNECTION_INIT
  with assms rcv_connection_init_law [of s] show ?thesis by simp
next
  case (DELIVERY d)
  then show ?thesis using assms handle_delivery_law by simp
next
  case (SIGNAL sig)
  then show ?thesis using assms trcv_signal_law by simp
next
  case OTHER_EVENT
  then show ?thesis using assms rx_same_law [of OTHER_EVENT s] by (simp add: arrival_def)
qed

section \<open>The contracts\<close>

interpretation trcv: crediting_receiver "outgoing_conn_event_handler clock" out credit_window at_limit
    "\<lambda>e. e = CONNECTION_INIT" arrival for clock
proof
  fix s s' :: treceiver and e
  assume "outgoing_conn_event_handler clock s e = Inr s'"
  note l = outgoing_law [OF this]
  show "credit_window s' = credit_window s" by (rule rx_law_window [OF l])
  show "e \<noteq> CONNECTION_INIT \<Longrightarrow> arrival e = None \<or> at_limit s \<Longrightarrow>
      credit_balance (out s') = credit_balance (out s) \<and> (at_limit s \<longrightarrow> at_limit s')"
    by (rule rx_law_quiet [OF l])
  show "credit_balance (out s') = credit_balance (out s) - 1
            + (if at_limit s' \<or> credit_window s sdiv 2 < c then 0 else credit_window s - c)"
    if "e \<noteq> CONNECTION_INIT" "arrival e = Some c" "\<not> at_limit s" "0 \<le> c" "0 < credit_window s"
      "credit_window s < 2 ^ 31" for c
    using rx_law_arrival [OF l that(2-6)] .
qed

text \<open>Messages reach the client and the server through the same \<open>handle_delivery()\<close>.\<close>

definition trcv_arrival :: "trcv_event \<Rightarrow> int option" where
  "trcv_arrival e = (case e of OUTGOING e \<Rightarrow> arrival e | INCOMING_DELIVERY d \<Rightarrow> arrival (DELIVERY d) | _ \<Rightarrow> None)"

lemma trcv_event_law:
  assumes "trcv_event_handler clock s e = Inr s'"
  shows "rx_counts s \<Longrightarrow> rx_counts s'"
    and "(\<exists>cs. out s' = out s @ cs) \<and> (stop s \<longrightarrow> stop s')
      \<and> (\<not> stop s \<longrightarrow> stop s' \<longrightarrow> PnReactorWakeup \<in> set (out s'))"
proof -
  have "(\<exists>e. rx_step_law s e s') \<or> (\<exists>cs. out s' = out s @ cs \<and> settles cs = 0
      \<and> stop s' = stop s \<and> limit s' = limit s \<and> count s' = count s)"
  proof (cases e)
    case (OUTGOING e')
    then have "rx_step_law s e' s'" using assms by (intro outgoing_law) simp
    then show ?thesis by blast
  next
    case (INCOMING_DELIVERY d)
    then have "rx_step_law s (DELIVERY d) s'" using assms by (intro handle_delivery_law) simp
    then show ?thesis by blast
  next
    case CONNECTION_REMOTE_CLOSE
    then obtain t where t: "trcv_mark_stop clock s = Inr t" "s' = emit [PnAcceptorClose] t"
      using assms by (auto simp: trcv_remote_close_def bnd_eq_Inr split: if_splits)
    from trcv_mark_stop_view [OF t(1)] t(2) show ?thesis by (simp add: rx_view_def)
  qed (use assms in \<open>auto simp: trcv_link_remote_open_def acceptor_connection_init_def emit_def split: if_splits\<close>)
  then show "rx_counts s \<Longrightarrow> rx_counts s'"
    "(\<exists>cs. out s' = out s @ cs) \<and> (stop s \<longrightarrow> stop s')
      \<and> (\<not> stop s \<longrightarrow> stop s' \<longrightarrow> PnReactorWakeup \<in> set (out s'))"
    using rx_law_counts [of s _ s'] rx_law_stop [of s _ s'] by (auto simp: rx_counts_def)
qed

interpretation trcv: stopping_loop "trcv_event_handler clock" out stop PnReactorWakeup
    trcv_loop_body for clock
proof
  fix s s' :: treceiver and e
  assume "trcv_event_handler clock s e = Inr s'"
  note l = trcv_event_law(2) [OF this]
  show "\<exists>cs. out s' = out s @ cs" "stop s \<Longrightarrow> stop s'"
    "\<not> stop s \<Longrightarrow> stop s' \<Longrightarrow> PnReactorWakeup \<in> set (out s')"
    using l by blast+
next
  fix l l' and s s' :: treceiver
  assume "trcv_loop_body l s = Inr (l', s')"
  then show "\<exists>cs. out s' = out s @ cs" "stop s' = stop s"
    by (auto simp: trcv_loop_body_def split: if_splits)
qed

section \<open>Properties\<close>

text \<open>In byte mode the throughput receiver adds exactly the bytes of a message to
  \<open>total_bytes\<close>, however they are split over the reads, when Proton reports no error.\<close>

theorem trcv_counts_message_bytes:
  assumes "handle_delivery clock d s = Inr s'" and "\<not> at_limit s" and "whole d"
    and "recvs d = map Inr bss" and "\<forall>bs\<in>set bss. length bs \<le> SCRATCH"
  shows "total_bytes s' = total_bytes s + (if bytes_throughput s then of_nat (length (concat bss)) else 0)
    \<and> count s' = count s + 1"
proof -
  have "trcv_drain (map Inr bss) n = n + of_nat (length (concat bss))" for n
    using assms(5) by (induction bss arbitrary: n) (simp_all add: algebra_simps)
  then show ?thesis
    using handle_delivery_takes [OF assms(1-3)] takes_message_basic(2) assms(4) by auto
qed

theorem trcv_counts_message_bytes_witness:
  "\<exists>s'. handle_delivery steady_clock
         \<lparr>readable = True, partial = False, pending = 3, recvs = map Inr [[1, 2], [3]], dlv_credit = 900\<rparr>
         (trcv_globals\<lparr>bytes_throughput := True\<rparr>) = Inr s' \<and> total_bytes s' = 3"
proof -
  let ?d = "\<lparr>readable = True, partial = False, pending = 3, recvs = map Inr [[1, 2], [3]], dlv_credit = 900\<rparr>"
    and ?s = "trcv_globals\<lparr>bytes_throughput := True\<rparr>"
  have "\<exists>s'. handle_delivery steady_clock ?d ?s = Inr s'"
    by (simp add: handle_delivery_def trcv_globals_def whole_def Let_def emit_def)
  then obtain s' where s': "handle_delivery steady_clock ?d ?s = Inr s'" by blast
  have "\<not> at_limit ?s" "whole ?d" by (simp_all add: at_limit_def trcv_globals_def whole_def)
  from trcv_counts_message_bytes [OF s' this, of "[[1, 2], [3]]"] s' show ?thesis
    by (auto simp: trcv_globals_def SCRATCH_def)
qed

text \<open>The server half takes one connection only: the first becomes the client's own, every later
  one is closed again and changes nothing else.\<close>

theorem trcv_accepts_one_connection:
  assumes "run (trcv_event_handler clock) s (replicate (Suc n) ACCEPTOR_CONNECTION_INIT) = Inr s'"
    and "\<not> conn s"
  shows "s' = s\<lparr>conn := True, out := out s @ PnSetContainer (container_name s) # PnSetHostname (host_address s) # replicate n PnConnectionReject\<rparr>"
proof -
  have "run (trcv_event_handler clock) t (replicate n ACCEPTOR_CONNECTION_INIT)
      = Inr (t\<lparr>out := out t @ replicate n PnConnectionReject\<rparr>)" if "conn t" "server_mode t" for t n
    using that
  proof (induction n arbitrary: t)
    case (Suc n)
    have "trcv_event_handler clock t ACCEPTOR_CONNECTION_INIT = Inr (emit [PnConnectionReject] t)"
      using Suc.prems by (simp add: acceptor_connection_init_def)
    with Suc.IH [of "emit [PnConnectionReject] t"] Suc.prems show ?case by (simp add: emit_def)
  qed simp
  moreover obtain t where t: "acceptor_connection_init s = Inr t"
    "run (trcv_event_handler clock) t (replicate n ACCEPTOR_CONNECTION_INIT) = Inr s'"
    using assms(1) by (auto simp: bnd_eq_Inr)
  moreover have "server_mode s" "t = emit [PnSetContainer (container_name s), PnSetHostname (host_address s)] (s\<lparr>conn := True\<rparr>)"
    using t(1) assms(2) by (auto simp: acceptor_connection_init_def split: if_splits)
  ultimately show ?thesis by (simp add: emit_def)
qed

theorem trcv_accepts_one_connection_witness:
  "run (trcv_event_handler steady_clock) (trcv_globals\<lparr>server_mode := True\<rparr>)
     (replicate (Suc 2) ACCEPTOR_CONNECTION_INIT) =
   Inr (trcv_globals\<lparr>server_mode := True, conn := True,
      out := [PnSetContainer ''ThroughputReceiver'', PnSetHostname ''127.0.0.1:5672'', PnConnectionReject, PnConnectionReject]\<rparr>)"
proof -
  let ?s = "trcv_globals\<lparr>server_mode := True\<rparr>"
  have "\<exists>s'. run (trcv_event_handler steady_clock) ?s (replicate (Suc 2) ACCEPTOR_CONNECTION_INIT) = Inr s'"
    by (simp add: acceptor_connection_init_def trcv_globals_def numeral_2_eq_2 emit_def)
  then obtain s' where s': "run (trcv_event_handler steady_clock) ?s (replicate (Suc 2) ACCEPTOR_CONNECTION_INIT) = Inr s'"
    by blast
  from trcv_accepts_one_connection [OF s'] s' show ?thesis
    by (simp add: trcv_globals_def numeral_2_eq_2)
qed

text \<open>The address the server listens on: a non-empty host and a port after the last colon are
  taken as they are, and an address without a colon gets the default port.\<close>

theorem trcv_listen_address_splits:
  assumes "CHR '':'' \<notin> set port" and "host \<noteq> []"
  shows "trcv_listen_address (host @ CHR '':'' # port) = (host, if port = [] then ''5672'' else port)
    \<and> trcv_listen_address port = (port, ''5672'')"
proof -
  have "split_last CHR '':'' (host @ CHR '':'' # port) = Some (host, port)"
    using assms(1) by (rule split_last_eq)
  moreover have "split_last CHR '':'' port = None" using assms(1) by (simp add: split_last_None)
  ultimately show ?thesis using assms(2) by (simp add: trcv_listen_address_def)
qed

theorem trcv_listen_address_splits_witness:
  "trcv_listen_address ''[::1]:99'' = (''[::1]'', ''99'')"
  using trcv_listen_address_splits [of "''99''" "''[::1]''"] by simp

end
