(* ===== verification/Proactor.thy ===== *)
theory Proactor
  imports Tx
begin

text \<open>
  What the clients outside \<open>benchmarks/\<close> share. Most of them run on a proactor: the main loop
  waits for a batch of events, hands them to the handler one by one until the handler says
  that it is done, and does some work of its own after the batch. Several of them write their
  messages by hand, from a fixed AMQP header followed by a length in network order, and
  several work on many links of one connection.
\<close>

section \<open>The main loop of a proactor client\<close>

fun batch :: "('s \<Rightarrow> 'e \<Rightarrow> halt + bool \<times> 's) \<Rightarrow> 's \<Rightarrow> 'e list \<Rightarrow> halt + bool \<times> 's" where
  "batch handler s [] = Inr (False, s)"
| "batch handler s (e # es) =
     bnd (handler s e) (\<lambda>(done, s). if done then Inr (True, s) else batch handler s es)"

fun proactor_loop ::
    "('s \<Rightarrow> 'e \<Rightarrow> halt + bool \<times> 's) \<Rightarrow> ('s \<Rightarrow> 's) \<Rightarrow> 's \<Rightarrow> 'e list list \<Rightarrow> halt + bool \<times> 's" where
  "proactor_loop handler after s [] = Inr (False, s)"
| "proactor_loop handler after s (es # ess) =
     bnd (batch handler s es) (\<lambda>(done, s).
     if done then Inr (True, after s) else proactor_loop handler after (after s) ess)"

lemma batch_preserves:
  assumes step: "\<And>s e d s'. P s \<Longrightarrow> e \<in> set es \<Longrightarrow> handler s e = Inr (d, s') \<Longrightarrow> P s'"
    and "P s" and "batch handler s es = Inr (d, s')"
  shows "P s'"
  using assms
proof (induction es arbitrary: s)
  case Nil
  then show ?case by simp
next
  case (Cons e es)
  from Cons.prems(3) obtain d1 t where t: "handler s e = Inr (d1, t)"
    and r: "(if d1 then Inr (True, t) else batch handler t es) = Inr (d, s')"
    by (auto simp: bnd_eq_Inr)
  have p: "P t" by (rule Cons.prems(1) [OF Cons.prems(2) _ t]) simp
  have "\<And>s e d s'. P s \<Longrightarrow> e \<in> set es \<Longrightarrow> handler s e = Inr (d, s') \<Longrightarrow> P s'"
    using Cons.prems(1) by (meson list.set_intros(2))
  from Cons.IH [OF this p] show ?case using p r by (cases d1) auto
qed

lemma loop_preserves:
  assumes step: "\<And>s e d s'. P s \<Longrightarrow> e \<in> set (concat ess) \<Longrightarrow> handler s e = Inr (d, s') \<Longrightarrow> P s'"
    and after: "\<And>s. P s \<Longrightarrow> P (after s)"
    and "P s" and "proactor_loop handler after s ess = Inr (d, s')"
  shows "P s'"
  using assms(1,3,4)
proof (induction ess arbitrary: s)
  case Nil
  then show ?case by simp
next
  case (Cons es ess)
  from Cons.prems(3) obtain d1 t where t: "batch handler s es = Inr (d1, t)"
    and r: "(if d1 then Inr (True, after t) else proactor_loop handler after (after t) ess) = Inr (d, s')"
    by (auto simp: bnd_eq_Inr)
  have "P t"
    by (rule batch_preserves [where P = P, OF _ Cons.prems(2) t])
      (use Cons.prems(1) in \<open>metis Un_iff concat.simps(2) set_append\<close>)
  then have p: "P (after t)" by (rule after)
  have "\<And>s e d s'. P s \<Longrightarrow> e \<in> set (concat ess) \<Longrightarrow> handler s e = Inr (d, s') \<Longrightarrow> P s'"
    using Cons.prems(1) by (metis Un_iff concat.simps(2) set_append)
  from Cons.IH [OF this p] show ?case using p r by (cases d1) auto
qed

text \<open>
  The contract: an invariant that the handler keeps on every event it survives, and the work
  after a batch keeps too. It then holds whenever the loop is left.
\<close>

locale proactor_client =
  fixes handler :: "'s \<Rightarrow> 'e \<Rightarrow> halt + bool \<times> 's"
    and after :: "'s \<Rightarrow> 's"
    and inv :: "'s \<Rightarrow> bool"
  assumes handler_keeps: "inv s \<Longrightarrow> handler s e = Inr (d, s') \<Longrightarrow> inv s'"
    and after_keeps: "inv s \<Longrightarrow> inv (after s)"
begin

lemma batch_keeps: "inv s \<Longrightarrow> batch handler s es = Inr (d, s') \<Longrightarrow> inv s'"
  by (rule batch_preserves [where P = inv]) (auto intro: handler_keeps)

lemma loop_keeps: "inv s \<Longrightarrow> proactor_loop handler after s ess = Inr (d, s') \<Longrightarrow> inv s'"
  by (rule loop_preserves [where P = inv]) (auto intro: handler_keeps after_keeps)

end

text \<open>When the loop ends, the work after the last batch has been done.\<close>

lemma loop_done_after:
  "proactor_loop handler after s ess = Inr (True, s') \<Longrightarrow> \<exists>t. s' = after t"
proof (induction ess arbitrary: s)
  case Nil
  then show ?case by simp
next
  case (Cons es ess)
  then obtain d1 t where
    "(if d1 then Inr (True, after t) else proactor_loop handler after (after t) ess) = Inr (True, s')"
    by (auto simp: bnd_eq_Inr)
  then show ?case using Cons.IH by (cases d1) auto
qed

text \<open>It ends with the event on which the handler says that it is done.\<close>

lemma batch_done_by:
  "batch handler s es = Inr (True, s') \<Longrightarrow> \<exists>t e. e \<in> set es \<and> handler t e = Inr (True, s')"
proof (induction es arbitrary: s)
  case Nil
  then show ?case by simp
next
  case (Cons e es)
  then obtain d1 t where t: "handler s e = Inr (d1, t)"
      "(if d1 then Inr (True, t) else batch handler t es) = Inr (True, s')"
    by (auto simp: bnd_eq_Inr)
  show ?case
  proof (cases d1)
    case False
    then have "batch handler t es = Inr (True, s')" using t(2) by simp
    from Cons.IH [OF this] show ?thesis by auto
  qed (use t in auto)
qed

lemma loop_done_by:
  "proactor_loop handler after s ess = Inr (True, s')
     \<Longrightarrow> \<exists>t e t'. e \<in> set (concat ess) \<and> handler t e = Inr (True, t') \<and> s' = after t'"
proof (induction ess arbitrary: s)
  case Nil
  then show ?case by simp
next
  case (Cons es ess)
  then obtain d1 t where t: "batch handler s es = Inr (d1, t)"
    "(if d1 then Inr (True, after t) else proactor_loop handler after (after t) ess) = Inr (True, s')"
    by (auto simp: bnd_eq_Inr)
  show ?case
  proof (cases d1)
    case True
    then have "s' = after t" "batch handler s es = Inr (True, t)" using t by simp_all
    then show ?thesis using batch_done_by [of handler s es t] by auto
  next
    case False
    then have "proactor_loop handler after (after t) ess = Inr (True, s')" using t(2) by simp
    from Cons.IH [OF this] show ?thesis by (metis Un_iff concat.simps(2) set_append)
  qed
qed

text \<open>
  A law that speaks of the events handled so far: \<open>P\<close> while the loop runs, \<open>Q\<close> from the event
  that ends it.
\<close>

lemma batch_history:
  assumes step: "\<And>hs s e d s'. P hs s \<Longrightarrow> e \<in> set es \<Longrightarrow> handler s e = Inr (d, s')
      \<Longrightarrow> (if d then Q else P) (hs @ [e]) s'"
    and "P hs s" and "batch handler s es = Inr (d, s')"
  shows "\<exists>n \<le> length es. (if d then Q else P) (hs @ take n es) s' \<and> (\<not> d \<longrightarrow> n = length es)"
  using assms
proof (induction es arbitrary: hs s)
  case Nil
  then show ?case by simp
next
  case (Cons e es)
  from Cons.prems(3) obtain d1 t where t: "handler s e = Inr (d1, t)"
    and r: "(if d1 then Inr (True, t) else batch handler t es) = Inr (d, s')"
    by (auto simp: bnd_eq_Inr)
  have p: "(if d1 then Q else P) (hs @ [e]) t" by (rule Cons.prems(1) [OF Cons.prems(2) _ t]) simp
  show ?case
  proof (cases d1)
    case True
    then have "d" "s' = t" "Q (hs @ take 1 (e # es)) t" using p r by simp_all
    then show ?thesis by (intro exI [of _ 1]) simp
  next
    case False
    have "\<And>hs s e d s'. P hs s \<Longrightarrow> e \<in> set es \<Longrightarrow> handler s e = Inr (d, s') \<Longrightarrow> (if d then Q else P) (hs @ [e]) s'"
      by (rule Cons.prems(1), assumption, simp, assumption)
    moreover have "P (hs @ [e]) t" "batch handler t es = Inr (d, s')" using p r False by simp_all
    ultimately have "\<exists>n\<le>length es. (if d then Q else P) ((hs @ [e]) @ take n es) s' \<and> (\<not> d \<longrightarrow> n = length es)"
      by (rule Cons.IH)
    then obtain n where "n \<le> length es" "(if d then Q else P) ((hs @ [e]) @ take n es) s'" "\<not> d \<longrightarrow> n = length es"
      by iprover
    then show ?thesis by (intro exI [of _ "Suc n"]) simp
  qed
qed

lemma loop_history:
  assumes step: "\<And>hs s e d s'. P hs s \<Longrightarrow> e \<in> set (concat ess) \<Longrightarrow> handler s e = Inr (d, s')
      \<Longrightarrow> (if d then Q else P) (hs @ [e]) s'"
    and after: "\<And>hs s. P hs s \<Longrightarrow> P hs (after s)" "\<And>hs s. Q hs s \<Longrightarrow> Q hs (after s)"
    and "P hs s" and "proactor_loop handler after s ess = Inr (d, s')"
  shows "\<exists>n \<le> length (concat ess). (if d then Q else P) (hs @ take n (concat ess)) s'
    \<and> (\<not> d \<longrightarrow> n = length (concat ess))"
  using assms(1,4,5)
proof (induction ess arbitrary: hs s)
  case Nil
  then show ?case by simp
next
  case (Cons es ess)
  from Cons.prems(3) obtain d1 t where t: "batch handler s es = Inr (d1, t)"
    and r: "(if d1 then Inr (True, after t) else proactor_loop handler after (after t) ess) = Inr (d, s')"
    by (auto simp: bnd_eq_Inr)
  have "\<And>hs s e d s'. P hs s \<Longrightarrow> e \<in> set es \<Longrightarrow> handler s e = Inr (d, s') \<Longrightarrow> (if d then Q else P) (hs @ [e]) s'"
    by (rule Cons.prems(1), assumption, simp, assumption)
  from batch_history [where P = P and Q = Q, OF this Cons.prems(2) t]
  obtain n where n: "n \<le> length es" "(if d1 then Q else P) (hs @ take n es) t" "\<not> d1 \<longrightarrow> n = length es"
    by iprover
  show ?case
  proof (cases d1)
    case True
    then have "d" "s' = after t" using r by simp_all
    moreover have "Q (hs @ take n es) t" using n(2) True by simp
    then have "Q (hs @ take n es) (after t)" by (rule after(2))
    then have "Q (hs @ take n (concat (es # ess))) (after t)" using n(1) by simp
    moreover have "n \<le> length (concat (es # ess))" using n(1) by simp
    ultimately show ?thesis by (intro exI [of _ n]) simp
  next
    case False
    then have "P (hs @ es) t" using n by simp
    then have p: "P (hs @ es) (after t)" by (rule after(1))
    have "\<And>hs s e d s'. P hs s \<Longrightarrow> e \<in> set (concat ess) \<Longrightarrow> handler s e = Inr (d, s')
        \<Longrightarrow> (if d then Q else P) (hs @ [e]) s'"
      by (rule Cons.prems(1), assumption, simp, assumption)
    moreover have "proactor_loop handler after (after t) ess = Inr (d, s')" using r False by simp
    ultimately have "\<exists>m\<le>length (concat ess). (if d then Q else P) ((hs @ es) @ take m (concat ess)) s'
        \<and> (\<not> d \<longrightarrow> m = length (concat ess))"
      by (rule Cons.IH [OF _ p])
    then obtain m where "m \<le> length (concat ess)" "(if d then Q else P) ((hs @ es) @ take m (concat ess)) s'"
        "\<not> d \<longrightarrow> m = length (concat ess)"
      by iprover
    then have "length es + m \<le> length (concat (es # ess))"
        "(if d then Q else P) (hs @ take (length es + m) (concat (es # ess))) s'"
        "\<not> d \<longrightarrow> length es + m = length (concat (es # ess))"
      by simp_all
    then show ?thesis by (intro exI [of _ "length es + m"] conjI)
  qed
qed

text \<open>
  A client that is done only when a predicate of its state says so: the loop ends in such a
  state, provided the work after the batch does not undo it.
\<close>

locale finishing_client = proactor_client handler after inv
  for handler :: "'s \<Rightarrow> 'e \<Rightarrow> halt + bool \<times> 's" and after :: "'s \<Rightarrow> 's" and inv :: "'s \<Rightarrow> bool" +
  fixes finished :: "'s \<Rightarrow> bool"
  assumes done_finished: "inv s \<Longrightarrow> handler s e = Inr (True, s') \<Longrightarrow> finished s'"
    and after_finished: "finished s \<Longrightarrow> finished (after s)"
begin

lemma batch_finished: "inv s \<Longrightarrow> batch handler s es = Inr (True, s') \<Longrightarrow> finished s'"
proof (induction es arbitrary: s)
  case Nil
  then show ?case by simp
next
  case (Cons e es)
  then obtain d1 t where t: "handler s e = Inr (d1, t)"
    and r: "(if d1 then Inr (True, t) else batch handler t es) = Inr (True, s')"
    by (auto simp: bnd_eq_Inr)
  have "inv t" using handler_keeps [OF Cons.prems(1) t] .
  then show ?case using r Cons.IH done_finished [OF Cons.prems(1)] t by (cases d1) auto
qed

lemma loop_finished: "inv s \<Longrightarrow> proactor_loop handler after s ess = Inr (True, s') \<Longrightarrow> finished s'"
proof (induction ess arbitrary: s)
  case Nil
  then show ?case by simp
next
  case (Cons es ess)
  then obtain d1 t where t: "batch handler s es = Inr (d1, t)"
    and r: "(if d1 then Inr (True, after t) else proactor_loop handler after (after t) ess) = Inr (True, s')"
    by (auto simp: bnd_eq_Inr)
  show ?case
  proof (cases d1)
    case True
    then show ?thesis using r batch_finished [OF Cons.prems(1)] t after_finished by auto
  next
    case False
    have "inv (after t)" using after_keeps batch_keeps [OF Cons.prems(1) t] by blast
    then show ?thesis using r False Cons.IH by simp
  qed
qed

end

section \<open>Lengths in network order\<close>

text \<open>The four bytes of \<open>htonl(x)\<close> in memory.\<close>

definition be32 :: "u32 \<Rightarrow> u8 list" where
  "be32 x = [ucast (drop_bit 24 x), ucast (drop_bit 16 x), ucast (drop_bit 8 x), ucast x]"

text \<open>What a peer reads from them.\<close>

definition read_be32 :: "u8 list \<Rightarrow> int" where
  "read_be32 bs = uint (bs ! 0) * 2 ^ 24 + uint (bs ! 1) * 2 ^ 16 + uint (bs ! 2) * 2 ^ 8 + uint (bs ! 3)"

lemma length_be32 [simp]: "length (be32 x) = 4"
  by (simp add: be32_def)

lemma byte_value: "uint (ucast (drop_bit n (x :: u32)) :: u8) = uint x div 2 ^ n mod 256"
proof -
  have "uint x mod 4294967296 = uint x"
    using uint_bounded [of x] by (simp add: mod_pos_pos_trivial)
  then show ?thesis
    by (simp only: unsigned_ucast_eq unsigned_drop_bit_eq) (simp add: take_bit_eq_mod drop_bit_eq_div)
qed

lemma horner_256:
  "256 * a + r = u \<Longrightarrow> 256 * b + s = a \<Longrightarrow> 256 * c + t = b
     \<Longrightarrow> c * 16777216 + t * 65536 + s * 256 + r = (u :: int)"
  by linarith

lemma four_bytes:
  assumes "0 \<le> u" and "u < (4294967296 :: int)"
  shows "u div 16777216 mod 256 * 16777216 + u div 65536 mod 256 * 65536
          + u div 256 mod 256 * 256 + u mod 256 = u"
proof -
  define a b c where "a = u div 256" and "b = a div 256" and "c = b div 256"
  have "u div 65536 = b" "u div 16777216 = c"
    by (simp_all add: a_def b_def c_def flip: zdiv_zmult2_eq)
  moreover have "c mod 256 = c"
    using assms by (simp add: a_def b_def c_def mod_pos_pos_trivial flip: zdiv_zmult2_eq)
  moreover have "256 * a + u mod 256 = u" "256 * b + a mod 256 = a" "256 * c + b mod 256 = b"
    by (simp_all add: a_def b_def c_def)
  ultimately show ?thesis using horner_256 [of a "u mod 256" u b "a mod 256" c "b mod 256"]
    by (simp only: a_def [symmetric])
qed

lemma read_be32 [simp]: "read_be32 (be32 x) = uint x"
proof -
  have z: "uint (ucast x :: u8) = uint x mod 256"
    by (simp add: unsigned_ucast_eq take_bit_eq_mod)
  have l: "uint x < 4294967296" using uint_bounded [of x] by simp
  have p: "(2::int) ^ 24 = 16777216" "(2::int) ^ 16 = 65536" "(2::int) ^ 8 = 256" by simp_all
  have n: "[p, q, r, s] ! 0 = p" "[p, q, r, s] ! 1 = q" "[p, q, r, s] ! 2 = r" "[p, q, r, s] ! 3 = s"
    for p q r s :: u8 by simp_all
  show ?thesis
    unfolding read_be32_def be32_def n byte_value z p by (rule four_bytes [OF uint_ge_0 l])
qed

section \<open>Calls on several links\<close>

text \<open>The calls on link \<open>k\<close>, out of those of all links.\<close>

fun link_calls :: "nat \<Rightarrow> pn_call list \<Rightarrow> pn_call list" where
  "link_calls k [] = []"
| "link_calls k (OnLink j c # cs) = (if j = k then c # link_calls k cs else link_calls k cs)"
| "link_calls k (c # cs) = link_calls k cs"

lemma link_calls_append [simp]: "link_calls k (cs @ ds) = link_calls k cs @ link_calls k ds"
  by (induction k cs rule: link_calls.induct) simp_all

lemma link_calls_map [simp]: "link_calls k (map (OnLink j) cs) = (if j = k then cs else [])"
  by (induction cs) auto

text \<open>The calls without the endpoints they were made on.\<close>

fun unlinked :: "pn_call \<Rightarrow> pn_call" where
  "unlinked (OnLink k c) = c"
| "unlinked c = c"

text \<open>Calls that neither make, write nor end a delivery.\<close>

definition silent :: "pn_call \<Rightarrow> bool" where
  "silent c \<longleftrightarrow> (case c of PnDelivery t \<Rightarrow> False | PnLinkSend bs \<Rightarrow> False | PnLinkAdvance \<Rightarrow> False | _ \<Rightarrow> True)"

lemma silent_calls:
  "list_all silent cs \<Longrightarrow> tags cs = [] \<and> sent_bytes cs = [] \<and> deliveries cs = 0 \<and> advances cs = 0"
proof (induction cs)
  case (Cons c cs)
  then show ?case by (cases c) (simp_all add: silent_def)
qed simp

abbreviation silent_all :: "pn_call list \<Rightarrow> bool" where
  "silent_all \<equiv> list_all (\<lambda>c. silent (unlinked c))"

lemma silent_all_calls:
  assumes "silent_all cs"
  shows "list_all silent (map unlinked cs)" and "list_all silent (link_calls k cs)"
proof -
  show "list_all silent (map unlinked cs)" using assms by (simp add: list_all_iff)
  show "list_all silent (link_calls k cs)" using assms by (induction k cs rule: link_calls.induct) auto
qed

text \<open>
  The bytes written since the last delivery was made on a link, and what they were each time the
  link was advanced: the message in progress and the messages finished.
\<close>

fun in_progress :: "u8 list \<Rightarrow> pn_call list \<Rightarrow> u8 list" where
  "in_progress acc [] = acc"
| "in_progress acc (PnDelivery t # cs) = in_progress [] cs"
| "in_progress acc (PnLinkSend bs # cs) = in_progress (acc @ bs) cs"
| "in_progress acc (c # cs) = in_progress acc cs"

fun finished :: "u8 list \<Rightarrow> pn_call list \<Rightarrow> u8 list list" where
  "finished acc [] = []"
| "finished acc (PnDelivery t # cs) = finished [] cs"
| "finished acc (PnLinkSend bs # cs) = finished (acc @ bs) cs"
| "finished acc (PnLinkAdvance # cs) = acc # finished acc cs"
| "finished acc (c # cs) = finished acc cs"

lemma in_progress_append [simp]: "in_progress acc (xs @ ys) = in_progress (in_progress acc xs) ys"
  by (induction acc xs rule: in_progress.induct) simp_all

lemma finished_append [simp]: "finished acc (xs @ ys) = finished acc xs @ finished (in_progress acc xs) ys"
  by (induction acc xs rule: finished.induct) simp_all

lemma in_progress_silent: "list_all silent cs \<Longrightarrow> in_progress acc cs = acc \<and> finished acc cs = []"
  by (induction cs) (auto simp: silent_def split: pn_call.splits)

section \<open>Names of links\<close>

text \<open>The names of the sending links made so far, in order.\<close>

fun sender_names :: "pn_call list \<Rightarrow> string list" where
  "sender_names [] = []"
| "sender_names (PnSender n # cs) = n # sender_names cs"
| "sender_names (c # cs) = sender_names cs"

lemma sender_names_append [simp]: "sender_names (cs @ ds) = sender_names cs @ sender_names ds"
  by (induction cs rule: sender_names.induct) simp_all

text \<open>Two numbers with a colon between them can be read back.\<close>

lemma two_numbers_inject:
  assumes "show_nat a @ CHR '':'' # x = show_nat b @ CHR '':'' # y"
  shows "a = b \<and> x = y"
proof -
  have "CHR '':'' \<notin> set (show_nat n)" for n
    using show_nat_digits [of "CHR '':''" n] by (auto simp: is_digit_def)
  then have "Some (show_nat a, x) = Some (show_nat b, y)"
    using assms split_first_eq by metis
  then show ?thesis using show_nat_inject by blast
qed

section \<open>Host and port\<close>

text \<open>
  The addresses of the command line: what stands before and after the colon that \<open>chr\<close>
  (\<open>strchr()\<close> or \<open>strrchr()\<close>) finds, the AMQP port where there is none.
\<close>

definition trim_port :: "(char \<Rightarrow> string \<Rightarrow> (string \<times> string) option) \<Rightarrow> string \<Rightarrow> string \<times> string" where
  "trim_port chr host = (case chr CHR '':'' host of Some hp \<Rightarrow> hp | None \<Rightarrow> (host, ''5672''))"

text \<open>
  What the clients of the link tests ask of the proactor before the loop: the container, the host,
  and a connection to the address \<open>pn_proactor_addr()\<close> makes of the host and the port.
\<close>

abbreviation connect_calls :: "string \<Rightarrow> string \<times> string \<Rightarrow> pn_call list" where
  "connect_calls c hp \<equiv> [PnSetContainer c, PnSetHostname (fst hp), PnProactorConnect2 hp]"

end
