(* ===== verification/Clogger.thy ===== *)
theory Clogger
  imports Proactor
begin

text \<open>
  \<open>clients/chaos/clogger.c\<close>: a sender that writes each message in chunks of at most a frame,
  with pauses between them, on the events of a proactor. The message is not built by the
  encoder: the code writes a fixed AMQP header, the length of the body in network order and
  zeros.

  The record reuses \<open>client\<close>: its \<open>count\<close> is the code's \<open>sent\<close>, \<open>g_link\<close> and \<open>g_ssn\<close> are the
  pointers \<open>pn_link\<close> and \<open>pn_ssn\<close>, \<open>conn\<close> and \<open>dlv\<close> the pointers \<open>pn_conn\<close> and \<open>pn_dlv\<close>.
\<close>

section \<open>State\<close>

record clogger = client +
  acked :: u64
  accepted :: u64
  not_accepted :: u64
  use_anonymous :: bool
  presettle :: bool
  body_length :: u32
  pause_msec :: u32
  target_address :: string
  conn :: bool
  dlv :: bool
  bytes_sent :: u32
  remote_max_frame :: u32
  tag :: u64

definition DEFAULT_MAX_FRAME :: u32 where "DEFAULT_MAX_FRAME = 65535"

definition clg_globals :: clogger where
  "clg_globals = \<lparr>
     clk = 0, out = [], stop = False, limit = 1, count = 0,
     host_address = ''127.0.0.1:5672'', container_name = ''Clogger'',
     g_ssn = False, g_link = False, sig_ign = False,
     acked = 0, accepted = 0, not_accepted = 0, use_anonymous = False, presettle = False,
     body_length = 1024 * 1024, pause_msec = 100, target_address = ''test-address'',
     conn = False, dlv = False, bytes_sent = 0, remote_max_frame = DEFAULT_MAX_FRAME, tag = 0\<rparr>"

definition msg_header :: "u8 list" where
  "msg_header = [0x00, 0x53, 0x70, 0x45, 0x00, 0x53, 0x73, 0x45, 0x00, 0x53, 0x77, 0xb0]"

section \<open>Writing a message\<close>

text \<open>
  \<open>wr bs\<close> is what \<open>pn_link_send()\<close> returns for the bytes \<open>bs\<close>; what it took of them goes to the
  log. A call on a null link is undefined behaviour, on which the model stops.
\<close>

definition clg_link_send :: "(u8 list \<Rightarrow> int) \<Rightarrow> u8 list \<Rightarrow> clogger \<Rightarrow> halt + int \<times> clogger" where
  "clg_link_send wr bs s =
     (if g_link s then Inr (wr bs, emit [PnLinkSend (take (nat (wr bs)) bs)] s) else Inl Abort)"

definition start_message :: "(u8 list \<Rightarrow> int) \<Rightarrow> clogger \<Rightarrow> halt + clogger" where
  "start_message wr s =
     (if \<not> g_link s \<or> \<not> conn s then Inr s
      else if dlv s then Inl Abort
      else let s = emit [PnDelivery (tag s)] (s\<lparr>dlv := True\<rparr>);
               s = s\<lparr>tag := tag s + 1, bytes_sent := 0\<rparr> in
        bnd (clg_link_send wr msg_header s) (\<lambda>(rc, s).
        if rc \<noteq> int (length msg_header) then Inl Abort else
        bnd (clg_link_send wr (be32 (body_length s)) s) (\<lambda>(rc, s).
        if rc \<noteq> 4 then Inl Abort else Inr s)))"

text \<open>\<open>send_message_data()\<close>, in its two halves; it returns true when the message is complete.\<close>

definition clg_send_chunk :: "(u8 list \<Rightarrow> int) \<Rightarrow> clogger \<Rightarrow> halt + clogger" where
  "clg_send_chunk wr s =
     (if bytes_sent s < body_length s then
        (let amount = min (body_length s - bytes_sent s) (remote_max_frame s);
             amount = min amount DEFAULT_MAX_FRAME
         in bnd (clg_link_send wr (replicate (unat amount) 0) s) (\<lambda>(rc, s).
            if rc < 0 then Inl Abort else Inr (s\<lparr>bytes_sent := bytes_sent s + word_of_int rc\<rparr>)))
      else Inr s)"

definition clg_finish_message :: "clogger \<Rightarrow> bool \<times> clogger" where
  "clg_finish_message s =
     (if bytes_sent s = body_length s then
        (let s = emit [PnLinkAdvance] s;
             s = s\<lparr>count := count s + 1\<rparr>;
             s = (if presettle s then
                    let s = emit [PnSettle] s in
                    if limit s \<noteq> 0 \<and> count s = limit s
                    then emit [PnProactorInterrupt] (s\<lparr>stop := True\<rparr>) else s
                  else s)
         in (True, s\<lparr>dlv := False\<rparr>))
      else (False, s))"

definition send_message_data :: "(u8 list \<Rightarrow> int) \<Rightarrow> clogger \<Rightarrow> halt + bool \<times> clogger" where
  "send_message_data wr s =
     (if \<not> dlv s then Inr (True, s)
      else bnd (clg_send_chunk wr s) (\<lambda>s. Inr (clg_finish_message s)))"

section \<open>The event handler\<close>

datatype clg_event =
    CG_CONNECTION_INIT
  | CG_CONNECTION_REMOTE_OPEN u32
  | CG_LINK_FLOW int
  | CG_TRANSPORT
  | CG_DELIVERY bool disposition
  | CG_PROACTOR_TIMEOUT
  | CG_CONNECTION_WAKE int
  | CG_PROACTOR_INACTIVE
  | CG_SIGNAL signal

definition clg_signal_handler :: "signal \<Rightarrow> clogger \<Rightarrow> clogger" where
  "clg_signal_handler sig s =
     (if sig_ign s then s
      else let s = s\<lparr>sig_ign := True\<rparr> in
        if sig = SIGOTHER then s else emit [PnProactorInterrupt] (s\<lparr>stop := True\<rparr>))"

definition clg_connection_init :: "clogger \<Rightarrow> clogger" where
  "clg_connection_init s =
     emit ([PnConnectionOpen, PnSession, PnSessionOpen, PnSender ''MyClogger'']
           @ (if use_anonymous s then [] else [PnSetTarget (target_address s)]) @ [PnLinkOpen])
       (s\<lparr>g_ssn := True, g_link := True\<rparr>)"

definition clg_start_and_wait :: "(u8 list \<Rightarrow> int) \<Rightarrow> clogger \<Rightarrow> halt + clogger" where
  "clg_start_and_wait wr s =
     bnd (start_message wr s) (\<lambda>s. Inr (emit [PnSetTimeout (pause_msec s)] s))"

definition clg_link_flow :: "(u8 list \<Rightarrow> int) \<Rightarrow> int \<Rightarrow> clogger \<Rightarrow> halt + clogger" where
  "clg_link_flow wr credit s =
     (if (limit s = 0 \<or> count s < limit s) \<and> 0 < credit \<and> \<not> dlv s
      then clg_start_and_wait wr s else Inr s)"

definition clg_delivery :: "bool \<Rightarrow> disposition \<Rightarrow> clogger \<Rightarrow> clogger" where
  "clg_delivery updated rs s =
     (if updated then
        (let s = emit [PnClear] s;
             s = (case rs of
                    PN_RECEIVED \<Rightarrow> s
                  | PN_ACCEPTED \<Rightarrow> emit [PnSettle] (s\<lparr>acked := acked s + 1, accepted := accepted s + 1\<rparr>)
                  | _ \<Rightarrow> emit [PnSettle] (s\<lparr>acked := acked s + 1, not_accepted := not_accepted s + 1\<rparr>))
         in if limit s \<noteq> 0 \<and> acked s = limit s
            then emit [PnProactorInterrupt] (s\<lparr>stop := True\<rparr>) else s)
      else s)"

definition clg_wake :: "(u8 list \<Rightarrow> int) \<Rightarrow> int \<Rightarrow> clogger \<Rightarrow> halt + clogger" where
  "clg_wake wr credit s =
     bnd (send_message_data wr s) (\<lambda>(complete, s).
     if \<not> complete then Inr (emit [PnSetTimeout (pause_msec s)] s)
     else if (limit s = 0 \<or> count s < limit s) \<and> 0 < credit then clg_start_and_wait wr s
     else Inr s)"

text \<open>The handler returns true when the client has stopped.\<close>

fun clg_event_handler :: "(u8 list \<Rightarrow> int) \<Rightarrow> clogger \<Rightarrow> clg_event \<Rightarrow> halt + bool \<times> clogger" where
  "clg_event_handler wr s CG_CONNECTION_INIT = Inr (False, clg_connection_init s)"
| "clg_event_handler wr s (CG_CONNECTION_REMOTE_OPEN rmf) =
     Inr (False, s\<lparr>remote_max_frame := (if rmf \<noteq> 0 then rmf else DEFAULT_MAX_FRAME)\<rparr>)"
| "clg_event_handler wr s (CG_LINK_FLOW credit) = bnd (clg_link_flow wr credit s) (\<lambda>s. Inr (False, s))"
| "clg_event_handler wr s CG_TRANSPORT = Inr (False, s)"
| "clg_event_handler wr s (CG_DELIVERY updated rs) = Inr (False, clg_delivery updated rs s)"
| "clg_event_handler wr s CG_PROACTOR_TIMEOUT =
     Inr (False, if conn s then emit [PnConnectionWake] s else s)"
| "clg_event_handler wr s (CG_CONNECTION_WAKE credit) = bnd (clg_wake wr credit s) (\<lambda>s. Inr (False, s))"
| "clg_event_handler wr s CG_PROACTOR_INACTIVE = Inr (stop s, s)"
| "clg_event_handler wr s (CG_SIGNAL sig) = Inr (False, clg_signal_handler sig s)"

section \<open>\<open>main\<close>\<close>

definition clg_option :: "opt \<Rightarrow> clogger \<Rightarrow> halt + clogger" where
  "clg_option p s =
     (case p of (c, optarg) \<Rightarrow>
      if c = CHR ''h'' then usage
      else if c = CHR ''a'' then Inr (s\<lparr>host_address := optarg\<rparr>)
      else if c = CHR ''c'' then
        (case scan_u64 optarg of None \<Rightarrow> usage | Some n \<Rightarrow> Inr (s\<lparr>limit := n\<rparr>))
      else if c = CHR ''i'' then Inr (s\<lparr>container_name := optarg\<rparr>)
      else if c = CHR ''n'' then Inr (s\<lparr>use_anonymous := True\<rparr>)
      else if c = CHR ''s'' then
        (case scan_u32 optarg of None \<Rightarrow> usage | Some n \<Rightarrow> Inr (s\<lparr>body_length := n\<rparr>))
      else if c = CHR ''t'' then Inr (s\<lparr>target_address := optarg\<rparr>)
      else if c = CHR ''u'' then Inr (s\<lparr>presettle := True\<rparr>)
      else if c = CHR ''D'' then Inr s
      else if c = CHR ''P'' then
        (case scan_u32 optarg of None \<Rightarrow> usage | Some n \<Rightarrow> Inr (s\<lparr>pause_msec := n\<rparr>))
      else usage)"

definition clg_close :: "clogger \<Rightarrow> clogger" where
  "clg_close s =
     (if stop s then
        (emit ((if g_link s then [PnLinkClose] else []) @ (if g_ssn s then [PnSessionClose] else [])
               @ (if conn s then [PnConnectionClose] else [])) s)
          \<lparr>g_link := False, g_ssn := False, conn := False\<rparr>
      else s)"

text \<open>The exit status of the program: 1 when messages are unaccounted for.\<close>

definition clg_exit :: "clogger \<Rightarrow> int" where
  "clg_exit s = (if not_accepted s \<noteq> 0 \<and> accepted s + not_accepted s \<noteq> count s then 1 else 0)"

definition clg_main ::
    "(u8 list \<Rightarrow> int) \<Rightarrow> opt list \<Rightarrow> clg_event list list \<Rightarrow> halt + bool \<times> clogger" where
  "clg_main wr opts ess =
     bnd (parse_opts clg_option opts clg_globals) (\<lambda>s.
     proactor_loop (clg_event_handler wr) clg_close
       (emit [PnSetContainer (container_name s), PnSetHostname (host_address s), PnProactorConnect (host_address s)] (s\<lparr>conn := True\<rparr>)) ess)"

section \<open>The byte stream\<close>

lemma emit_clogger [simp]:
  "acked (emit cs s) = acked s" "accepted (emit cs s) = accepted s" "not_accepted (emit cs s) = not_accepted s"
  "use_anonymous (emit cs s) = use_anonymous s" "presettle (emit cs s) = presettle s"
  "body_length (emit cs s) = body_length s" "pause_msec (emit cs s) = pause_msec s"
  "target_address (emit cs s) = target_address s" "conn (emit cs s) = conn s" "dlv (emit cs s) = dlv s"
  "bytes_sent (emit cs s) = bytes_sent s" "remote_max_frame (emit cs s) = remote_max_frame s"
  "tag (emit cs s) = tag s"
  by (simp_all add: emit_def)

text \<open>A message on the wire, and its first \<open>n\<close> body bytes.\<close>

definition clg_prefix :: "u32 \<Rightarrow> nat \<Rightarrow> u8 list" where
  "clg_prefix len n = msg_header @ be32 len @ replicate n 0"

definition clg_wire :: "u32 \<Rightarrow> u8 list" where
  "clg_wire len = clg_prefix len (unat len)"

text \<open>
  What has been written is a whole number of messages, then the beginning of the one in
  flight; with a limit on the messages, the counter is exact and the one in flight is within
  the limit.
\<close>

definition clg_stream :: "clogger \<Rightarrow> bool" where
  "clg_stream s \<longleftrightarrow>
     sent_bytes (out s) = concat (replicate (advances (out s)) (clg_wire (body_length s)))
        @ (if dlv s then clg_prefix (body_length s) (unat (bytes_sent s)) else [])
     \<and> bytes_sent s \<le> body_length s
     \<and> (limit s \<noteq> 0 \<longrightarrow> unat (count s) = advances (out s) \<and> count s \<le> limit s \<and> (dlv s \<longrightarrow> count s < limit s))"

text \<open>What \<open>pn_link_send()\<close> is documented to return: an error, or how many bytes it took.\<close>

definition writes_at_most :: "(u8 list \<Rightarrow> int) \<Rightarrow> bool" where
  "writes_at_most wr \<longleftrightarrow> (\<forall>bs. wr bs \<le> int (length bs))"

lemma concat_replicate_snoc: "concat (replicate (Suc n) w) = concat (replicate n w) @ w"
  by (induction n) simp_all

lemma unat_advance:
  assumes "0 \<le> rc" and "rc \<le> int (unat a)" and "a \<le> b - x" and "x \<le> (b :: u32)"
  shows "unat (x + word_of_int rc) = unat x + nat rc" and "x + word_of_int rc \<le> b"
proof -
  have bx: "unat (b - x) = unat b - unat x" "unat x \<le> unat b"
    using assms(4) by (simp_all add: unat_sub word_le_nat_alt)
  have rc: "nat rc \<le> unat b - unat x"
    using assms(1-3) bx(1) unfolding word_le_nat_alt by linarith
  have lt: "unat b < 4294967296" using unsigned_less [of b, where ?'a = nat] by simp
  have "rc < 4294967296" using assms(1) rc lt by linarith
  then have "take_bit 32 rc = rc" using assms(1)
    by (simp add: take_bit_eq_mod mod_pos_pos_trivial)
  then have w: "unat (word_of_int rc :: u32) = nat rc" by (simp add: unsigned_of_int)
  then have "unat (x + word_of_int rc) = (unat x + nat rc) mod 4294967296"
    by (simp add: unat_word_ariths)
  then show u: "unat (x + word_of_int rc) = unat x + nat rc"
    using rc bx(2) lt by simp
  show "x + word_of_int rc \<le> b" unfolding word_le_nat_alt u using rc bx(2) by simp
qed

lemma clg_link_send_Inr:
  "clg_link_send wr bs s = Inr (rc, s') \<longleftrightarrow>
     g_link s \<and> rc = wr bs \<and> s' = emit [PnLinkSend (take (nat (wr bs)) bs)] s"
  by (auto simp: clg_link_send_def)

lemma start_message_Inr:
  assumes "start_message wr s = Inr s'"
  shows "s' = s \<or> \<not> dlv s \<and> s' = emit [PnDelivery (tag s), PnLinkSend msg_header, PnLinkSend (be32 (body_length s))]
            (s\<lparr>dlv := True, tag := tag s + 1, bytes_sent := 0\<rparr>)"
proof (cases "\<not> g_link s \<or> \<not> conn s")
  case True
  then show ?thesis using assms by (auto simp: start_message_def)
next
  case False
  then have r: "g_link s" "conn s" by simp_all
  have n: "\<not> dlv s" using assms r by (cases "dlv s") (simp_all add: start_message_def)
  have "wr msg_header = int (length msg_header)"
    using assms r n by (auto simp: start_message_def clg_link_send_def Let_def split: if_splits)
  moreover have "wr (be32 (body_length s)) = 4"
    using assms r n by (auto simp: start_message_def clg_link_send_def Let_def split: if_splits)
  ultimately show ?thesis using assms r n
    by (auto simp: start_message_def clg_link_send_def Let_def emit_def)
qed

definition clg_amount :: "clogger \<Rightarrow> u32" where
  "clg_amount s = min (min (body_length s - bytes_sent s) (remote_max_frame s)) DEFAULT_MAX_FRAME"

lemma clg_send_chunk_more:
  assumes "bytes_sent s < body_length s" and "clg_send_chunk wr s = Inr s'"
  shows "g_link s" and "\<not> wr (replicate (unat (clg_amount s)) 0) < 0"
    and "s' = s\<lparr>out := out s @ [PnLinkSend (take (nat (wr (replicate (unat (clg_amount s)) 0)))
                  (replicate (unat (clg_amount s)) 0))],
               bytes_sent := bytes_sent s + word_of_int (wr (replicate (unat (clg_amount s)) 0))\<rparr>"
proof -
  have "(if g_link s then
           if wr (replicate (unat (clg_amount s)) 0) < 0 then Inl Abort
           else Inr (s\<lparr>out := out s @ [PnLinkSend (take (nat (wr (replicate (unat (clg_amount s)) 0)))
                  (replicate (unat (clg_amount s)) 0))],
               bytes_sent := bytes_sent s + word_of_int (wr (replicate (unat (clg_amount s)) 0))\<rparr>)
         else Inl Abort) = Inr s'"
    using assms(2)
    unfolding clg_send_chunk_def if_P [OF assms(1)] Let_def clg_amount_def [symmetric] clg_link_send_def
    by (cases "g_link s") (auto simp: emit_def split: if_split_asm)
  then show "g_link s" "\<not> wr (replicate (unat (clg_amount s)) 0) < 0"
    "s' = s\<lparr>out := out s @ [PnLinkSend (take (nat (wr (replicate (unat (clg_amount s)) 0)))
                  (replicate (unat (clg_amount s)) 0))],
               bytes_sent := bytes_sent s + word_of_int (wr (replicate (unat (clg_amount s)) 0))\<rparr>"
    by (simp_all split: if_split_asm)
qed

lemma clg_send_chunk_Inr:
  assumes "clg_send_chunk wr s = Inr s'" and "writes_at_most wr" and "bytes_sent s \<le> body_length s"
  obtains cs n where "s' = emit cs (s\<lparr>bytes_sent := bytes_sent s'\<rparr>)"
    and "cs = [] \<and> n = 0 \<or> cs = [PnLinkSend (replicate n 0)]" and "unat (bytes_sent s') = unat (bytes_sent s) + n" and "bytes_sent s' \<le> body_length s"
proof (cases "bytes_sent s < body_length s")
  case False
  then have "s' = s" "bytes_sent s = body_length s"
    using assms by (simp_all add: clg_send_chunk_def)
  then show ?thesis using that [of "[]" 0] assms(3) by (simp add: emit_def)
next
  case True
  define a where "a = clg_amount s"
  note r = clg_send_chunk_more(1,2) [OF True assms(1), folded a_def]
  note s' = clg_send_chunk_more(3) [OF True assms(1), folded a_def]
  define rc where "rc = wr (replicate (unat a) 0)"
  have rc: "0 \<le> rc" "rc \<le> int (unat a)"
    using r spec [OF assms(2) [unfolded writes_at_most_def], of "replicate (unat a) 0"]
    unfolding rc_def by simp_all
  have a: "a \<le> body_length s - bytes_sent s" by (simp add: a_def clg_amount_def min_le_iff_disj)
  note adv = unat_advance [OF rc a assms(3)]
  have "nat rc \<le> unat a" using rc by linarith
  then have "take (nat rc) (replicate (unat a) (0::u8)) = replicate (nat rc) 0" by (simp add: min_def)
  then show ?thesis using that [of "[PnLinkSend (replicate (nat rc) 0)]" "nat rc"] s' adv
    unfolding rc_def [symmetric] by (simp add: emit_def)
qed

section \<open>Every event keeps the stream\<close>

lemma clg_stream_cong:
  assumes "clg_stream s" and "out s' = out s @ cs" and "sent_bytes cs = []" and "advances cs = 0"
    and "body_length s' = body_length s" and "dlv s' = dlv s" and "bytes_sent s' = bytes_sent s"
    and "limit s' = limit s" and "count s' = count s"
  shows "clg_stream s'"
  using assms by (simp add: clg_stream_def)

lemma start_message_keeps:
  assumes "start_message wr s = Inr s'" and "clg_stream s" and "limit s = 0 \<or> count s < limit s"
  shows "clg_stream s'"
  using start_message_Inr [OF assms(1)] assms(2,3)
  by (auto simp: clg_stream_def clg_prefix_def)

lemma clg_send_chunk_keeps:
  assumes "clg_send_chunk wr s = Inr s'" and "writes_at_most wr" and "clg_stream s" and "dlv s"
  shows "clg_stream s' \<and> dlv s'"
proof -
  have le: "bytes_sent s \<le> body_length s" using assms(3) by (simp add: clg_stream_def)
  obtain cs n where n: "s' = emit cs (s\<lparr>bytes_sent := bytes_sent s'\<rparr>)"
      "cs = [] \<and> n = 0 \<or> cs = [PnLinkSend (replicate n 0)]"
      "unat (bytes_sent s') = unat (bytes_sent s) + n" "bytes_sent s' \<le> body_length s"
    by (rule clg_send_chunk_Inr [OF assms(1,2) le])
  have f: "out s' = out s @ cs" "dlv s' = dlv s" "body_length s' = body_length s"
      "limit s' = limit s" "count s' = count s"
    by (subst n(1), simp)+
  have "sent_bytes cs = replicate n 0" "advances cs = 0" using n(2) by auto
  then show ?thesis using assms(3,4) n(3,4) f
    by (simp add: clg_stream_def clg_prefix_def replicate_add)
qed

lemma clg_finish_message_keeps:
  assumes "clg_finish_message s = (b, s')" and "clg_stream s" and "dlv s"
  shows "clg_stream s' \<and> (b \<longrightarrow> \<not> dlv s')"
proof (cases "bytes_sent s = body_length s")
  case False
  then show ?thesis using assms by (auto simp: clg_finish_message_def)
next
  case True
  define cs where "cs = PnLinkAdvance # (if presettle s then PnSettle # (if limit s \<noteq> 0 \<and> count s + 1 = limit s
       then [PnProactorInterrupt] else []) else [])"
  have f: "out s' = out s @ cs" "\<not> dlv s'" "body_length s' = body_length s" "bytes_sent s' = bytes_sent s"
      "limit s' = limit s" "count s' = count s + 1"
    using assms(1) True by (auto simp: clg_finish_message_def Let_def cs_def)
  have "sent_bytes cs = []" "advances cs = 1" by (auto simp: cs_def)
  moreover have "unat (count s + 1) = Suc (unat (count s))" "count s + 1 \<le> limit s" if "count s < limit s"
    using that by (simp_all add: unat_Suc_word inc_le_word)
  ultimately show ?thesis using assms(2,3) f True
    by (auto simp: clg_stream_def clg_wire_def concat_replicate_snoc simp del: replicate_Suc)
qed

lemma send_message_data_keeps:
  assumes "send_message_data wr s = Inr (b, s')" and "writes_at_most wr" and "clg_stream s"
  shows "clg_stream s' \<and> (b \<longrightarrow> \<not> dlv s')"
proof (cases "dlv s")
  case False
  then show ?thesis using assms by (simp add: send_message_data_def)
next
  case True
  then obtain t where t: "clg_send_chunk wr s = Inr t" "clg_finish_message t = (b, s')"
    using assms(1) by (auto simp: send_message_data_def bnd_eq_Inr)
  from clg_send_chunk_keeps [OF t(1) assms(2,3) True] show ?thesis
    using clg_finish_message_keeps [OF t(2)] by blast
qed

lemma clg_start_and_wait_keeps:
  assumes "clg_start_and_wait wr s = Inr s'" and "clg_stream s" and "limit s = 0 \<or> count s < limit s"
  shows "clg_stream s'"
proof -
  obtain t where t: "start_message wr s = Inr t" "s' = emit [PnSetTimeout (pause_msec t)] t"
    using assms(1) by (auto simp: clg_start_and_wait_def bnd_eq_Inr)
  show ?thesis
    using start_message_keeps [OF t(1) assms(2,3)]
    by (rule clg_stream_cong [where cs = "[PnSetTimeout (pause_msec t)]"]) (simp_all add: t(2))
qed

lemma clg_wake_keeps:
  assumes "clg_wake wr credit s = Inr s'" and "writes_at_most wr" and "clg_stream s"
  shows "clg_stream s'"
proof -
  obtain b t where t: "send_message_data wr s = Inr (b, t)"
      "(if \<not> b then Inr (emit [PnSetTimeout (pause_msec t)] t)
        else if (limit t = 0 \<or> count t < limit t) \<and> 0 < credit then clg_start_and_wait wr t
        else Inr t) = Inr s'"
    using assms(1) by (auto simp: clg_wake_def bnd_eq_Inr)
  have k: "clg_stream t" using send_message_data_keeps [OF t(1) assms(2,3)] by simp
  have e: "clg_stream (emit [PnSetTimeout (pause_msec t)] t)"
    using k by (rule clg_stream_cong [where cs = "[PnSetTimeout (pause_msec t)]"]) simp_all
  show ?thesis using t(2) k e clg_start_and_wait_keeps [OF _ k]
    by (auto split: if_splits)
qed

lemma clg_delivery_keeps:
  assumes "clg_stream s"
  shows "clg_stream (clg_delivery updated rs s)"
proof -
  have "\<exists>cs. out (clg_delivery updated rs s) = out s @ cs \<and> sent_bytes cs = [] \<and> advances cs = 0"
    by (cases rs) (auto simp: clg_delivery_def Let_def)
  then obtain cs where cs: "out (clg_delivery updated rs s) = out s @ cs" "sent_bytes cs = []" "advances cs = 0"
    by blast
  show ?thesis
    by (rule clg_stream_cong [OF assms cs])
      (cases rs; simp add: clg_delivery_def Let_def)+
qed

lemma clg_handler_keeps:
  assumes wr: "writes_at_most wr" and k: "clg_stream s" and h: "clg_event_handler wr s e = Inr (d, s')"
  shows "clg_stream s'"
proof (cases e)
  case CG_CONNECTION_INIT
  have "sent_bytes (if use_anonymous s then [] else [PnSetTarget (target_address s)]) = []" by simp
  then show ?thesis using h k unfolding CG_CONNECTION_INIT
    by (auto simp: clg_connection_init_def clg_stream_def)
next
  case (CG_CONNECTION_REMOTE_OPEN x2)
  then show ?thesis using h k by (auto simp: clg_stream_def)
next
  case (CG_LINK_FLOW c)
  then show ?thesis using h k clg_start_and_wait_keeps [OF _ k]
    by (auto simp: clg_link_flow_def bnd_eq_Inr split: if_splits)
next
  case (CG_DELIVERY u rs)
  then show ?thesis using h clg_delivery_keeps [OF k] by auto
next
  case CG_PROACTOR_TIMEOUT
  then show ?thesis using h k by (cases "conn s") (auto simp: clg_stream_def)
next
  case (CG_CONNECTION_WAKE c)
  then show ?thesis using h clg_wake_keeps [OF _ wr k] by (auto simp: bnd_eq_Inr)
next
  case (CG_SIGNAL sig)
  then show ?thesis using h k
    by (cases "sig_ign s"; cases "sig = SIGOTHER")
      (auto simp: clg_signal_handler_def clg_stream_def Let_def)
qed (use h k in auto)

lemma clg_close_keeps: "clg_stream s \<Longrightarrow> clg_stream (clg_close s)"
  by (auto simp: clg_close_def clg_stream_def)

section \<open>The program\<close>

definition clg_fresh :: "clogger \<Rightarrow> bool" where
  "clg_fresh s \<longleftrightarrow> out s = [] \<and> \<not> dlv s \<and> bytes_sent s = 0 \<and> count s = 0 \<and> \<not> stop s"

lemma clg_option_fresh: "clg_option p s = Inr s' \<Longrightarrow> clg_fresh s \<Longrightarrow> clg_fresh s'"
  by (auto simp: clg_option_def clg_fresh_def usage_def split: prod.splits if_splits option.splits)

text \<open>
  A stop is always announced with an interrupt, and the connection is open until it has been
  closed.
\<close>

definition clg_stops :: "clogger \<Rightarrow> bool" where
  "clg_stops s \<longleftrightarrow> (stop s \<longrightarrow> PnProactorInterrupt \<in> set (out s))
     \<and> (conn s \<or> PnConnectionClose \<in> set (out s))"

definition clg_grows :: "clogger \<Rightarrow> clogger \<Rightarrow> bool" where
  "clg_grows s s' \<longleftrightarrow> conn s' = conn s
     \<and> (\<exists>cs. out s' = out s @ cs \<and> (stop s' \<longrightarrow> stop s \<or> PnProactorInterrupt \<in> set cs))"

lemma clg_growsI:
  "out s' = out s @ cs \<Longrightarrow> conn s' = conn s \<Longrightarrow> stop s' \<longrightarrow> stop s \<or> PnProactorInterrupt \<in> set cs
     \<Longrightarrow> clg_grows s s'"
  unfolding clg_grows_def by blast

lemma clg_grows_refl: "clg_grows s s"
  by (rule clg_growsI [of _ _ "[]"]) simp_all

lemma clg_grows_trans: "clg_grows s t \<Longrightarrow> clg_grows t s' \<Longrightarrow> clg_grows s s'"
  by (auto simp: clg_grows_def)

lemma clg_grows_emit: "clg_grows s t \<Longrightarrow> clg_grows s (emit cs t)"
  by (rule clg_grows_trans [OF _ clg_growsI]) auto

lemma clg_grows_stops: "clg_grows s s' \<Longrightarrow> clg_stops s \<Longrightarrow> clg_stops s'"
  by (auto simp: clg_grows_def clg_stops_def)

lemma clg_start_and_wait_grows:
  assumes "clg_start_and_wait wr s = Inr s'"
  shows "clg_grows s s'"
proof -
  obtain t where t: "start_message wr s = Inr t" "s' = emit [PnSetTimeout (pause_msec t)] t"
    using assms by (auto simp: clg_start_and_wait_def bnd_eq_Inr)
  have "clg_grows s t"
    using start_message_Inr [OF t(1)] clg_grows_refl by (auto intro!: clg_growsI)
  then show ?thesis unfolding t(2) by (rule clg_grows_emit)
qed

lemma clg_send_chunk_grows:
  assumes "clg_send_chunk wr s = Inr s'"
  shows "clg_grows s s'"
proof (cases "bytes_sent s < body_length s")
  case False
  then show ?thesis using assms clg_grows_refl by (simp add: clg_send_chunk_def)
next
  case True
  show ?thesis by (subst clg_send_chunk_more(3) [OF True assms]) (rule clg_growsI, simp_all)
qed

lemma clg_finish_message_grows:
  assumes "clg_finish_message s = (b, s')"
  shows "clg_grows s s'"
proof (cases "bytes_sent s = body_length s")
  case False
  then show ?thesis using assms clg_grows_refl by (simp add: clg_finish_message_def)
next
  case True
  show ?thesis
    by (rule clg_growsI [of _ _ "drop (length (out s)) (out s')"])
      (use assms True in \<open>cases "presettle s"; auto simp: clg_finish_message_def Let_def split: if_splits\<close>)+
qed

lemma send_message_data_grows:
  assumes "send_message_data wr s = Inr (b, s')"
  shows "clg_grows s s'"
proof (cases "dlv s")
  case False
  then show ?thesis using assms clg_grows_refl by (simp add: send_message_data_def)
next
  case True
  then obtain t where "clg_send_chunk wr s = Inr t" "clg_finish_message t = (b, s')"
    using assms by (auto simp: send_message_data_def bnd_eq_Inr)
  then show ?thesis using clg_send_chunk_grows clg_finish_message_grows clg_grows_trans by blast
qed

lemma clg_wake_grows:
  assumes "clg_wake wr credit s = Inr s'"
  shows "clg_grows s s'"
proof -
  obtain b t where t: "send_message_data wr s = Inr (b, t)"
      "(if \<not> b then Inr (emit [PnSetTimeout (pause_msec t)] t)
        else if (limit t = 0 \<or> count t < limit t) \<and> 0 < credit then clg_start_and_wait wr t
        else Inr t) = Inr s'"
    using assms by (auto simp: clg_wake_def bnd_eq_Inr)
  have k: "clg_grows s t" using send_message_data_grows [OF t(1)] .
  then show ?thesis using t(2) clg_grows_emit [OF k] clg_start_and_wait_grows clg_grows_trans [OF k]
    by (auto split: if_splits)
qed

lemma clg_delivery_grows: "clg_grows s (clg_delivery u rs s)"
proof (cases "u")
  case True
  define cs where "cs = drop (length (out s)) (out (clg_delivery u rs s))"
  show ?thesis
    by (rule clg_growsI [of _ _ cs]) (cases rs; simp add: cs_def clg_delivery_def Let_def True)+
qed (simp add: clg_delivery_def clg_grows_refl)

lemma clg_handler_grows:
  assumes "clg_event_handler wr s e = Inr (d, s')"
  shows "clg_grows s s' \<and> (d \<longrightarrow> stop s')"
proof (cases e)
  case CG_CONNECTION_INIT
  then show ?thesis using assms by (auto simp: clg_connection_init_def intro!: clg_growsI)
next
  case (CG_CONNECTION_REMOTE_OPEN rmf)
  then show ?thesis using assms by (auto intro!: clg_growsI)
next
  case (CG_LINK_FLOW c)
  then show ?thesis using assms clg_start_and_wait_grows clg_grows_refl
    by (auto simp: clg_link_flow_def bnd_eq_Inr split: if_splits)
next
  case (CG_DELIVERY u rs)
  then show ?thesis using assms clg_delivery_grows by auto
next
  case CG_PROACTOR_TIMEOUT
  then show ?thesis using assms clg_grows_refl clg_grows_emit by (cases "conn s") auto
next
  case (CG_CONNECTION_WAKE c)
  then show ?thesis using assms clg_wake_grows by (auto simp: bnd_eq_Inr)
next
  case (CG_SIGNAL sig)
  then show ?thesis using assms clg_grows_refl
    by (cases "sig_ign s"; cases "sig = SIGOTHER")
      (auto simp: clg_signal_handler_def Let_def intro!: clg_growsI)
qed (use assms clg_grows_refl in auto)

lemma clg_handler_stops: "clg_stops s \<Longrightarrow> clg_event_handler wr s e = Inr (d, s') \<Longrightarrow> clg_stops s'"
  using clg_handler_grows clg_grows_stops by blast

lemma clg_close_stops: "clg_stops s \<Longrightarrow> clg_stops (clg_close s)"
  by (auto simp: clg_close_def clg_stops_def)

text \<open>The contract of the main loop: on a link that takes at most what it is given, the stream.\<close>

definition clg_inv :: "(u8 list \<Rightarrow> int) \<Rightarrow> clogger \<Rightarrow> bool" where
  "clg_inv wr s \<longleftrightarrow> (writes_at_most wr \<longrightarrow> clg_stream s) \<and> clg_stops s"

interpretation clg: finishing_client "clg_event_handler wr" clg_close "clg_inv wr" stop for wr
proof (unfold_locales, goal_cases)
  case (1 s e d s')
  then show ?case using clg_handler_stops clg_handler_keeps by (auto simp: clg_inv_def)
next
  case (2 s)
  then show ?case using clg_close_stops clg_close_keeps by (auto simp: clg_inv_def)
next
  case (3 s e s')
  then show ?case using clg_handler_grows by blast
next
  case (4 s)
  then show ?case by (simp add: clg_close_def)
qed

lemma clg_main_starts:
  assumes "clg_main wr opts ess = Inr (d, s)"
  obtains s0 where "clg_inv wr s0" and "\<not> stop s0"
    and "proactor_loop (clg_event_handler wr) clg_close s0 ess = Inr (d, s)"
proof -
  obtain g where g: "parse_opts clg_option opts clg_globals = Inr g"
    "proactor_loop (clg_event_handler wr) clg_close
       (emit [PnSetContainer (container_name g), PnSetHostname (host_address g), PnProactorConnect (host_address g)] (g\<lparr>conn := True\<rparr>)) ess = Inr (d, s)"
    using assms by (auto simp: clg_main_def bnd_eq_Inr)
  have "clg_fresh clg_globals" by (simp add: clg_fresh_def clg_globals_def)
  from parse_opts_preserves [where P = clg_fresh, OF clg_option_fresh this g(1)] have "clg_fresh g" .
  then show ?thesis using that [OF _ _ g(2)]
    by (simp add: clg_inv_def clg_fresh_def clg_stream_def clg_stops_def)
qed

lemma clg_main_stream:
  assumes "writes_at_most wr" and "clg_main wr opts ess = Inr (d, s)"
  shows "clg_stream s"
proof -
  obtain s0 where s0: "clg_inv wr s0" "proactor_loop (clg_event_handler wr) clg_close s0 ess = Inr (d, s)"
    by (rule clg_main_starts [OF assms(2)])
  show ?thesis using clg.loop_keeps [OF s0] assms(1) by (simp add: clg_inv_def)
qed

lemma clg_prefix_take:
  assumes "n \<le> unat len"
  shows "clg_prefix len n = take (16 + n) (clg_wire len)"
proof -
  have "length (msg_header @ be32 len) = 16" by (simp add: msg_header_def)
  then have "take (16 + n) ((msg_header @ be32 len) @ replicate (unat len) 0)
      = (msg_header @ be32 len) @ replicate n (0 :: u8)"
    using assms by (simp only: take_append) (simp add: min_def)
  then show ?thesis by (simp add: clg_wire_def clg_prefix_def)
qed

text \<open>C1: whatever the peer grants and whatever the link accepts of each chunk, what the
  clogger writes is a sequence of complete messages and then the beginning of one more: each
  message is the fixed header, the body length in network order and exactly that many body
  bytes. With a limit, no more messages than that are started.\<close>

theorem clg_writes_whole_messages:
  assumes "writes_at_most wr" and "clg_main wr opts ess = Inr (d, s)"
  shows "\<exists>k. sent_bytes (out s) = concat (replicate (advances (out s)) (clg_wire (body_length s)))
              @ take k (clg_wire (body_length s))
          \<and> (limit s \<noteq> 0 \<longrightarrow> advances (out s) + (if k = 0 then 0 else 1) \<le> unat (limit s))
          \<and> length (clg_wire (body_length s)) = 16 + unat (body_length s)
          \<and> read_be32 (drop 12 (clg_wire (body_length s))) = uint (body_length s)"
proof -
  have k: "clg_stream s" by (rule clg_main_stream [OF assms])
  have r: "read_be32 (be32 x @ bs) = uint x" for x bs
    by (subst read_be32 [of x, symmetric]) (simp add: read_be32_def nth_append)
  have w: "length (clg_wire (body_length s)) = 16 + unat (body_length s)"
      "drop 12 (clg_wire (body_length s)) = be32 (body_length s) @ replicate (unat (body_length s)) 0"
    by (simp_all add: clg_wire_def clg_prefix_def msg_header_def)
  show ?thesis
  proof (intro exI conjI)
    show "sent_bytes (out s) = concat (replicate (advances (out s)) (clg_wire (body_length s)))
        @ take (if dlv s then 16 + unat (bytes_sent s) else 0) (clg_wire (body_length s))"
      using k by (auto simp: clg_stream_def clg_prefix_take word_le_nat_alt)
    show "limit s \<noteq> 0 \<longrightarrow> advances (out s) + (if (if dlv s then 16 + unat (bytes_sent s) else 0) = 0 then 0 else 1)
        \<le> unat (limit s)"
      using k by (auto simp: clg_stream_def word_le_nat_alt word_less_nat_alt)
  qed (simp_all add: w r)
qed

lemma clg_sample_run:
  "\<exists>s. clg_main (\<lambda>bs. int (length bs)) [(CHR ''s'', ''3'')]
       [[CG_CONNECTION_INIT, CG_LINK_FLOW 1], [CG_CONNECTION_WAKE 0]] = Inr (False, s) \<and> advances (out s) = 1"
  by (simp add: clg_main_def clg_option_def clg_globals_def scan_u32_def scan_number_def read_sign_def
      is_space_def is_digit_def strtoul_def clg_connection_init_def clg_link_flow_def
      clg_start_and_wait_def start_message_def clg_link_send_def msg_header_def emit_def clg_wake_def
      send_message_data_def clg_send_chunk_def clg_finish_message_def clg_close_def Let_def DEFAULT_MAX_FRAME_def)

theorem clg_writes_whole_messages_witness:
  "\<exists>d s k. clg_main (\<lambda>bs. int (length bs)) [(CHR ''s'', ''3'')]
       [[CG_CONNECTION_INIT, CG_LINK_FLOW 1], [CG_CONNECTION_WAKE 0]] = Inr (d, s)
     \<and> sent_bytes (out s) = concat (replicate (advances (out s)) (clg_wire (body_length s)))
              @ take k (clg_wire (body_length s))
     \<and> advances (out s) = 1"
proof -
  define wr :: "u8 list \<Rightarrow> int" where "wr = (\<lambda>bs. int (length bs))"
  have w: "writes_at_most wr" by (simp add: writes_at_most_def wr_def)
  obtain d s where m: "clg_main wr [(CHR ''s'', ''3'')]
       [[CG_CONNECTION_INIT, CG_LINK_FLOW 1], [CG_CONNECTION_WAKE 0]] = Inr (d, s)" "advances (out s) = 1"
    using clg_sample_run unfolding wr_def by blast
  from clg_writes_whole_messages [OF w m(1)] m show ?thesis unfolding wr_def by blast
qed

text \<open>C20: the clogger leaves its loop only after a stop: an interrupt has been raised, and the
  connection, which was open until then, has been closed.\<close>

theorem clg_ends_stopped_and_closed:
  assumes "clg_main wr opts ess = Inr (True, s)"
  shows "stop s \<and> PnProactorInterrupt \<in> set (out s) \<and> \<not> conn s \<and> PnConnectionClose \<in> set (out s)"
proof -
  obtain s0 where s0: "clg_inv wr s0"
      "proactor_loop (clg_event_handler wr) clg_close s0 ess = Inr (True, s)"
    by (rule clg_main_starts [OF assms])
  have "stop s" by (rule clg.loop_finished [OF s0])
  moreover have "clg_stops s" using clg.loop_keeps [OF s0] by (simp add: clg_inv_def)
  moreover obtain t where "s = clg_close t" using loop_done_after [OF s0(2)] by blast
  ultimately show ?thesis by (auto simp: clg_stops_def clg_close_def split: if_splits)
qed

theorem clg_ends_stopped_and_closed_witness:
  "\<exists>s. clg_main (\<lambda>bs. 0) [] [[CG_SIGNAL SIGINT], [CG_PROACTOR_INACTIVE]] = Inr (True, s)
     \<and> stop s \<and> \<not> conn s"
proof -
  have "\<exists>s. clg_main (\<lambda>bs. 0) [] [[CG_SIGNAL SIGINT], [CG_PROACTOR_INACTIVE]] = Inr (True, s)"
    by (simp add: clg_main_def clg_globals_def clg_signal_handler_def emit_def clg_close_def)
  then obtain s where m: "clg_main (\<lambda>bs. 0) [] [[CG_SIGNAL SIGINT], [CG_PROACTOR_INACTIVE]] = Inr (True, s)"
    by blast
  with clg_ends_stopped_and_closed [OF m] show ?thesis by blast
qed

section \<open>Progress\<close>

text \<open>What one wake does when the link takes every chunk whole and there is no further credit.\<close>

definition chunk :: "clogger \<Rightarrow> nat" where
  "chunk s = min (unat (remote_max_frame s)) 65535"

lemma unat_min_u32: "unat (min x (y :: u32)) = min (unat x) (unat y)"
  by (simp add: min_def word_le_nat_alt)

definition finish_calls :: "clogger \<Rightarrow> pn_call list" where
  "finish_calls s = PnLinkAdvance # (if presettle s
     then PnSettle # (if limit s \<noteq> 0 \<and> count s + 1 = limit s then [PnProactorInterrupt] else []) else [])"

lemma clg_finish_message_eq:
  assumes "bytes_sent s = body_length s"
  shows "clg_finish_message s = (True, emit (finish_calls s)
     (s\<lparr>count := count s + 1, dlv := False,
        stop := stop s \<or> presettle s \<and> limit s \<noteq> 0 \<and> count s + 1 = limit s\<rparr>))"
  using assms
  by (cases "presettle s"; cases "limit s = 0"; cases "count s + 1 = limit s")
    (simp_all add: clg_finish_message_def Let_def finish_calls_def emit_def)

lemma clg_wake_step:
  assumes "dlv s" and "g_link s" and "bytes_sent s \<le> body_length s"
    and "a = min (unat (body_length s) - unat (bytes_sent s)) (chunk s)"
  obtains s' cs where "clg_event_handler (\<lambda>bs. int (length bs)) s (CG_CONNECTION_WAKE 0) = Inr (False, s')"
    and "unat (bytes_sent s') = unat (bytes_sent s) + a" and "out s' = out s @ cs"
    and "sent_bytes cs = replicate a 0" and "body_length s' = body_length s" and "g_link s'"
    and "chunk s' = chunk s" and "bytes_sent s' \<le> body_length s"
    and "dlv s' \<longleftrightarrow> bytes_sent s' \<noteq> body_length s"
    and "count s' = (if dlv s' then count s else count s + 1)"
proof -
  let ?wr = "\<lambda>bs :: u8 list. int (length bs)"
  define w where "w = min (min (body_length s - bytes_sent s) (remote_max_frame s)) DEFAULT_MAX_FRAME"
  define t where "t = (if bytes_sent s < body_length s
     then emit [PnLinkSend (replicate a 0)] (s\<lparr>bytes_sent := bytes_sent s + w\<rparr>) else s)"
  have le: "unat (bytes_sent s) \<le> unat (body_length s)" using assms(3) by (simp add: word_le_nat_alt)
  have a: "unat w = a"
    using assms(3,4) by (simp add: unat_min_u32 unat_sub chunk_def DEFAULT_MAX_FRAME_def w_def)
  have wi: "word_of_nat a = w" by (simp flip: a)
  have wle: "w \<le> body_length s - bytes_sent s" by (simp add: w_def min_le_iff_disj)
  have adv: "unat (bytes_sent s + w) = unat (bytes_sent s) + a" "bytes_sent s + w \<le> body_length s"
    using unat_advance [OF _ _ wle assms(3), of "int a"] a by (simp_all add: wi)
  have c: "clg_send_chunk ?wr s = Inr t"
    using assms(2) a by (simp add: clg_send_chunk_def clg_link_send_def Let_def t_def emit_def flip: w_def)
  have full: "bytes_sent s = body_length s" if "\<not> bytes_sent s < body_length s"
    using that assms(3) by simp
  have t: "unat (bytes_sent t) = unat (bytes_sent s) + a" "bytes_sent t \<le> body_length s"
      "body_length t = body_length s" "g_link t" "chunk t = chunk s" "count t = count s" "dlv t"
      "limit t = limit s" "presettle t = presettle s" "stop t = stop s"
    using adv assms full by (auto simp: t_def chunk_def)
  have ot: "out t = out s @ (if bytes_sent s < body_length s then [PnLinkSend (replicate a 0)] else [])"
    by (simp add: t_def)
  have a0: "a = 0" if "\<not> bytes_sent s < body_length s" using full [OF that] assms(4) by simp
  show ?thesis
  proof (cases "bytes_sent t = body_length t")
    case False
    then have "clg_event_handler ?wr s (CG_CONNECTION_WAKE 0)
        = Inr (False, emit [PnSetTimeout (pause_msec t)] t)"
      using c assms(1) by (simp add: clg_wake_def send_message_data_def clg_finish_message_def)
    then show ?thesis
      by (rule that [where cs = "drop (length (out s)) (out t) @ [PnSetTimeout (pause_msec t)]"])
        (use t False a0 in \<open>simp_all add: ot chunk_def\<close>)
  next
    case True
    define cs u where "cs = finish_calls t"
      and "u = emit cs (t\<lparr>count := count t + 1, dlv := False,
             stop := stop t \<or> presettle t \<and> limit t \<noteq> 0 \<and> count t + 1 = limit t\<rparr>)"
    have u: "clg_finish_message t = (True, u)"
      using clg_finish_message_eq [OF True] by (simp only: u_def cs_def)
    have fu: "body_length u = body_length t" "bytes_sent u = bytes_sent t" "g_link u = g_link t"
      "remote_max_frame u = remote_max_frame t" "\<not> dlv u" "count u = count t + 1"
      by (simp_all add: u_def)
    have ou: "out u = out t @ cs" "sent_bytes cs = []" by (simp_all add: u_def cs_def finish_calls_def)
    have "clg_event_handler ?wr s (CG_CONNECTION_WAKE 0) = Inr (False, u)"
      using c u assms(1) by (simp add: clg_wake_def send_message_data_def)
    then show ?thesis
      by (rule that [where cs = "drop (length (out s)) (out t) @ cs"])
        (use t fu a0 True in \<open>simp_all add: ou ot chunk_def\<close>)
  qed
qed

text \<open>The body bytes written and the progress after \<open>m\<close> wakes, \<open>r\<close> being left at first.\<close>

lemma clg_wakes:
  assumes "dlv s" and "g_link s" and "bytes_sent s \<le> body_length s"
    and "r = unat (body_length s) - unat (bytes_sent s)" and "m \<le> 1 \<or> (m - 1) * chunk s < r"
  shows "\<exists>s'. batch (clg_event_handler (\<lambda>bs. int (length bs))) s (replicate m (CG_CONNECTION_WAKE 0))
              = Inr (False, s')
            \<and> sent_bytes (out s') = sent_bytes (out s) @ replicate (min (m * chunk s) r) 0
            \<and> (dlv s' \<longleftrightarrow> m = 0 \<or> m * chunk s < r) \<and> count s' = (if dlv s' then count s else count s + 1)"
  using assms
proof (induction m arbitrary: s r)
  case 0
  then show ?case by simp
next
  case (Suc m)
  obtain s' cs where s': "clg_event_handler (\<lambda>bs. int (length bs)) s (CG_CONNECTION_WAKE 0) = Inr (False, s')"
      "unat (bytes_sent s') = unat (bytes_sent s) + min r (chunk s)" "out s' = out s @ cs"
      "sent_bytes cs = replicate (min r (chunk s)) 0" "body_length s' = body_length s" "g_link s'"
      "chunk s' = chunk s" "bytes_sent s' \<le> body_length s"
      "dlv s' \<longleftrightarrow> bytes_sent s' \<noteq> body_length s" "count s' = (if dlv s' then count s else count s + 1)"
    by (rule clg_wake_step [OF Suc(2-4) refl, folded Suc(5)])
  have le: "unat (bytes_sent s) \<le> unat (body_length s)" using Suc(4) by (simp add: word_le_nat_alt)
  then have d: "dlv s' \<longleftrightarrow> chunk s < r"
    using s'(2) Suc(5) unfolding s'(9) word_unat_eq_iff by linarith
  show ?case
  proof (cases m)
    case 0
    then show ?thesis using s' d by (simp add: min.commute)
  next
    case (Suc k)
    then have lt: "m * chunk s < r" using Suc.prems(5) by simp
    moreover have m1: "m * chunk s = chunk s + k * chunk s" using Suc by simp
    ultimately have g: "chunk s < r" by linarith
    have r: "r - chunk s = unat (body_length s') - unat (bytes_sent s')"
      using s'(2,5) Suc.prems(4) g by simp
    have k: "m \<le> 1 \<or> (m - 1) * chunk s' < r - chunk s"
      using lt m1 Suc s'(7) by (simp add: less_diff_conv)
    have "\<exists>s''. batch (clg_event_handler (\<lambda>bs. int (length bs))) s' (replicate m (CG_CONNECTION_WAKE 0))
            = Inr (False, s'')
        \<and> sent_bytes (out s'') = sent_bytes (out s') @ replicate (min (m * chunk s') (r - chunk s)) 0
        \<and> (dlv s'' \<longleftrightarrow> m = 0 \<or> m * chunk s' < r - chunk s) \<and> count s'' = (if dlv s'' then count s' else count s' + 1)"
      by (rule Suc.IH [OF _ s'(6) _ r k]) (use d g s'(5,8) in simp_all)
    then obtain s'' where s'': "batch (clg_event_handler (\<lambda>bs. int (length bs))) s' (replicate m (CG_CONNECTION_WAKE 0))
            = Inr (False, s'')"
        "sent_bytes (out s'') = sent_bytes (out s') @ replicate (min (m * chunk s) (r - chunk s)) 0"
        "dlv s'' \<longleftrightarrow> m = 0 \<or> m * chunk s < r - chunk s" "count s'' = (if dlv s'' then count s' else count s' + 1)"
      unfolding s'(7) by blast
    have "min r (chunk s) + min (m * chunk s) (r - chunk s) = min (Suc m * chunk s) r" using g by simp
    then have "sent_bytes (out s'') = sent_bytes (out s) @ replicate (min (Suc m * chunk s) r) 0"
      using s''(2) s'(3,4) by (simp add: replicate_add [symmetric])
    moreover have "dlv s'' \<longleftrightarrow> Suc m * chunk s < r" using s''(3) Suc by auto
    ultimately show ?thesis using s''(1,4) s'(1,10) d g by simp
  qed
qed



end
