(* ===== verification/ScaleSender.thy ===== *)
theory ScaleSender
  imports Proactor
begin

text \<open>
  \<open>clients/scale/src/sender.c\<close>: sends a number of copies of one message, encoded once at the
  start, and exits when enough of them have been dealt with. The record is the code's
  \<open>app_data_t\<close> with the static tag of the flow handler; \<open>msg_len\<close> is the length of the encoding, which
  the code converts from a \<open>size_t\<close> to an \<open>int\<close> (exact below \<open>2 ^ 31\<close> bytes, far above what a
  command line can hold); \<open>count\<close> counts down the messages still
  to send, \<open>acked\<close> the outcomes still to wait for. Both are C \<open>int\<close>s, read as exact numbers.
\<close>

section \<open>State\<close>

record app_data = world +
  count :: int
  anon :: bool
  presettled :: bool
  acked :: int
  target :: string
  msg_data :: "u8 list"
  msg_len :: int
  tag :: u64
  quiet :: bool
  address :: string
  container :: string

definition ssn_app_data :: app_data where
  "ssn_app_data = \<lparr>clk = 0, out = [], count = 1, anon = False, presettled = False, acked = 1,
     target = ''examples'', msg_data = [], msg_len = 0, tag = 0, quiet = False,
     address = ''localhost'', container = ''SendExample''\<rparr>"

lemma emit_app_data [simp]:
  "count (emit cs s) = count s" "anon (emit cs s) = anon s" "presettled (emit cs s) = presettled s"
  "acked (emit cs s) = acked s" "target (emit cs s) = target s" "msg_data (emit cs s) = msg_data s"
  "msg_len (emit cs s) = msg_len s" "tag (emit cs s) = tag s" "quiet (emit cs s) = quiet s"
  "address (emit cs s) = address s" "container (emit cs s) = container s"
  by (simp_all add: emit_def)

section \<open>The events\<close>

text \<open>
  \<open>PN_LINK_FLOW credit\<close> carries the credit of the link, \<open>PN_DELIVERY updated rs k\<close> whether the
  delivery was updated and its remote state (the number \<open>k\<close> is not used here). A remote state
  of 0 is no state.
\<close>

definition has_state :: "disposition \<Rightarrow> bool" where
  "has_state rs \<longleftrightarrow> rs \<noteq> PN_OTHER 0"

definition ssn_connection_init :: "app_data \<Rightarrow> app_data" where
  "ssn_connection_init s =
     emit ([PnConnectionOpen, PnSession, PnSessionOpen, PnSender ''MySender'', PnSetSndSettleMode PN_SND_MIXED]
           @ (if anon s then [] else [PnSetTarget (target s)]) @ [PnLinkOpen]) s"

definition ssn_send_one :: "app_data \<Rightarrow> app_data" where
  "ssn_send_one s =
     (let s = s\<lparr>count := count s - 1, tag := tag s + 1\<rparr>;
          s = emit [PnDelivery (tag s), PnLinkSend (take (nat (msg_len s)) (msg_data s)), PnLinkAdvance] s
      in if presettled s \<and> 0 < count s then emit [PnSettle] s else s)"

function ssn_link_flow :: "int \<Rightarrow> app_data \<Rightarrow> app_data" where
  "ssn_link_flow credit s =
     (if 0 < credit \<and> 0 < count s then ssn_link_flow (credit - 1) (ssn_send_one s) else s)"
  by pat_completeness auto
termination by (relation "measure (\<lambda>(credit, s). nat credit)") auto

declare ssn_link_flow.simps [simp del]

definition ssn_delivery :: "bool \<Rightarrow> disposition \<Rightarrow> app_data \<Rightarrow> app_data" where
  "ssn_delivery updated rs s =
     (if updated \<and> has_state rs then
        let s = (if rs = PN_RECEIVED then s else emit [PnSettle] (s\<lparr>acked := acked s - 1\<rparr>))
        in if acked s = 0 then emit [PnLinkClose, PnSessionClose, PnConnectionClose] s else s
      else s)"

fun ssn_event_handler :: "app_data \<Rightarrow> tx_event \<Rightarrow> halt + app_data" where
  "ssn_event_handler s PN_CONNECTION_INIT = Inr (ssn_connection_init s)"
| "ssn_event_handler s (PN_LINK_FLOW credit) = Inr (ssn_link_flow credit s)"
| "ssn_event_handler s (PN_DELIVERY updated rs _) = Inr (ssn_delivery updated rs s)"
| "ssn_event_handler s _ = Inr s"

section \<open>\<open>main\<close>\<close>

definition ssn_option :: "opt \<Rightarrow> app_data \<Rightarrow> halt + app_data" where
  "ssn_option p s =
     (case p of (c, optarg) \<Rightarrow>
      if c = CHR ''h'' then usage
      else if c = CHR ''a'' then Inr (s\<lparr>address := optarg\<rparr>)
      else if c = CHR ''c'' then
        (let s = s\<lparr>count := atoi optarg\<rparr> in if count s < 1 then usage else Inr s)
      else if c = CHR ''t'' then Inr (s\<lparr>target := optarg\<rparr>)
      else if c = CHR ''n'' then Inr (s\<lparr>anon := True\<rparr>)
      else if c = CHR ''i'' then Inr (s\<lparr>container := optarg\<rparr>)
      else if c = CHR ''q'' then Inr (s\<lparr>quiet := True\<rparr>)
      else if c = CHR ''p'' then Inr (s\<lparr>presettled := True\<rparr>)
      else usage)"

text \<open>
  The message: an address and a string. \<open>pn_data_fill()\<close> is an argument, and so is what
  \<open>malloc(n)\<close> finds in memory: the code looks at the result of \<open>pn_message_encode()\<close> for an
  overflow only, and after another error it sends the buffer as it is.
\<close>

definition text_message :: "string \<Rightarrow> string \<Rightarrow> message" where
  "text_message addr text =
     \<lparr>msg_address = Some addr, msg_priority = None, msg_annotations = [],
      msg_body = DClear # put_value (AString text) @ [DRewind]\<rparr>"

definition encode_text :: "(string \<Rightarrow> int) \<Rightarrow> (u64 \<Rightarrow> u8 list) \<Rightarrow> encoder \<Rightarrow> string \<Rightarrow> string \<Rightarrow> halt + u8 list" where
  "encode_text fill mem enc addr text =
     (if fill text \<noteq> 0 then Inl (Exit 1)
      else case encode_loop (enc (text_message addr text)) 128 of
             None \<Rightarrow> Inl Hang
           | Some (sz, Encoded bs) \<Rightarrow> Inr bs
           | Some (sz, rc) \<Rightarrow> Inr (mem sz))"

definition ssn_main :: "(string \<Rightarrow> int) \<Rightarrow> (u64 \<Rightarrow> u8 list) \<Rightarrow> encoder
    \<Rightarrow> opt list \<Rightarrow> string option \<Rightarrow> tx_event list \<Rightarrow> halt + app_data" where
  "ssn_main fill mem enc opts msgtext es =
     bnd (parse_opts ssn_option opts ssn_app_data) (\<lambda>s.
     let s = (if presettled s then s else s\<lparr>acked := count s\<rparr>);
         text = (case msgtext of Some t \<Rightarrow> t | None \<Rightarrow> ''Hello World!'')
     in bnd (encode_text fill mem enc (target s) text) (\<lambda>bs.
        let s = s\<lparr>msg_data := bs, msg_len := int (length bs)\<rparr>
        in run ssn_event_handler (emit [PnSetContainer (container s), PnSetHostname (address s)] s) es))"

section \<open>What a grant of credit sends\<close>

text \<open>The calls that send messages number \<open>t + 1\<close> to \<open>t + n\<close> when \<open>c\<close> are left to send.\<close>

definition last_calls :: "bool \<Rightarrow> int \<Rightarrow> pn_call list" where
  "last_calls presettle c = (if presettle \<and> 0 < c then [PnSettle] else [])"

fun ssn_blocks :: "bool \<Rightarrow> u8 list \<Rightarrow> u64 \<Rightarrow> int \<Rightarrow> nat \<Rightarrow> pn_call list" where
  "ssn_blocks p bs t c 0 = []"
| "ssn_blocks p bs t c (Suc n) =
     [PnDelivery (t + 1), PnLinkSend bs, PnLinkAdvance] @ last_calls p (c - 1)
     @ ssn_blocks p bs (t + 1) (c - 1) n"

lemma ssn_send_one_eq:
  "ssn_send_one s = emit ([PnDelivery (tag s + 1), PnLinkSend (take (nat (msg_len s)) (msg_data s)), PnLinkAdvance]
       @ last_calls (presettled s) (count s - 1)) (s\<lparr>count := count s - 1, tag := tag s + 1\<rparr>)"
  by (simp add: ssn_send_one_def last_calls_def Let_def)

lemma ssn_link_flow_eq:
  "ssn_link_flow credit s =
     emit (ssn_blocks (presettled s) (take (nat (msg_len s)) (msg_data s)) (tag s) (count s)
             (nat (min credit (count s))))
       (s\<lparr>count := count s - int (nat (min credit (count s))),
          tag := tag s + of_nat (nat (min credit (count s)))\<rparr>)"
proof (induction credit s rule: ssn_link_flow.induct)
  case (1 credit s)
  show ?case
  proof (cases "0 < credit \<and> 0 < count s")
    case False
    then have "nat (min credit (count s)) = 0" by auto
    then show ?thesis using False by (subst ssn_link_flow.simps) (auto simp: emit_def)
  next
    case True
    define n where "n = nat (min (credit - 1) (count s - 1))"
    have n: "nat (min credit (count s)) = Suc n"
      using True unfolding n_def by linarith
    show ?thesis using True "1.IH" [OF True] unfolding n ssn_link_flow.simps [of credit s]
      by (simp add: ssn_send_one_eq n_def [symmetric] emit_def add.commute add.left_commute)
  qed
qed

text \<open>The same, all at once: what sending \<open>n\<close> messages amounts to.\<close>

definition ssn_burst :: "nat \<Rightarrow> app_data \<Rightarrow> app_data" where
  "ssn_burst n s = s\<lparr>count := count s - int n, tag := tag s + of_nat n,
     out := out s @ concat (map (\<lambda>i. [PnDelivery (tag s + of_nat (Suc i)),
         PnLinkSend (take (nat (msg_len s)) (msg_data s)), PnLinkAdvance]
       @ (if presettled s \<and> int (Suc i) < count s then [PnSettle] else [])) [0..<n])\<rparr>"

lemma ssn_blocks_map:
  "ssn_blocks p bs t c n = concat (map (\<lambda>i. [PnDelivery (t + of_nat (Suc i)), PnLinkSend bs, PnLinkAdvance]
     @ (if p \<and> int (Suc i) < c then [PnSettle] else [])) [0..<n])"
proof (induction n arbitrary: t c)
  case (Suc n)
  have "[0..<Suc n] = 0 # map Suc [0..<n]" by (simp add: map_Suc_upt upt_conv_Cons del: upt_Suc)
  then show ?case
    by (simp add: Suc.IH last_calls_def comp_def algebra_simps del: upt_Suc)
qed simp

lemma tags_ssn_blocks: "tags (ssn_blocks p bs t c n) = map (\<lambda>i. t + of_nat i) [1..<Suc n]"
proof (induction n arbitrary: t c)
  case 0
  then show ?case by simp
next
  case (Suc n)
  have "map (\<lambda>i. t + of_nat i) [1..<Suc (Suc n)] = (t + 1) # map (\<lambda>i. (t + 1) + of_nat i) [1..<Suc n]"
    by (subst upt_conv_Cons, simp, simp only: map_Suc_upt [symmetric] list.map map_map)
      (simp add: comp_def add.assoc)
  then show ?case using Suc by (simp add: last_calls_def del: upt_Suc)
qed

lemma sent_bytes_ssn_blocks: "sent_bytes (ssn_blocks p bs t c n) = concat (replicate n bs)"
  by (induction n arbitrary: t c) (simp_all add: last_calls_def)

lemma settles_ssn_blocks:
  "int n \<le> c \<Longrightarrow> settles (ssn_blocks p bs t c n) = (if p then (if int n = c \<and> n \<noteq> 0 then n - 1 else n) else 0)"
  by (induction n arbitrary: t c) (auto simp: last_calls_def)

lemma closes_ssn_blocks: "PnConnectionClose \<notin> set (ssn_blocks p bs t c n)"
  by (induction n arbitrary: t c) (simp_all add: last_calls_def)

section \<open>The state of a run\<close>

text \<open>
  After \<open>n\<close> of the \<open>N\<close> messages \<open>bs\<close>, with \<open>k\<close> outcomes received of the \<open>A\<close> awaited.
\<close>

definition ssn_state :: "int \<Rightarrow> int \<Rightarrow> bool \<Rightarrow> u8 list \<Rightarrow> nat \<Rightarrow> nat \<Rightarrow> app_data \<Rightarrow> bool" where
  "ssn_state N A p bs n k s \<longleftrightarrow>
     int n \<le> N \<and> count s = N - int n \<and> tag s = of_nat n \<and> presettled s = p
     \<and> take (nat (msg_len s)) (msg_data s) = bs \<and> acked s = A - int k
     \<and> tags (out s) = map of_nat [1..<Suc n] \<and> sent_bytes (out s) = concat (replicate n bs)
     \<and> int (settles (out s)) = (if p then min (int n) (N - 1) else 0) + int k
     \<and> (PnConnectionClose \<in> set (out s) \<longleftrightarrow> A \<le> int k)"

text \<open>An outcome: an update with a state other than \<open>PN_RECEIVED\<close>.\<close>

fun outcome :: "tx_event \<Rightarrow> bool" where
  "outcome (PN_DELIVERY updated rs _) = (updated \<and> has_state rs \<and> rs \<noteq> PN_RECEIVED)"
| "outcome _ = False"

lemma map_upt_shift: "map (\<lambda>i. i + n) [Suc 0..<Suc m] = [Suc n..<Suc (n + m)]"
  by (induction m) simp_all

lemma tags_extend:
  "map of_nat [Suc 0..<Suc n] @ map (\<lambda>i. (of_nat n :: u64) + of_nat i) [Suc 0..<Suc m]
     = map of_nat [Suc 0..<Suc (n + m)]"
proof -
  have "[Suc 0..<Suc (n + m)] = [Suc 0..<Suc n] @ map (\<lambda>i. i + n) [Suc 0..<Suc m]"
    unfolding map_upt_shift using upt_add_eq_append [of "Suc 0" "Suc n" m] by (simp del: upt_Suc)
  then show ?thesis by (simp add: comp_def add.commute del: upt_Suc)
qed

lemma ssn_flow_state:
  assumes "ssn_state N A p bs n k s" and "1 \<le> N"
  shows "ssn_state N A p bs (n + nat (min credit (count s))) k (ssn_link_flow credit s)"
proof -
  define m where "m = nat (min credit (count s))"
  have c: "count s = N - int n" "int n \<le> N" using assms(1) by (simp_all add: ssn_state_def)
  then have m: "int m \<le> count s" unfolding m_def by linarith
  have "tags (ssn_blocks p bs (of_nat n) (N - int n) m) = map (\<lambda>i. of_nat n + of_nat i) [1..<Suc m]"
    by (rule tags_ssn_blocks)
  moreover have "int (settles (ssn_blocks p bs (of_nat n) (N - int n) m))
      = (if p then min (int (n + m)) (N - 1) - min (int n) (N - 1) else 0)"
    using m c assms(2) by (subst settles_ssn_blocks) (auto simp: min_def)
  ultimately show ?thesis
    unfolding ssn_link_flow_eq m_def [symmetric] using assms(1) m c
    by (simp add: ssn_state_def sent_bytes_ssn_blocks closes_ssn_blocks replicate_add tags_extend del: upt_Suc)
qed

lemma ssn_delivery_state:
  assumes "ssn_state N A p bs n k s" and "1 \<le> A"
  shows "ssn_state N A p bs n (k + (if updated \<and> has_state rs \<and> rs \<noteq> PN_RECEIVED then 1 else 0))
           (ssn_delivery updated rs s)"
proof (cases "updated \<and> has_state rs")
  case False
  then have "\<not> (updated \<and> has_state rs \<and> rs \<noteq> PN_RECEIVED)" by blast
  then show ?thesis using assms False by (simp only: ssn_delivery_def if_False add_0_right)
next
  case True
  define t where "t = (if rs = PN_RECEIVED then s else emit [PnSettle] (s\<lparr>acked := acked s - 1\<rparr>))"
  define k' where "k' = k + (if rs = PN_RECEIVED then 0 else 1)"
  have d: "ssn_delivery updated rs s
      = (if acked t = 0 then emit [PnLinkClose, PnSessionClose, PnConnectionClose] t else t)"
    using True by (simp add: ssn_delivery_def t_def)
  have t: "int n \<le> N" "count t = N - int n" "tag t = of_nat n" "presettled t = p"
      "take (nat (msg_len t)) (msg_data t) = bs" "acked t = A - int k'"
      "tags (out t) = map of_nat [1..<Suc n]" "sent_bytes (out t) = concat (replicate n bs)"
      "int (settles (out t)) = (if p then min (int n) (N - 1) else 0) + int k'"
      "PnConnectionClose \<in> set (out t) \<longleftrightarrow> A \<le> int k"
    using assms(1) by (auto simp: ssn_state_def t_def k'_def simp del: upt_Suc)
  have "k' = k \<or> k' = Suc k" by (simp add: k'_def)
  then have "ssn_state N A p bs n k' (ssn_delivery updated rs s)"
    unfolding d using t by (auto simp: ssn_state_def simp del: upt_Suc)
  then show ?thesis using True by (cases "rs = PN_RECEIVED") (simp_all add: k'_def)
qed

lemma ssn_event_state:
  assumes "ssn_event_handler s e = Inr s'" and "ssn_state N A p bs n k s" and "1 \<le> N" and "1 \<le> A"
  shows "\<exists>n'. ssn_state N A p bs n' (k + of_bool (outcome e)) s'"
proof (cases e)
  case (PN_LINK_FLOW credit)
  then show ?thesis using assms(1) ssn_flow_state [OF assms(2,3), of credit] by auto
next
  case (PN_DELIVERY u rs i)
  then show ?thesis using assms ssn_delivery_state [OF assms(2,4), of u rs] by (auto simp: of_bool_def)
next
  case PN_CONNECTION_INIT
  then show ?thesis using assms
    by (cases "anon s") (auto simp: ssn_state_def ssn_connection_init_def simp del: upt_Suc)
qed (use assms in \<open>auto simp del: upt_Suc\<close>)

lemma ssn_run_state:
  assumes "run ssn_event_handler s es = Inr s'" and "ssn_state N A p bs n k s" and "1 \<le> N" and "1 \<le> A"
  shows "\<exists>n'. ssn_state N A p bs n' (k + length (filter outcome es)) s'"
  using assms(1,2)
proof (induction es arbitrary: s n k)
  case Nil
  then show ?case by auto
next
  case (Cons e es)
  then obtain t where t: "ssn_event_handler s e = Inr t" "run ssn_event_handler t es = Inr s'"
    by (auto simp: bnd_eq_Inr)
  obtain n1 where "ssn_state N A p bs n1 (k + of_bool (outcome e)) t"
    using ssn_event_state [OF t(1) Cons.prems(2) assms(3,4)] by blast
  from Cons.IH [OF t(2) this] show ?case
    by (cases "outcome e") (simp_all add: add.assoc)
qed

definition ssn_fresh :: "app_data \<Rightarrow> bool" where
  "ssn_fresh s \<longleftrightarrow> out s = [] \<and> tag s = 0 \<and> 1 \<le> count s \<and> acked s = 1"

lemma ssn_option_fresh: "ssn_option p s = Inr s' \<Longrightarrow> ssn_fresh s \<Longrightarrow> ssn_fresh s'"
  by (auto simp: ssn_option_def ssn_fresh_def usage_def Let_def split: prod.splits if_splits)

lemma ssn_main_state:
  assumes "ssn_main fill mem enc opts msgtext es = Inr s" and "parse_opts ssn_option opts ssn_app_data = Inr g"
  obtains n bs where "encode_text fill mem enc (target g) (case msgtext of Some t \<Rightarrow> t | None \<Rightarrow> ''Hello World!'') = Inr bs"
    and "1 \<le> count g"
    and "ssn_state (count g) (if presettled g then 1 else count g) (presettled g) bs n (length (filter outcome es)) s"
proof -
  define g' where "g' = (if presettled g then g else g\<lparr>acked := count g\<rparr>)"
  obtain bs where bs: "encode_text fill mem enc (target g) (case msgtext of Some t \<Rightarrow> t | None \<Rightarrow> ''Hello World!'') = Inr bs"
      "run ssn_event_handler (emit [PnSetContainer (container g), PnSetHostname (address g)]
         (g'\<lparr>msg_data := bs, msg_len := int (length bs)\<rparr>)) es = Inr s"
    using assms by (auto simp: ssn_main_def bnd_eq_Inr Let_def g'_def split: if_splits)
  have "ssn_fresh ssn_app_data" by (simp add: ssn_fresh_def ssn_app_data_def)
  from parse_opts_preserves [where P = ssn_fresh, OF ssn_option_fresh this assms(2)]
  have f: "ssn_fresh g" .
  then have "ssn_state (count g) (if presettled g then 1 else count g) (presettled g) bs 0 0
      (emit [PnSetContainer (container g), PnSetHostname (address g)] (g'\<lparr>msg_data := bs, msg_len := int (length bs)\<rparr>))"
    by (simp add: ssn_state_def ssn_fresh_def g'_def)
  from ssn_run_state [OF bs(2) this] f obtain n where
    "ssn_state (count g) (if presettled g then 1 else count g) (presettled g) bs n (0 + length (filter outcome es)) s"
    by (cases "presettled g") (auto simp: ssn_fresh_def)
  then show ?thesis using that [OF bs(1)] f by (simp add: ssn_fresh_def)
qed

section \<open>Properties\<close>

text \<open>C9: the sender sends at most the number of copies asked for, tagged 1, 2, 3 and so on, each
  the message encoded at the start; sent presettled, all but the last copy are settled at once,
  and apart from these each outcome settles one delivery.\<close>

theorem ssn_sends_copies_in_order:
  assumes "ssn_main fill mem enc opts msgtext es = Inr s" and "parse_opts ssn_option opts ssn_app_data = Inr g"
  shows "\<exists>n bs. int n \<le> count g \<and> count s = count g - int n
    \<and> encode_text fill mem enc (target g) (case msgtext of Some t \<Rightarrow> t | None \<Rightarrow> ''Hello World!'') = Inr bs
    \<and> tags (out s) = map of_nat [1..<Suc n] \<and> sent_bytes (out s) = concat (replicate n bs)
    \<and> int (settles (out s)) = (if presettled g then min (int n) (count g - 1) else 0)
        + int (length (filter outcome es))"
  by (rule ssn_main_state [OF assms]) (auto simp: ssn_state_def)

definition sample_run :: "tx_event list" where
  "sample_run = [PN_CONNECTION_INIT, PN_LINK_FLOW 5, PN_DELIVERY True PN_ACCEPTED 0, PN_DELIVERY True PN_REJECTED 0]"

lemma sample_ssn_run:
  "parse_opts ssn_option [(CHR ''c'', ''2'')] ssn_app_data = Inr (ssn_app_data\<lparr>count := 2\<rparr>)"
  "\<exists>s. ssn_main (\<lambda>t. 0) (\<lambda>n. []) (fixed_encoder [7]) [(CHR ''c'', ''2'')] None sample_run = Inr s"
proof -
  have a: "atoi ''2'' = 2"
    by (simp add: atoi_def scan_number_def read_sign_def is_space_def is_digit_def strtol_def)
  show p: "parse_opts ssn_option [(CHR ''c'', ''2'')] ssn_app_data = Inr (ssn_app_data\<lparr>count := 2\<rparr>)"
    by (simp add: ssn_option_def a ssn_app_data_def)
  have e: "encode_loop (fixed_encoder [7] m) 128 = Some (128, Encoded [7])" for m
    by (rule encode_loop_fixed) simp
  show "\<exists>s. ssn_main (\<lambda>t. 0) (\<lambda>n. []) (fixed_encoder [7]) [(CHR ''c'', ''2'')] None sample_run = Inr s"
    by (simp add: ssn_main_def p encode_text_def e sample_run_def Let_def del: parse_opts.simps)
qed

theorem ssn_sends_copies_in_order_witness:
  "\<exists>s n. ssn_main (\<lambda>t. 0) (\<lambda>n. []) (fixed_encoder [7]) [(CHR ''c'', ''2'')] None sample_run = Inr s
     \<and> n \<le> 2 \<and> tags (out s) = map of_nat [1..<Suc n]"
proof -
  obtain s where s: "ssn_main (\<lambda>t. 0) (\<lambda>n. []) (fixed_encoder [7]) [(CHR ''c'', ''2'')] None sample_run = Inr s"
    using sample_ssn_run(2) by blast
  show ?thesis using ssn_sends_copies_in_order [OF s sample_ssn_run(1)] s by auto
qed

text \<open>The connection is closed exactly when enough outcomes have arrived: one for a presettled
  run, one for every message otherwise. Informational updates (\<open>PN_RECEIVED\<close>) do not count.\<close>

theorem ssn_closes_after_outcomes:
  assumes "ssn_main fill mem enc opts msgtext es = Inr s" and "parse_opts ssn_option opts ssn_app_data = Inr g"
  shows "PnConnectionClose \<in> set (out s)
    \<longleftrightarrow> (if presettled g then 1 else count g) \<le> int (length (filter outcome es))"
  by (rule ssn_main_state [OF assms]) (simp add: ssn_state_def)

theorem ssn_closes_after_outcomes_witness:
  "\<exists>s. ssn_main (\<lambda>t. 0) (\<lambda>n. []) (fixed_encoder [7]) [(CHR ''c'', ''2'')] None sample_run = Inr s
     \<and> PnConnectionClose \<in> set (out s)"
proof -
  obtain s where s: "ssn_main (\<lambda>t. 0) (\<lambda>n. []) (fixed_encoder [7]) [(CHR ''c'', ''2'')] None sample_run = Inr s"
    using sample_ssn_run(2) by blast
  show ?thesis using ssn_closes_after_outcomes [OF s sample_ssn_run(1)] s
    by (auto simp: sample_run_def has_state_def ssn_app_data_def)
qed

text \<open>C21: a grant of credit has the effect of one burst of as many messages as it covers and are left,
  no more and no fewer: for each of them in turn its delivery under the next tag, the whole encoded
  message, the end of the delivery, and, sent presettled, its settlement unless it is the last of the
  run; the counter and the tag move on by the number sent.\<close>

theorem ssn_flow_sends_all_it_may:
  "ssn_link_flow credit s = ssn_burst (nat (min credit (count s))) s"
proof -
  define n where "n = nat (min credit (count s))"
  have "ssn_link_flow credit s =
     emit (ssn_blocks (presettled s) (take (nat (msg_len s)) (msg_data s)) (tag s) (count s) n)
       (s\<lparr>count := count s - int n, tag := tag s + of_nat n\<rparr>)"
    unfolding n_def by (rule ssn_link_flow_eq)
  then show ?thesis unfolding n_def [symmetric] by (simp add: ssn_burst_def ssn_blocks_map emit_def)
qed

text \<open>Two of five credits are used for the two messages left, and the last is not settled.\<close>

theorem ssn_flow_sends_all_it_may_witness:
  "out (ssn_link_flow 5 (ssn_app_data\<lparr>count := 2, presettled := True, msg_data := [7], msg_len := 1\<rparr>))
     = [PnDelivery 1, PnLinkSend [7], PnLinkAdvance, PnSettle, PnDelivery 2, PnLinkSend [7], PnLinkAdvance]"
  by (simp add: ssn_flow_sends_all_it_may ssn_burst_def ssn_app_data_def numeral_2_eq_2)

end
