(* ===== verification/Punisher.thy ===== *)
theory Punisher
  imports ScaleSender
begin

text \<open>
  \<open>clients/scale/src/punisher.c\<close>: the sender that sends as fast as credit allows, a number of
  messages or without end, and reports its rate. It shares the encoding of the message with
  \<open>sender.c\<close>. \<open>count\<close> is the number of messages asked for, 0 for no end; \<open>sent\<close> and \<open>acked\<close>
  count up. \<open>msg_len\<close> is the length of the encoding, converted by the code from a \<open>size_t\<close> to an \<open>int\<close>
  (exact below \<open>2 ^ 31\<close> bytes).
\<close>

section \<open>State\<close>

record pun_data = world +
  count :: int
  anon :: bool
  presettle :: bool
  sent :: int
  acked :: int
  target :: string
  msg_data :: "u8 list"
  msg_len :: int
  tag :: u64
  address :: string
  container :: string

definition pun_app_data :: pun_data where
  "pun_app_data = \<lparr>clk = 0, out = [], count = 1, anon = False, presettle = False, sent = 0, acked = 0,
     target = ''examples'', msg_data = [], msg_len = 0, tag = 0,
     address = ''localhost:5672'', container = ''SendExample''\<rparr>"

lemma emit_pun_data [simp]:
  "count (emit cs s) = count s" "anon (emit cs s) = anon s" "presettle (emit cs s) = presettle s"
  "sent (emit cs s) = sent s" "acked (emit cs s) = acked s" "target (emit cs s) = target s"
  "msg_data (emit cs s) = msg_data s" "msg_len (emit cs s) = msg_len s" "tag (emit cs s) = tag s"
  "address (emit cs s) = address s" "container (emit cs s) = container s"
  by (simp_all add: emit_def)

section \<open>The events\<close>

definition pun_connection_init :: "pun_data \<Rightarrow> pun_data" where
  "pun_connection_init s =
     emit ([PnConnectionOpen, PnSession, PnSessionOpen, PnSender ''MySender'',
           PnSetSndSettleMode (if presettle s then PN_SND_SETTLED else PN_SND_UNSETTLED)]
           @ (if anon s then [] else [PnSetTarget (target s)]) @ [PnLinkOpen]) s"

definition pun_send_one :: "pun_data \<Rightarrow> pun_data" where
  "pun_send_one s =
     (let s = s\<lparr>sent := sent s + 1, tag := tag s + 1\<rparr>;
          s = emit [PnDelivery (tag s), PnLinkSend (take (nat (msg_len s)) (msg_data s)), PnLinkAdvance] s
      in if presettle s then emit [PnSettle] s else s)"

definition pun_more :: "pun_data \<Rightarrow> bool" where
  "pun_more s \<longleftrightarrow> count s = 0 \<or> sent s < count s"

function pun_link_flow :: "int \<Rightarrow> pun_data \<Rightarrow> pun_data" where
  "pun_link_flow credit s =
     (if 0 < credit \<and> pun_more s then pun_link_flow (credit - 1) (pun_send_one s) else s)"
  by pat_completeness auto
termination by (relation "measure (\<lambda>(credit, s). nat credit)") auto

declare pun_link_flow.simps [simp del]

text \<open>An outcome that is not one of the named states is counted but the delivery is not settled.\<close>

definition pun_delivery :: "bool \<Rightarrow> disposition \<Rightarrow> pun_data \<Rightarrow> pun_data" where
  "pun_delivery updated rs s =
     (if updated \<and> has_state rs then
        let s = (case rs of
                   PN_RECEIVED \<Rightarrow> s
                 | PN_OTHER _ \<Rightarrow> s\<lparr>acked := acked s + 1\<rparr>
                 | _ \<Rightarrow> emit [PnSettle] (s\<lparr>acked := acked s + 1\<rparr>))
        in if count s = sent s \<and> acked s = sent s
           then emit [PnLinkClose, PnSessionClose, PnConnectionClose] s else s
      else s)"

fun pun_event_handler :: "pun_data \<Rightarrow> tx_event \<Rightarrow> halt + pun_data" where
  "pun_event_handler s PN_CONNECTION_INIT = Inr (pun_connection_init s)"
| "pun_event_handler s (PN_LINK_FLOW credit) = Inr (pun_link_flow credit s)"
| "pun_event_handler s (PN_DELIVERY updated rs _) = Inr (pun_delivery updated rs s)"
| "pun_event_handler s _ = Inr s"

section \<open>\<open>main\<close>\<close>

definition pun_option :: "opt \<Rightarrow> pun_data \<Rightarrow> halt + pun_data" where
  "pun_option p s =
     (case p of (c, optarg) \<Rightarrow>
      if c = CHR ''h'' then usage
      else if c = CHR ''a'' then Inr (s\<lparr>address := optarg\<rparr>)
      else if c = CHR ''c'' then
        (let s = s\<lparr>count := atoi optarg\<rparr> in if count s < 0 then usage else Inr s)
      else if c = CHR ''t'' then Inr (s\<lparr>target := optarg\<rparr>)
      else if c = CHR ''n'' then Inr (s\<lparr>anon := True\<rparr>)
      else if c = CHR ''i'' then Inr (s\<lparr>container := optarg\<rparr>)
      else if c = CHR ''p'' then Inr (s\<lparr>presettle := True\<rparr>)
      else usage)"

text \<open>The body of the main loop, run after every batch of events.\<close>

definition pun_loop_body :: "unit \<Rightarrow> pun_data \<Rightarrow> halt + unit \<times> pun_data" where
  "pun_loop_body l s =
     Inr (l, if presettle s \<and> sent s = count s then emit [PnConnectionClose] s else s)"

definition pun_main :: "(string \<Rightarrow> int) \<Rightarrow> (u64 \<Rightarrow> u8 list) \<Rightarrow> encoder
    \<Rightarrow> opt list \<Rightarrow> string option \<Rightarrow> tx_event list list \<Rightarrow> halt + pun_data" where
  "pun_main fill mem enc opts msgtext ess =
     bnd (parse_opts pun_option opts pun_app_data) (\<lambda>s.
     let text = (case msgtext of Some t \<Rightarrow> t | None \<Rightarrow> ''Hello World!'')
     in bnd (encode_text fill mem enc (target s) text) (\<lambda>bs.
        let s = s\<lparr>msg_data := bs, msg_len := int (length bs)\<rparr>
        in bnd (run (main_round pun_event_handler pun_loop_body)
                 ((), emit [PnSetContainer (container s), PnSetHostname (address s)] s) ess) (\<lambda>(l, s). Inr s)))"

text \<open>The rate reported at the end: messages asked for per second, on whole seconds.\<close>

definition pun_throughput :: "timespec \<Rightarrow> timespec \<Rightarrow> pun_data \<Rightarrow> int" where
  "pun_throughput start end' s =
     (let diff = tv_sec end' - tv_sec start in if 0 < diff then count s sdiv diff else count s)"

section \<open>What a grant of credit sends\<close>

definition pun_quota :: "int \<Rightarrow> pun_data \<Rightarrow> nat" where
  "pun_quota credit s = (if count s = 0 then nat credit else nat (min credit (count s - sent s)))"

fun pun_blocks :: "bool \<Rightarrow> u8 list \<Rightarrow> u64 \<Rightarrow> nat \<Rightarrow> pn_call list" where
  "pun_blocks p bs t 0 = []"
| "pun_blocks p bs t (Suc n) = message_block p (t + 1) bs @ pun_blocks p bs (t + 1) n"

lemma pun_send_one_eq:
  "pun_send_one s = emit (message_block (presettle s) (tag s + 1) (take (nat (msg_len s)) (msg_data s)))
     (s\<lparr>sent := sent s + 1, tag := tag s + 1\<rparr>)"
  by (simp add: pun_send_one_def message_block_def Let_def)

lemma pun_link_flow_eq:
  assumes "count s = 0 \<or> sent s \<le> count s"
  shows "pun_link_flow credit s =
     emit (pun_blocks (presettle s) (take (nat (msg_len s)) (msg_data s)) (tag s) (pun_quota credit s))
       (s\<lparr>sent := sent s + int (pun_quota credit s), tag := tag s + of_nat (pun_quota credit s)\<rparr>)"
  using assms
proof (induction credit s rule: pun_link_flow.induct)
  case (1 credit s)
  show ?case
  proof (cases "0 < credit \<and> pun_more s")
    case False
    then have "pun_quota credit s = 0" by (auto simp: pun_quota_def pun_more_def)
    then show ?thesis using False by (subst pun_link_flow.simps) (auto simp: emit_def)
  next
    case True
    define n where "n = pun_quota (credit - 1) (pun_send_one s)"
    have n: "pun_quota credit s = Suc n"
      using True 1(2) unfolding n_def pun_quota_def pun_send_one_eq pun_more_def by auto
    have le: "count (pun_send_one s) = 0 \<or> sent (pun_send_one s) \<le> count (pun_send_one s)"
      using True by (auto simp: pun_send_one_eq pun_more_def)
    show ?thesis using True "1.IH" [OF True le] unfolding n pun_link_flow.simps [of credit s]
      by (simp add: n_def [symmetric]) (simp add: pun_send_one_eq emit_def add.commute add.left_commute)
  qed
qed

lemma tags_pun_blocks: "tags (pun_blocks p bs t n) = map (\<lambda>i. t + of_nat i) [Suc 0..<Suc n]"
proof (induction n arbitrary: t)
  case 0
  then show ?case by simp
next
  case (Suc n)
  have "map (\<lambda>i. t + of_nat i) [Suc 0..<Suc (Suc n)] = (t + 1) # map (\<lambda>i. (t + 1) + of_nat i) [Suc 0..<Suc n]"
    by (subst upt_conv_Cons, simp, simp only: map_Suc_upt [symmetric] list.map map_map)
      (simp add: comp_def add.assoc)
  then show ?case using Suc by (simp add: message_block_def del: upt_Suc)
qed

lemma sent_bytes_pun_blocks: "sent_bytes (pun_blocks p bs t n) = concat (replicate n bs)"
  by (induction n arbitrary: t) (simp_all add: message_block_def)

lemma closes_pun_blocks: "PnConnectionClose \<notin> set (pun_blocks p bs t n)"
  by (induction n arbitrary: t) (simp_all add: message_block_def)

section \<open>The state of a run\<close>

text \<open>
  An outcome of one of the named kinds is settled; one that is not is counted only. \<open>k\<close> outcomes
  have been seen, \<open>q\<close> of them of a named kind.
\<close>

fun named_outcome :: "tx_event \<Rightarrow> bool" where
  "named_outcome (PN_DELIVERY updated rs _) =
     (updated \<and> (case rs of PN_RECEIVED \<Rightarrow> False | PN_OTHER _ \<Rightarrow> False | _ \<Rightarrow> True))"
| "named_outcome _ = False"

definition pun_state :: "int \<Rightarrow> bool \<Rightarrow> u8 list \<Rightarrow> nat \<Rightarrow> nat \<Rightarrow> pun_data \<Rightarrow> bool" where
  "pun_state N p bs k q s \<longleftrightarrow>
     count s = N \<and> presettle s = p \<and> 0 \<le> sent s \<and> (N = 0 \<or> sent s \<le> N)
     \<and> tag s = of_nat (nat (sent s)) \<and> take (nat (msg_len s)) (msg_data s) = bs
     \<and> tags (out s) = map of_nat [Suc 0..<Suc (nat (sent s))]
     \<and> sent_bytes (out s) = concat (replicate (nat (sent s)) bs)
     \<and> acked s = int k \<and> int (settles (out s)) = (if p then sent s else 0) + int q
     \<and> (N \<noteq> 0 \<longrightarrow> PnConnectionClose \<in> set (out s) \<longrightarrow> sent s = N \<and> (p \<or> N \<le> int k))"

lemma settles_pun_blocks: "settles (pun_blocks p bs t n) = (if p then n else 0)"
  by (induction n arbitrary: t) (simp_all add: message_block_def)

lemma pun_flow_state:
  assumes "pun_state N p bs k q s"
  shows "pun_state N p bs k q (pun_link_flow credit s)"
proof -
  define m where "m = pun_quota credit s"
  have c: "count s = N" "0 \<le> sent s" "N = 0 \<or> sent s \<le> N" using assms by (simp_all add: pun_state_def)
  obtain n where n: "sent s = int n" using c(2) by (metis nonneg_int_cases)
  have s: "presettle s = p" "tag s = of_nat n" "take (nat (msg_len s)) (msg_data s) = bs"
      "tags (out s) = map of_nat [Suc 0..<Suc n]" "sent_bytes (out s) = concat (replicate n bs)"
      "acked s = int k" "int (settles (out s)) = (if p then int n else 0) + int q"
      "N \<noteq> 0 \<longrightarrow> PnConnectionClose \<in> set (out s) \<longrightarrow> int n = N \<and> (p \<or> N \<le> int k)"
    using assms by (simp_all add: pun_state_def n del: upt_Suc)
  have m: "N = 0 \<or> int (n + m) \<le> N" "int n = N \<Longrightarrow> N \<noteq> 0 \<Longrightarrow> m = 0"
    using c n unfolding m_def pun_quota_def by auto
  have "tags (out s) @ tags (pun_blocks p bs (tag s) m) = map of_nat [Suc 0..<Suc (n + m)]"
    unfolding tags_pun_blocks s(2,4) by (rule tags_extend)
  then have "pun_state N p bs k q
      (emit (pun_blocks p bs (tag s) m) (s\<lparr>sent := int (n + m), tag := tag s + of_nat m\<rparr>))"
    using s m c(1) unfolding pun_state_def
    by (simp add: sent_bytes_pun_blocks settles_pun_blocks closes_pun_blocks replicate_add nat_int_add del: upt_Suc)
  then show ?thesis
    using pun_link_flow_eq [of s credit] c s(1,3) n unfolding m_def [symmetric] by simp
qed

lemma if_both: "(c \<Longrightarrow> P x) \<Longrightarrow> P y \<Longrightarrow> P (if c then x else y)"
  by simp

lemma pun_delivery_state:
  assumes "pun_state N p bs k q s"
  shows "pun_state N p bs (k + of_bool (outcome (PN_DELIVERY updated rs i)))
    (q + of_bool (named_outcome (PN_DELIVERY updated rs i))) (pun_delivery updated rs s)"
proof (cases "updated \<and> has_state rs")
  case False
  then have "\<not> outcome (PN_DELIVERY updated rs i)" "\<not> named_outcome (PN_DELIVERY updated rs i)"
    by (auto simp: has_state_def split: disposition.splits)
  then show ?thesis using assms False by (simp only: pun_delivery_def if_False of_bool_eq add_0_right)
next
  case True
  define j where "j = (of_bool (outcome (PN_DELIVERY updated rs i)) :: nat)"
  define l where "l = (of_bool (named_outcome (PN_DELIVERY updated rs i)) :: nat)"
  define cs where "cs = (case rs of PN_RECEIVED \<Rightarrow> [] | PN_OTHER _ \<Rightarrow> [] | _ \<Rightarrow> [PnSettle])"
  define t where "t = emit cs (s\<lparr>acked := acked s + int j\<rparr>)"
  have d: "pun_delivery updated rs s = (if count t = sent t \<and> acked t = sent t
      then emit [PnLinkClose, PnSessionClose, PnConnectionClose] t else t)"
    using True unfolding pun_delivery_def t_def cs_def j_def by (cases rs) (simp_all add: emit_def Let_def)
  have cs: "tags cs = []" "sent_bytes cs = []" "PnConnectionClose \<notin> set cs" "settles cs = l"
    using True by (cases rs; simp add: cs_def l_def)+
  have t: "pun_state N p bs (k + j) (q + l) t" using assms cs unfolding pun_state_def t_def
    by (simp del: upt_Suc) linarith?
  have "pun_state N p bs (k + j) (q + l) (emit [PnLinkClose, PnSessionClose, PnConnectionClose] t)"
    if "count t = sent t \<and> acked t = sent t"
    using t that unfolding pun_state_def by (simp del: upt_Suc)
  then have "pun_state N p bs (k + j) (q + l) (pun_delivery updated rs s)"
    unfolding d using t by (rule if_both)
  then show ?thesis by (simp only: j_def l_def)
qed

lemma pun_event_state:
  assumes "pun_event_handler s e = Inr s'" and "pun_state N p bs k q s"
  shows "pun_state N p bs (k + of_bool (outcome e)) (q + of_bool (named_outcome e)) s'"
proof (cases e)
  case PN_CONNECTION_INIT
  define cs where "cs = [PnConnectionOpen, PnSession, PnSessionOpen, PnSender ''MySender'',
       PnSetSndSettleMode (if presettle s then PN_SND_SETTLED else PN_SND_UNSETTLED)]
       @ (if anon s then [] else [PnSetTarget (target s)]) @ [PnLinkOpen]"
  have "tags cs = []" "sent_bytes cs = []" "settles cs = 0" "PnConnectionClose \<notin> set cs"
    by (simp_all add: cs_def)
  moreover have "s' = emit cs s" using assms(1) PN_CONNECTION_INIT by (simp add: pun_connection_init_def cs_def)
  ultimately show ?thesis using assms(2) PN_CONNECTION_INIT by (simp add: pun_state_def del: upt_Suc)
next
  case (PN_LINK_FLOW credit)
  then show ?thesis using assms(1) pun_flow_state [OF assms(2), of credit] by simp
next
  case (PN_DELIVERY u rs i)
  then have "s' = pun_delivery u rs s" using assms(1) by simp
  then show ?thesis unfolding PN_DELIVERY by (simp only: pun_delivery_state [OF assms(2)])
qed (use assms in simp_all)

text \<open>After a round, one that has sent everything presettled has closed the connection.\<close>

definition pun_after :: "int \<Rightarrow> bool \<Rightarrow> u8 list \<Rightarrow> tx_event list list \<Rightarrow> unit \<times> pun_data \<Rightarrow> bool" where
  "pun_after N p bs ess ls \<longleftrightarrow>
     pun_state N p bs (length (filter outcome (concat ess))) (length (filter named_outcome (concat ess))) (snd ls)
     \<and> (ess \<noteq> [] \<longrightarrow> p \<longrightarrow> sent (snd ls) = N \<longrightarrow> PnConnectionClose \<in> set (out (snd ls)))"

lemma pun_round_state:
  assumes "main_round pun_event_handler pun_loop_body ls es = Inr ls'" and "pun_after N p bs ess ls"
  shows "pun_after N p bs (ess @ [es]) ls'"
proof -
  obtain t where t: "run pun_event_handler (snd ls) es = Inr t" "pun_loop_body (fst ls) t = Inr ls'"
    using assms(1) by (auto simp: main_round_def bnd_eq_Inr)
  define P where "P = (\<lambda>hs. pun_state N p bs (length (filter outcome hs)) (length (filter named_outcome hs)))"
  have "P (concat ess @ es) t"
  proof (rule run_history [where P = P, OF _ _ t(1)])
    show "P (concat ess) (snd ls)" using assms(2) by (simp add: P_def pun_after_def)
    fix hs s e s'
    assume "P hs s" "pun_event_handler s e = Inr s'"
    then show "P (hs @ [e]) s'"
      using pun_event_state [of s e s' N p bs "length (filter outcome hs)" "length (filter named_outcome hs)"]
      by (cases "outcome e"; cases "named_outcome e") (simp_all add: P_def)
  qed
  then have s: "pun_state N p bs (length (filter outcome (concat (ess @ [es]))))
      (length (filter named_outcome (concat (ess @ [es])))) t"
    by (simp add: P_def)
  show ?thesis
  proof (cases "presettle t \<and> sent t = count t")
    case True
    then have "ls' = ((), emit [PnConnectionClose] t)" using t(2) by (simp add: pun_loop_body_def)
    then show ?thesis using s True unfolding pun_after_def by (simp add: pun_state_def del: upt_Suc)
  next
    case False
    then have "ls' = ((), t)" using t(2) by (auto simp: pun_loop_body_def)
    then show ?thesis using s False unfolding pun_after_def by (simp add: pun_state_def del: upt_Suc)
  qed
qed

definition pun_fresh :: "pun_data \<Rightarrow> bool" where
  "pun_fresh s \<longleftrightarrow> out s = [] \<and> tag s = 0 \<and> 0 \<le> count s \<and> sent s = 0 \<and> acked s = 0"

lemma pun_option_fresh: "pun_option p s = Inr s' \<Longrightarrow> pun_fresh s \<Longrightarrow> pun_fresh s'"
  by (auto simp: pun_option_def pun_fresh_def usage_def Let_def split: prod.splits if_splits)

lemma pun_parse_fresh: "parse_opts pun_option opts pun_app_data = Inr g \<Longrightarrow> pun_fresh g"
  by (rule parse_opts_preserves [where P = pun_fresh, OF pun_option_fresh])
    (auto simp: pun_fresh_def pun_app_data_def)

abbreviation "pun_text msgtext \<equiv> (case msgtext of Some t \<Rightarrow> t | None \<Rightarrow> ''Hello World!'')"

lemma pun_main_state:
  assumes "pun_main fill mem enc opts msgtext ess = Inr s" and "parse_opts pun_option opts pun_app_data = Inr g"
  obtains bs where "encode_text fill mem enc (target g) (pun_text msgtext) = Inr bs"
    and "0 \<le> count g" and "pun_after (count g) (presettle g) bs ess ((), s)"
proof -
  obtain bs ls where bs: "encode_text fill mem enc (target g) (pun_text msgtext) = Inr bs"
      "run (main_round pun_event_handler pun_loop_body)
         ((), emit [PnSetContainer (container g), PnSetHostname (address g)] (g\<lparr>msg_data := bs, msg_len := int (length bs)\<rparr>)) ess = Inr ls"
      "s = snd ls"
    using assms by (auto simp: pun_main_def bnd_eq_Inr Let_def)
  have f: "pun_fresh g" by (rule pun_parse_fresh [OF assms(2)])
  have "pun_after (count g) (presettle g) bs ([] @ ess) ls"
    by (rule run_history [where P = "pun_after (count g) (presettle g) bs", OF _ _ bs(2)])
      (blast intro: pun_round_state, use f in \<open>simp add: pun_after_def pun_state_def pun_fresh_def del: upt_Suc\<close>)
  then have "pun_after (count g) (presettle g) bs ess ((), s)" using bs(3) by (cases ls) simp
  then show ?thesis using that [OF bs(1)] f by (simp add: pun_fresh_def)
qed

section \<open>Properties\<close>


lemma pun_sample_parse: "parse_opts pun_option [(CHR ''p'', '''')] pun_app_data = Inr (pun_app_data\<lparr>presettle := True\<rparr>)"
  by (simp add: pun_option_def)


text \<open>C22: asked to send presettled messages without end (\<open>-c 0 -p\<close>), the punisher closes its
  connection after the first batch of events, before any credit has arrived: \<open>sent == count\<close>
  holds with both zero.\<close>

theorem pun_endless_presettled_closes_at_once:
  assumes "parse_opts pun_option opts pun_app_data = Inr g" and "count g = 0" and "presettle g"
    and "encode_text fill mem enc (target g) (pun_text msgtext) = Inr bs"
  shows "\<exists>s. pun_main fill mem enc opts msgtext [[PN_CONNECTION_INIT]] = Inr s
    \<and> deliveries (out s) = 0 \<and> PnConnectionClose \<in> set (out s)"
proof -
  have "sent g = 0" "out g = []" using pun_parse_fresh [OF assms(1)] by (simp_all add: pun_fresh_def)
  then show ?thesis using assms
    by (cases "anon g")
      (simp_all add: pun_main_def main_round_def pun_loop_body_def pun_connection_init_def Let_def emit_def)
qed

theorem pun_endless_presettled_closes_at_once_witness:
  "\<exists>s. pun_main (\<lambda>t. 0) (\<lambda>n. []) (fixed_encoder [7]) [(CHR ''c'', ''0''), (CHR ''p'', '''')] None
        [[PN_CONNECTION_INIT]] = Inr s \<and> deliveries (out s) = 0 \<and> PnConnectionClose \<in> set (out s)"
proof -
  have a: "atoi ''0'' = 0"
    by (simp add: atoi_def scan_number_def read_sign_def is_space_def is_digit_def strtol_def)
  have p: "parse_opts pun_option [(CHR ''c'', ''0''), (CHR ''p'', '''')] pun_app_data
      = Inr (pun_app_data\<lparr>count := 0, presettle := True\<rparr>)"
    by (simp add: pun_option_def a)
  have e: "encode_loop (fixed_encoder [7] m) 128 = Some (128, Encoded [7])" for m
    by (rule encode_loop_fixed) simp
  show ?thesis
    by (rule pun_endless_presettled_closes_at_once [OF p]) (simp_all add: encode_text_def e)
qed

text \<open>A grant of credit sends as many messages as it covers, up to the number asked for.\<close>

theorem pun_flow_sends_all_it_may:
  assumes "count s = 0 \<or> sent s \<le> count s"
  shows "deliveries (out (pun_link_flow credit s)) = deliveries (out s)
      + (if count s = 0 then nat credit else nat (min credit (count s - sent s)))"
  unfolding pun_link_flow_eq [OF assms]
  by (simp add: pun_quota_def deliveries_tags tags_pun_blocks del: upt_Suc)

theorem pun_flow_sends_all_it_may_witness:
  "deliveries (out (pun_link_flow 5 (pun_app_data\<lparr>count := 3\<rparr>))) = 3"
  using pun_flow_sends_all_it_may [of "pun_app_data\<lparr>count := 3\<rparr>" 5] by (simp add: pun_app_data_def)


end
