(* ===== verification/ScaleReceiver.thy ===== *)
theory ScaleReceiver
  imports Proactor
begin

text \<open>
  \<open>clients/scale/src/receiver.c\<close>: receives a number of messages, or messages without end, under
  a window of credit. What the handler asks of a delivery, and of the link once the message has
  been dealt with, comes with the event; \<open>decoded\<close> is the string that \<open>pn_message_decode()\<close> and
  \<open>pn_data_scan()\<close> find in the message, if any. \<open>printed\<close> is the standard output.
\<close>

section \<open>State\<close>

record srx_data = world +
  count :: int
  credit :: int
  source :: string
  quiet :: bool
  address :: string
  container :: string
  printed :: "string list"

definition MAX_SIZE :: nat where "MAX_SIZE = 512"

definition srx_app_data :: srx_data where
  "srx_app_data = \<lparr>clk = 0, out = [], count = 1, credit = 100, source = ''examples'', quiet = False,
     address = ''localhost'', container = ''ReceiveExample'', printed = []\<rparr>"

lemma emit_srx_data [simp]:
  "count (emit cs s) = count s" "credit (emit cs s) = credit s" "source (emit cs s) = source s"
  "quiet (emit cs s) = quiet s" "address (emit cs s) = address s" "container (emit cs s) = container s"
  "printed (emit cs s) = printed s"
  by (simp_all add: emit_def)

section \<open>The events\<close>

record srx_dlv =
  readable :: bool
  partial :: bool
  pending :: nat
  settled :: bool
  decoded :: "string option"
  link_credit :: int

datatype srx_event = SR_CONNECTION_INIT | SR_DELIVERY srx_dlv | SR_OTHER

definition srx_connection_init :: "srx_data \<Rightarrow> srx_data" where
  "srx_connection_init s =
     emit [PnConnectionOpen, PnSession, PnSessionOpen, PnReceiver ''MyReceiver'', PnSetSource (source s),
           PnLinkOpen, PnLinkFlow (credit s)] s"

definition srx_print :: "srx_dlv \<Rightarrow> srx_data \<Rightarrow> srx_data" where
  "srx_print d s =
     (if \<not> quiet s \<and> pending d < MAX_SIZE
      then s\<lparr>printed := printed s @ [case decoded d of Some t \<Rightarrow> ''Message: ['' @ t @ '']''
                                     | None \<Rightarrow> ''Message received!'']\<rparr>
      else s)"

definition srx_delivery :: "srx_dlv \<Rightarrow> srx_data \<Rightarrow> srx_data" where
  "srx_delivery d s =
     (if readable d \<and> \<not> partial d then
        let s = srx_print d s;
            s = (if settled d then s else emit [PnUpdate PN_ACCEPTED] s);
            s = emit [PnLinkAdvance, PnSettle] s;
            s = (if link_credit d < credit s sdiv 2 then emit [PnLinkFlow (credit s - link_credit d)] s else s)
        in if count s \<noteq> 0
           then let s = s\<lparr>count := count s - 1\<rparr>
                in if count s = 0 then emit [PnLinkClose, PnSessionClose, PnConnectionClose] s else s
           else s
      else s)"

fun srx_event_handler :: "srx_data \<Rightarrow> srx_event \<Rightarrow> halt + srx_data" where
  "srx_event_handler s SR_CONNECTION_INIT = Inr (srx_connection_init s)"
| "srx_event_handler s (SR_DELIVERY d) = Inr (srx_delivery d s)"
| "srx_event_handler s SR_OTHER = Inr s"

section \<open>\<open>main\<close>\<close>

definition srx_option :: "opt \<Rightarrow> srx_data \<Rightarrow> halt + srx_data" where
  "srx_option p s =
     (case p of (c, optarg) \<Rightarrow>
      if c = CHR ''h'' then usage
      else if c = CHR ''a'' then Inr (s\<lparr>address := optarg\<rparr>)
      else if c = CHR ''c'' then
        (let s = s\<lparr>count := atoi optarg\<rparr> in if count s < 0 then usage else Inr s)
      else if c = CHR ''s'' then Inr (s\<lparr>source := optarg\<rparr>)
      else if c = CHR ''i'' then Inr (s\<lparr>container := optarg\<rparr>)
      else if c = CHR ''q'' then Inr (s\<lparr>quiet := True\<rparr>)
      else if c = CHR ''f'' then
        (let s = s\<lparr>credit := atoi optarg\<rparr> in if credit s \<le> 0 then usage else Inr s)
      else usage)"

definition srx_main :: "opt list \<Rightarrow> srx_event list \<Rightarrow> halt + srx_data" where
  "srx_main opts es =
     bnd (parse_opts srx_option opts srx_app_data) (\<lambda>s.
     run srx_event_handler (emit [PnSetContainer (container s), PnSetHostname (address s)] s) es)"

section \<open>What one delivery does\<close>

definition whole_message :: "srx_event \<Rightarrow> bool" where
  "whole_message e = (case e of SR_DELIVERY d \<Rightarrow> readable d \<and> \<not> partial d | _ \<Rightarrow> False)"

definition regrant :: "int \<Rightarrow> int \<Rightarrow> int" where
  "regrant w c = (if c < w sdiv 2 then w - c else 0)"

lemma srx_print_eq: "srx_print d s = s\<lparr>printed := printed (srx_print d s)\<rparr>"
  by (simp add: srx_print_def)

lemma srx_delivery_eq:
  assumes "readable d" and "\<not> partial d"
  shows "srx_delivery d s = emit
     ((if settled d then [] else [PnUpdate PN_ACCEPTED]) @ [PnLinkAdvance, PnSettle]
      @ (if link_credit d < credit s sdiv 2 then [PnLinkFlow (credit s - link_credit d)] else [])
      @ (if count s = 1 then [PnLinkClose, PnSessionClose, PnConnectionClose] else []))
     (s\<lparr>printed := printed (srx_print d s), count := (if count s = 0 then 0 else count s - 1)\<rparr>)"
proof -
  obtain ps where ps: "srx_print d s = s\<lparr>printed := ps\<rparr>" by (metis srx_print_eq)
  show ?thesis using assms unfolding srx_delivery_def ps
    by (cases "settled d"; cases "link_credit d < credit s sdiv 2"; cases "count s = 0"; cases "count s = 1")
      (simp_all add: Let_def emit_def)
qed

text \<open>
  The credit reported with a whole message is honest when it is the balance of what was granted
  and what was settled, less the message itself.
\<close>

definition srx_arrival :: "srx_event \<Rightarrow> int option" where
  "srx_arrival e = (case e of SR_DELIVERY d \<Rightarrow> if readable d \<and> \<not> partial d then Some (link_credit d) else None
     | _ \<Rightarrow> None)"

definition srx_window :: "int \<Rightarrow> srx_data \<Rightarrow> bool" where
  "srx_window w s \<longleftrightarrow> credit s = w \<and> credit_balance (out s) \<le> w \<and> w sdiv 2 \<le> credit_balance (out s)"

lemma srx_event_window:
  assumes "srx_event_handler s e = Inr s'" and "srx_window w s" and "0 < w" and "e \<noteq> SR_CONNECTION_INIT"
    and "case srx_arrival e of None \<Rightarrow> True | Some c \<Rightarrow> 0 \<le> c \<and> c = credit_balance (out s) - 1"
  shows "srx_window w s'"
proof (cases e)
  case (SR_DELIVERY d)
  then have s': "s' = srx_delivery d s" using assms(1) by simp
  show ?thesis
  proof (cases "readable d \<and> \<not> partial d")
    case False
    then show ?thesis using assms(2) unfolding s' by (simp only: srx_delivery_def if_False)
  next
    case True
    then have c: "link_credit d = credit_balance (out s) - 1" "0 \<le> link_credit d"
      using assms(5) SR_DELIVERY by (simp_all add: srx_arrival_def)
    have d: "srx_delivery d s = emit
       ((if settled d then [] else [PnUpdate PN_ACCEPTED]) @ [PnLinkAdvance, PnSettle]
        @ (if link_credit d < credit s sdiv 2 then [PnLinkFlow (credit s - link_credit d)] else [])
        @ (if count s = 1 then [PnLinkClose, PnSessionClose, PnConnectionClose] else []))
       (s\<lparr>printed := printed (srx_print d s), count := (if count s = 0 then 0 else count s - 1)\<rparr>)"
      using srx_delivery_eq True by blast
    have w: "w sdiv 2 = w div 2" using assms(3) by (simp add: signed_divide_int_def)
    have "credit s = w" "credit_balance (out s) \<le> w" "w div 2 \<le> credit_balance (out s)"
      using assms(2) w by (simp_all add: srx_window_def)
    moreover have "credit_balance (out (srx_delivery d s)) = credit_balance (out s) - 1
        + (if link_credit d < w div 2 then w - link_credit d else 0)"
      unfolding d using calculation(1) w by (simp add: credit_balance_def)
    moreover have "credit (srx_delivery d s) = credit s" unfolding d by simp
    ultimately show ?thesis using c unfolding s' srx_window_def w by auto
  qed
qed (use assms in auto)

lemma srx_run_window:
  assumes "run srx_event_handler s es = Inr s'"
    and "honest srx_event_handler out (\<lambda>s. False) srx_arrival s es" and "SR_CONNECTION_INIT \<notin> set es"
    and "0 < w" and "srx_window w s"
  shows "srx_window w s'"
  using assms
proof (induction es arbitrary: s)
  case Nil
  then show ?case by simp
next
  case (Cons e es)
  then obtain t where t: "srx_event_handler s e = Inr t" "run srx_event_handler t es = Inr s'"
    by (auto simp: bnd_eq_Inr)
  have "srx_window w t"
    by (rule srx_event_window [OF t(1)]) (use Cons.prems in auto)
  then show ?case using Cons.IH [OF t(2)] Cons.prems t(1) by simp
qed

section \<open>Properties\<close>

text \<open>C23: the receiver never has more credit outstanding than its window and never less than half
  of it (rounded down), if the credit the library reports with each message is true; so with a
  window of two or more the sender is never left without credit.\<close>

theorem srx_keeps_half_the_window:
  assumes "run srx_event_handler s (SR_CONNECTION_INIT # es) = Inr s'" and "out s = []" and "0 < credit s"
    and "SR_CONNECTION_INIT \<notin> set es"
    and "honest srx_event_handler out (\<lambda>s. False) srx_arrival (srx_connection_init s) es"
  shows "credit_balance (out s') \<le> credit s \<and> credit s div 2 \<le> credit_balance (out s')
    \<and> (2 \<le> credit s \<longrightarrow> 0 < credit_balance (out s'))"
proof -
  have d: "credit s sdiv 2 = credit s div 2" using assms(3) by (simp add: signed_divide_int_def)
  have "run srx_event_handler (srx_connection_init s) es = Inr s'" using assms(1) by simp
  then have "srx_window (credit s) s'"
    by (rule srx_run_window [OF _ assms(5,4,3)])
      (use assms(2,3) d in \<open>simp add: srx_window_def srx_connection_init_def credit_balance_def\<close>)
  then show ?thesis unfolding srx_window_def d by auto
qed

abbreviation srx_sample :: "int \<Rightarrow> srx_event" where
  "srx_sample c \<equiv> SR_DELIVERY \<lparr>readable = True, partial = False, pending = 3, settled = False, decoded = None, link_credit = c\<rparr>"

theorem srx_keeps_half_the_window_witness:
  "\<exists>s'. run srx_event_handler (srx_app_data\<lparr>credit := 4\<rparr>) [SR_CONNECTION_INIT, srx_sample 3, srx_sample 2] = Inr s'
     \<and> credit_balance (out s') \<le> 4 \<and> 2 \<le> credit_balance (out s')"
proof -
  let ?s = "srx_app_data\<lparr>credit := 4\<rparr>"
  have h: "honest srx_event_handler out (\<lambda>s. False) srx_arrival (srx_connection_init ?s) [srx_sample 3, srx_sample 2]"
    by (simp add: srx_connection_init_def srx_app_data_def srx_arrival_def credit_balance_def srx_delivery_eq
        signed_divide_int_def)
  obtain s' where s': "run srx_event_handler ?s [SR_CONNECTION_INIT, srx_sample 3, srx_sample 2] = Inr s'"
    by simp
  from srx_keeps_half_the_window [OF s' _ _ _ h] s' show ?thesis by (simp add: srx_app_data_def)
qed

text \<open>With a window of one, credit is granted once and never again: whatever arrives after the
  opening, the receiver issues no further credit, although it may be waiting for more messages.\<close>

theorem srx_window_of_one_stalls:
  assumes "run srx_event_handler s es = Inr s'" and "credit s = 1" and "SR_CONNECTION_INIT \<notin> set es"
    and "\<forall>d. SR_DELIVERY d \<in> set es \<longrightarrow> 0 \<le> link_credit d"
  shows "flows (out s') = flows (out s) \<and> credit s' = 1"
proof (rule run_preserves [where P = "\<lambda>t. flows (out t) = flows (out s) \<and> credit t = 1", OF _ _ assms(1)])
  fix t e t'
  assume t: "flows (out t) = flows (out s) \<and> credit t = 1" and e: "e \<in> set es"
    and h: "srx_event_handler t e = Inr t'"
  show "flows (out t') = flows (out s) \<and> credit t' = 1"
  proof (cases e)
    case (SR_DELIVERY d)
    then have "\<not> link_credit d < credit t sdiv 2"
      using assms(4) e t by (auto simp: signed_divide_int_def not_less)
    moreover have "t' = srx_delivery d t" using SR_DELIVERY h by simp
    ultimately show ?thesis using t
      by (cases "readable d \<and> \<not> partial d") (simp add: srx_delivery_eq, simp add: srx_delivery_def)
  qed (use assms(3) e h t in auto)
qed (use assms(2) in simp)

theorem srx_window_of_one_stalls_witness:
  "\<exists>s'. run srx_event_handler (srx_app_data\<lparr>credit := 1, count := 5, out := [PnLinkFlow 1]\<rparr>) [srx_sample 0] = Inr s'
     \<and> flows (out s') = 1 \<and> count s' = 4"
proof -
  let ?s = "srx_app_data\<lparr>credit := 1, count := 5, out := [PnLinkFlow 1]\<rparr>"
  have r: "run srx_event_handler ?s [srx_sample 0] = Inr (srx_delivery (case srx_sample 0 of SR_DELIVERY d \<Rightarrow> d) ?s)"
    by simp
  have "count (srx_delivery (case srx_sample 0 of SR_DELIVERY d \<Rightarrow> d) ?s) = 4"
    by (simp add: srx_delivery_eq srx_app_data_def)
  with srx_window_of_one_stalls [OF r] r show ?thesis by simp
qed

section \<open>When the receiver closes\<close>

text \<open>The endpoints closed, and the messages accepted, in the order of the calls.\<close>

abbreviation srx_closes :: "pn_call list \<Rightarrow> pn_call list" where
  "srx_closes \<equiv> filter (\<lambda>c. c \<in> {PnLinkClose, PnSessionClose, PnConnectionClose})"

abbreviation accepts :: "pn_call list \<Rightarrow> nat" where
  "accepts \<equiv> calls (\<lambda>c. c = PnUpdate PN_ACCEPTED)"

definition unsettled_message :: "srx_event \<Rightarrow> bool" where
  "unsettled_message e = (case e of SR_DELIVERY d \<Rightarrow> readable d \<and> \<not> partial d \<and> \<not> settled d | _ \<Rightarrow> False)"

lemma srx_event_closes:
  assumes "srx_event_handler s e = Inr t"
  shows "settles (out t) = settles (out s) + of_bool (whole_message e)"
    and "advances (out t) = advances (out s) + of_bool (whole_message e)"
    and "accepts (out t) = accepts (out s) + of_bool (unsettled_message e)"
    and "count t = (if whole_message e \<and> count s \<noteq> 0 then count s - 1 else count s)"
    and "srx_closes (out t) = srx_closes (out s)
      @ (if whole_message e \<and> count s = 1 then [PnLinkClose, PnSessionClose, PnConnectionClose] else [])"
proof -
  let ?goal = "settles (out t) = settles (out s) + of_bool (whole_message e)
    \<and> advances (out t) = advances (out s) + of_bool (whole_message e)
    \<and> accepts (out t) = accepts (out s) + of_bool (unsettled_message e)
    \<and> count t = (if whole_message e \<and> count s \<noteq> 0 then count s - 1 else count s)
    \<and> srx_closes (out t) = srx_closes (out s)
      @ (if whole_message e \<and> count s = 1 then [PnLinkClose, PnSessionClose, PnConnectionClose] else [])"
  have ?goal
  proof (cases e)
    case (SR_DELIVERY d)
    show ?goal
    proof (cases "readable d \<and> \<not> partial d")
      case True
      then show ?thesis using SR_DELIVERY assms
        by (cases "settled d") (auto simp: srx_delivery_eq whole_message_def unsettled_message_def)
    next
      case False
      then have "\<not> whole_message e" "\<not> unsettled_message e"
        using SR_DELIVERY by (auto simp: whole_message_def unsettled_message_def)
      moreover have "t = s" using SR_DELIVERY assms False by (simp add: srx_delivery_def split: if_splits)
      ultimately show ?thesis by simp
    qed
  qed (use assms in \<open>auto simp: srx_connection_init_def whole_message_def unsettled_message_def\<close>)
  then show "settles (out t) = settles (out s) + of_bool (whole_message e)"
    "advances (out t) = advances (out s) + of_bool (whole_message e)"
    "accepts (out t) = accepts (out s) + of_bool (unsettled_message e)"
    "count t = (if whole_message e \<and> count s \<noteq> 0 then count s - 1 else count s)"
    "srx_closes (out t) = srx_closes (out s)
      @ (if whole_message e \<and> count s = 1 then [PnLinkClose, PnSessionClose, PnConnectionClose] else [])"
    by blast+
qed

lemma srx_run_closes:
  assumes "run srx_event_handler s es = Inr s'" and "0 \<le> count s"
  shows "settles (out s') = settles (out s) + length (filter whole_message es)
    \<and> advances (out s') = advances (out s) + length (filter whole_message es)
    \<and> accepts (out s') = accepts (out s) + length (filter unsettled_message es)
    \<and> srx_closes (out s') = srx_closes (out s)
      @ (if count s \<noteq> 0 \<and> count s \<le> int (length (filter whole_message es))
         then [PnLinkClose, PnSessionClose, PnConnectionClose] else [])"
  using assms
proof (induction es arbitrary: s)
  case (Cons e es)
  then obtain t where t: "srx_event_handler s e = Inr t" "run srx_event_handler t es = Inr s'"
    by (auto simp: bnd_eq_Inr)
  note c = srx_event_closes [OF t(1)]
  have "0 \<le> count t" using c(4) Cons.prems(2) by auto
  note i = Cons.IH [OF t(2) this]
  show ?case
  proof (cases "whole_message e")
    case True
    then show ?thesis using i c Cons.prems(2) by (cases "count s = 0"; cases "count s = 1") auto
  next
    case False
    then show ?thesis using i c by auto
  qed
qed auto

text \<open>C18: over a whole run the receiver advances and settles every whole message exactly once, and
  accepts those that did not arrive settled. It closes link, session and connection, once and in
  this order, when the number of messages asked for has arrived, not before, and never when it was asked
  for messages without end.\<close>

theorem srx_closes_after_count:
  assumes "srx_main opts es = Inr s" and "parse_opts srx_option opts srx_app_data = Inr g"
  shows "settles (out s) = length (filter whole_message es) \<and> advances (out s) = settles (out s)
    \<and> accepts (out s) = length (filter unsettled_message es)
    \<and> srx_closes (out s) = (if count g \<noteq> 0 \<and> count g \<le> int (length (filter whole_message es))
         then [PnLinkClose, PnSessionClose, PnConnectionClose] else [])"
proof -
  have g: "out g = [] \<and> 0 \<le> count g"
    by (rule parse_opts_preserves [where P = "\<lambda>s. out s = [] \<and> 0 \<le> count s", OF _ _ assms(2)])
      (auto simp: srx_option_def usage_def Let_def srx_app_data_def split: prod.splits if_splits)
  have "run srx_event_handler (emit [PnSetContainer (container g), PnSetHostname (address g)] g) es = Inr s"
    using assms by (simp add: srx_main_def)
  from srx_run_closes [OF this] g show ?thesis by simp
qed

theorem srx_closes_after_count_witness:
  "\<exists>s. srx_main [] [SR_CONNECTION_INIT, srx_sample 99, srx_sample 98] = Inr s
     \<and> srx_closes (out s) = [PnLinkClose, PnSessionClose, PnConnectionClose] \<and> settles (out s) = 2"
proof -
  obtain s where s: "srx_main [] [SR_CONNECTION_INIT, srx_sample 99, srx_sample 98] = Inr s"
    by (simp add: srx_main_def)
  from srx_closes_after_count [OF s, of srx_app_data] s show ?thesis
    by (simp add: srx_app_data_def whole_message_def)
qed

end
