(* ===== verification/LinkSender.thy ===== *)
theory LinkSender
  imports Proactor
begin

text \<open>
  \<open>skupper-router/clients/amqp_link_scale/link-sender.c\<close>: opens a number of sending links,
  writes one message on each and exits when every one has had an outcome. The state keeps, for
  each link, its context: no delivery yet, or a delivery and the number of body bytes written
  (the context of the delivery). Calls on link \<open>k\<close> are logged with \<open>OnLink k\<close>.
\<close>

section \<open>State\<close>

record link_sender = world +
  target_address :: string
  host_address :: string
  container_name :: string
  max_links :: int
  closed_links :: int
  body_length :: u32
  tag :: u64
  link_context :: "nat \<Rightarrow> u64 option"
  sig_ign :: "int set"

definition TX_BUF_SIZE :: u64 where "TX_BUF_SIZE = 32768"

definition lks_globals :: link_sender where
  "lks_globals = \<lparr>clk = 0, out = [], target_address = ''balanced/address'',
     host_address = ''127.0.0.1:5672'', container_name = ''LinkSender'', max_links = 100,
     closed_links = 0, body_length = 1024, tag = 0, link_context = (\<lambda>k. None), sig_ign = {}\<rparr>"

definition msg_fragment :: "u8 list" where
  "msg_fragment = [0x00, 0x53, 0x70, 0x45, 0x00, 0x53, 0x73, 0x45, 0x00, 0x53, 0x77, 0xb0]"

lemma emit_link_sender [simp]:
  "target_address (emit cs s) = target_address s" "host_address (emit cs s) = host_address s"
  "container_name (emit cs s) = container_name s" "max_links (emit cs s) = max_links s"
  "closed_links (emit cs s) = closed_links s" "body_length (emit cs s) = body_length s"
  "tag (emit cs s) = tag s" "link_context (emit cs s) = link_context s" "sig_ign (emit cs s) = sig_ign s"
  by (simp_all add: emit_def)

section \<open>Writing\<close>

text \<open>
  \<open>wr bs\<close> is what \<open>pn_link_send()\<close> returns for the bytes \<open>bs\<close>; what it took of them is logged.
\<close>

definition lks_link_send :: "(u8 list \<Rightarrow> int) \<Rightarrow> nat \<Rightarrow> u8 list \<Rightarrow> link_sender \<Rightarrow> int \<times> link_sender" where
  "lks_link_send wr k bs s = (wr bs, emit [OnLink k (PnLinkSend (take (nat (wr bs)) bs))] s)"

text \<open>
  What the handler of \<open>PN_LINK_FLOW\<close> asks: the link and whether it is locally active, its
  credit, whether it has a current delivery, whether \<open>pn_delivery()\<close> makes one and whether
  that is writable.
\<close>

record lks_flow =
  flow_link :: nat
  local_active :: bool
  flow_credit :: int
  has_current :: bool
  dlv_made :: bool
  writable :: bool

definition start_message :: "(u8 list \<Rightarrow> int) \<Rightarrow> lks_flow \<Rightarrow> link_sender \<Rightarrow> halt + link_sender" where
  "start_message wr e s =
     (let k = flow_link e in
      if has_current e then Inl (Exit 1)
      else if \<not> dlv_made e then Inl (Exit 1)
      else
        let s = emit [OnLink k (PnDelivery (tag s))] s;
            s = s\<lparr>tag := tag s + 1\<rparr>;
            (rc, s) = lks_link_send wr k msg_fragment s
        in if rc \<noteq> int (length msg_fragment) then Inl (Exit 1)
           else let (rc, s) = lks_link_send wr k (be32 (body_length s)) s
                in if rc \<noteq> 4 then Inl (Exit 1) else Inr (s\<lparr>link_context := (link_context s)(k := Some 0)\<rparr>))"

text \<open>The body, from the zeroed \<open>tx_buffer\<close>: \<open>sent\<close> bytes are written already.\<close>

definition lks_write_body :: "(u8 list \<Rightarrow> int) \<Rightarrow> nat \<Rightarrow> u64 \<Rightarrow> link_sender \<Rightarrow> halt + link_sender" where
  "lks_write_body wr k sent s =
     (if sent < ucast (body_length s) then
        let amount = min (ucast (body_length s) - sent) TX_BUF_SIZE;
            (rc, s) = lks_link_send wr k (replicate (unat amount) 0) s
        in if rc \<noteq> int (unat amount) then Inl (Exit 1)
           else let sent = sent + amount;
                    s = s\<lparr>link_context := (link_context s)(k := Some sent)\<rparr>
                in Inr (if sent = ucast (body_length s) then emit [OnLink k PnLinkAdvance] s else s)
      else Inr s)"

definition lks_link_flow :: "(u8 list \<Rightarrow> int) \<Rightarrow> lks_flow \<Rightarrow> link_sender \<Rightarrow> halt + link_sender" where
  "lks_link_flow wr e s =
     (let k = flow_link e in
      if local_active e then
        bnd (if link_context s k = None \<and> 0 < flow_credit e then start_message wr e s else Inr s) (\<lambda>s.
        case link_context s k of
          Some sent \<Rightarrow> if writable e then lks_write_body wr k sent s else Inr s
        | None \<Rightarrow> Inr s)
      else Inr s)"

section \<open>The event handler\<close>

datatype lks_event =
    LK_CONNECTION_INIT
  | LK_LINK_FLOW lks_flow
  | LK_DELIVERY nat bool disposition
  | LK_PROACTOR_INACTIVE
  | LK_PROACTOR_INTERRUPT
  | LK_SIGNAL int
  | LK_OTHER

definition lks_name :: "nat \<Rightarrow> string" where
  "lks_name i = ''L:'' @ show_nat i"

definition lks_connection_init :: "link_sender \<Rightarrow> link_sender" where
  "lks_connection_init s =
     emit ([PnConnectionOpen, PnSession, PnSessionOpen]
       @ concat (map (\<lambda>i. [OnLink i (PnSender (lks_name i)), OnLink i (PnSetTarget (target_address s)),
                           OnLink i PnLinkOpen]) [0..<nat (max_links s)])) s"

definition lks_delivery :: "nat \<Rightarrow> bool \<Rightarrow> disposition \<Rightarrow> link_sender \<Rightarrow> bool \<times> link_sender" where
  "lks_delivery k updated rs s =
     (if updated \<and> rs \<noteq> PN_RECEIVED then
        let s = emit [OnLink k PnSettle, OnLink k PnLinkClose] s;
            s = s\<lparr>closed_links := closed_links s + 1\<rparr>
        in (closed_links s = max_links s, s)
      else (False, s))"

text \<open>Each of the three signals is handled once and ignored from then on.\<close>

definition lks_signal_handler :: "int \<Rightarrow> link_sender \<Rightarrow> link_sender" where
  "lks_signal_handler signum s =
     (if signum \<in> sig_ign s then s
      else emit [PnProactorInterrupt] (s\<lparr>sig_ign := insert signum (sig_ign s)\<rparr>))"

fun lks_event_handler :: "(u8 list \<Rightarrow> int) \<Rightarrow> link_sender \<Rightarrow> lks_event \<Rightarrow> halt + bool \<times> link_sender" where
  "lks_event_handler wr s LK_CONNECTION_INIT = Inr (False, lks_connection_init s)"
| "lks_event_handler wr s (LK_LINK_FLOW e) = bnd (lks_link_flow wr e s) (\<lambda>s. Inr (False, s))"
| "lks_event_handler wr s (LK_DELIVERY k updated rs) = Inr (lks_delivery k updated rs s)"
| "lks_event_handler wr s LK_PROACTOR_INACTIVE = Inr (True, s)"
| "lks_event_handler wr s LK_PROACTOR_INTERRUPT = Inr (True, s)"
| "lks_event_handler wr s (LK_SIGNAL signum) = Inr (False, lks_signal_handler signum s)"
| "lks_event_handler wr s LK_OTHER = Inr (False, s)"

section \<open>\<open>main\<close>\<close>

definition lks_option :: "opt \<Rightarrow> link_sender \<Rightarrow> halt + link_sender" where
  "lks_option p s =
     (case p of (c, optarg) \<Rightarrow>
      if c = CHR ''h'' then usage
      else if c = CHR ''a'' then Inr (s\<lparr>host_address := optarg\<rparr>)
      else if c = CHR ''i'' then Inr (s\<lparr>container_name := optarg\<rparr>)
      else if c = CHR ''t'' then Inr (s\<lparr>target_address := optarg\<rparr>)
      else if c = CHR ''D'' then Inr s
      else if c = CHR ''l'' then
        (case scan_int optarg of None \<Rightarrow> usage
         | Some n \<Rightarrow> if n \<le> 0 then usage else Inr (s\<lparr>max_links := n\<rparr>))
      else if c = CHR ''s'' then
        (case scan_u32 optarg of None \<Rightarrow> usage
         | Some n \<Rightarrow> if n = 0 then usage else Inr (s\<lparr>body_length := n\<rparr>))
      else usage)"

text \<open>The address is cut at the first colon; the host and the port go to Proton.\<close>

definition lks_host_port :: "link_sender \<Rightarrow> string \<times> string" where
  "lks_host_port s = trim_port split_first (host_address s)"

definition lks_main :: "(u8 list \<Rightarrow> int) \<Rightarrow> opt list \<Rightarrow> lks_event list list \<Rightarrow> halt + bool \<times> link_sender" where
  "lks_main wr opts ess =
     bnd (parse_opts lks_option opts lks_globals) (\<lambda>s.
     proactor_loop (lks_event_handler wr) id (emit (connect_calls (container_name s) (lks_host_port s)) s) ess)"

section \<open>The message of one link\<close>

definition lks_prefix :: "u32 \<Rightarrow> nat \<Rightarrow> u8 list" where
  "lks_prefix len n = msg_fragment @ be32 len @ replicate n 0"

text \<open>What the calls on a link are for each value of its context.\<close>

definition lks_shape :: "u32 \<Rightarrow> u64 option \<Rightarrow> pn_call list \<Rightarrow> bool" where
  "lks_shape len ctx cs \<longleftrightarrow>
     (case ctx of
        None \<Rightarrow> sent_bytes cs = [] \<and> deliveries cs = 0 \<and> advances cs = 0
      | Some sent \<Rightarrow> sent_bytes cs = lks_prefix len (unat sent) \<and> unat sent \<le> unat len
          \<and> deliveries cs = 1 \<and> advances cs = (if unat sent = unat len then 1 else 0))"

definition quiet :: "pn_call list \<Rightarrow> bool" where
  "quiet cs \<longleftrightarrow> sent_bytes cs = [] \<and> deliveries cs = 0 \<and> advances cs = 0"

lemma lks_shape_quiet: "quiet cs \<Longrightarrow> lks_shape len ctx (xs @ cs) \<longleftrightarrow> lks_shape len ctx xs"
  by (simp add: lks_shape_def quiet_def split: option.splits)

definition lks_inv :: "link_sender \<Rightarrow> bool" where
  "lks_inv s \<longleftrightarrow> 0 < body_length s
     \<and> (\<forall>k. lks_shape (body_length s) (link_context s k) (link_calls k (out s)))"

lemma lks_inv_cong:
  assumes "lks_inv s" and "out s' = out s @ cs" and "link_context s' = link_context s" and "body_length s' = body_length s"
    and "\<And>k. quiet (link_calls k cs)"
  shows "lks_inv s'"
  using assms by (simp add: lks_inv_def lks_shape_quiet)

lemma lks_inv_step:
  assumes "lks_inv s" and "out s' = out s @ map (OnLink k) cs" and "link_context s' = (link_context s)(k := ctx)"
    and "body_length s' = body_length s"
    and "lks_shape (body_length s) ctx (link_calls k (out s) @ cs)"
  shows "lks_inv s'"
  using assms by (auto simp: lks_inv_def)

lemma unat_ucast_u64 [simp]: "unat (ucast (x :: u32) :: u64) = unat x"
proof -
  have "unat x < 4294967296" using unsigned_less [of x, where ?'a = nat] by simp
  then have "take_bit 64 (unat x) = unat x" by (intro take_bit_nat_eq_self) simp
  then show ?thesis by (simp add: unsigned_ucast_eq)
qed

lemma lks_start_message_Inr:
  assumes "start_message wr e s = Inr s'"
  shows "s' = emit (map (OnLink (flow_link e)) [PnDelivery (tag s), PnLinkSend msg_fragment, PnLinkSend (be32 (body_length s))])
      (s\<lparr>tag := tag s + 1, link_context := (link_context s)(flow_link e := Some 0)\<rparr>)"
proof -
  have c: "\<not> has_current e" "dlv_made e"
    using assms by (auto simp: start_message_def Let_def split: if_splits)
  have m: "wr msg_fragment = int (length msg_fragment)" "wr (be32 (body_length s)) = 4"
    using assms c by (auto simp: start_message_def lks_link_send_def Let_def split: if_splits)
  show ?thesis using assms c m by (auto simp: start_message_def lks_link_send_def Let_def emit_def)
qed

lemma lks_start_message_inv:
  assumes "start_message wr e s = Inr s'" and "lks_inv s" and "link_context s (flow_link e) = None"
  shows "lks_inv s'"
proof (rule lks_inv_step [OF assms(2)])
  note s' = lks_start_message_Inr [OF assms(1)]
  show "out s' = out s @ map (OnLink (flow_link e)) [PnDelivery (tag s), PnLinkSend msg_fragment, PnLinkSend (be32 (body_length s))]"
    "link_context s' = (link_context s)(flow_link e := Some 0)" "body_length s' = body_length s"
    by (simp_all add: s')
  have "lks_shape (body_length s) None (link_calls (flow_link e) (out s))" "0 < unat (body_length s)"
    using assms(2,3) by (auto simp: lks_inv_def word_less_nat_alt dest!: spec [of _ "flow_link e"])
  then show "lks_shape (body_length s) (Some 0) (link_calls (flow_link e) (out s)
      @ [PnDelivery (tag s), PnLinkSend msg_fragment, PnLinkSend (be32 (body_length s))])"
    by (simp add: lks_shape_def lks_prefix_def)
qed

lemma lks_write_body_inv:
  assumes "lks_write_body wr k sent s = Inr s'" and "lks_inv s" and "link_context s k = Some sent"
  shows "lks_inv s'"
proof (cases "sent < ucast (body_length s)")
  case False
  then show ?thesis using assms by (simp add: lks_write_body_def)
next
  case True
  define a where "a = min (ucast (body_length s) - sent) TX_BUF_SIZE"
  have wr: "wr (replicate (unat a) 0) = int (unat a)"
    using assms(1) True by (auto simp: lks_write_body_def lks_link_send_def Let_def a_def split: if_splits)
  define fin where "fin = (sent + a = ucast (body_length s))"
  define cs where "cs = PnLinkSend (replicate (unat a) 0) # (if fin then [PnLinkAdvance] else [])"
  have s': "s' = emit (map (OnLink k) cs) (s\<lparr>link_context := (link_context s)(k := Some (sent + a))\<rparr>)"
    using assms(1) True wr unfolding cs_def fin_def
    by (auto simp: lks_write_body_def lks_link_send_def Let_def emit_def simp flip: a_def)
  have lt: "unat sent < unat (body_length s)" using True by (simp add: word_less_nat_alt)
  have "unat (ucast (body_length s) - sent) = unat (body_length s) - unat sent"
    using True by (simp add: unat_sub)
  moreover have "unat a \<le> unat (ucast (body_length s) - sent)" by (simp add: a_def flip: word_le_nat_alt)
  ultimately have a: "unat sent + unat a \<le> unat (body_length s)" using lt by simp
  have "unat (body_length s) < 2 ^ 32" 
    using unsigned_less [of "body_length s", where ?'a = nat] by simp
  then have u: "unat (sent + a) = unat sent + unat a" using a lt by (simp add: unat_word_ariths)
  have d: "fin \<longleftrightarrow> unat sent + unat a = unat (body_length s)"
    unfolding fin_def word_unat_eq_iff u by simp
  have sh: "lks_shape (body_length s) (Some sent) (link_calls k (out s))"
    using assms(2,3) by (auto simp: lks_inv_def dest!: spec [of _ k])
  show ?thesis
  proof (rule lks_inv_step [OF assms(2)])
    show "out s' = out s @ map (OnLink k) cs" "link_context s' = (link_context s)(k := Some (sent + a))"
      "body_length s' = body_length s" by (simp_all add: s')
    show "lks_shape (body_length s) (Some (sent + a)) (link_calls k (out s) @ cs)"
      using sh lt a d by (simp add: lks_shape_def u cs_def lks_prefix_def replicate_add)
  qed
qed

lemma lks_link_flow_inv:
  assumes "lks_link_flow wr e s = Inr s'" and "lks_inv s"
  shows "lks_inv s'"
proof (cases "local_active e")
  case False
  then show ?thesis using assms by (simp add: lks_link_flow_def)
next
  case True
  then obtain t where t: "(if link_context s (flow_link e) = None \<and> 0 < flow_credit e then start_message wr e s else Inr s) = Inr t"
      "(case link_context t (flow_link e) of
          Some sent \<Rightarrow> if writable e then lks_write_body wr (flow_link e) sent t else Inr t
        | None \<Rightarrow> Inr t) = Inr s'"
    using assms(1) by (auto simp: lks_link_flow_def Let_def bnd_eq_Inr)
  have "lks_inv t" using t(1) assms(2) lks_start_message_inv by (auto split: if_splits)
  then show ?thesis using t(2) lks_write_body_inv by (auto split: option.splits if_splits)
qed

lemma quiet_link_calls_opening:
  "quiet (link_calls k (concat (map (\<lambda>i. [OnLink i (PnSender (f i)), OnLink i (PnSetTarget a), OnLink i PnLinkOpen]) is)))"
  by (induction "is") (simp_all add: quiet_def)

lemma quiet_Cons_plain:
  "quiet (link_calls k (PnConnectionOpen # PnSession # PnSessionOpen # cs)) = quiet (link_calls k cs)"
  by simp

lemma lks_handler_inv:
  assumes "lks_inv s" and "lks_event_handler wr s e = Inr (d, s')"
  shows "lks_inv s'"
proof (cases e)
  case LK_CONNECTION_INIT
  then have "s' = lks_connection_init s" using assms(2) by simp
  then show ?thesis
    by (intro lks_inv_cong [OF assms(1), of _ "[PnConnectionOpen, PnSession, PnSessionOpen]
        @ concat (map (\<lambda>i. [OnLink i (PnSender (lks_name i)), OnLink i (PnSetTarget (target_address s)),
                           OnLink i PnLinkOpen]) [0..<nat (max_links s)])"])
      (simp_all add: lks_connection_init_def quiet_link_calls_opening)
next
  case (LK_LINK_FLOW f)
  then show ?thesis using assms lks_link_flow_inv by (auto simp: bnd_eq_Inr)
next
  case (LK_DELIVERY k u rs)
  then have s': "lks_delivery k u rs s = (d, s')" using assms(2) by simp
  show ?thesis
  proof (cases "u \<and> rs \<noteq> PN_RECEIVED")
    case False
    then show ?thesis using s' assms(1) by (simp add: lks_delivery_def split: if_splits)
  next
    case True
    then show ?thesis using s'
      by (intro lks_inv_cong [OF assms(1), of _ "[OnLink k PnSettle, OnLink k PnLinkClose]"])
        (auto simp: lks_delivery_def Let_def quiet_def)
  qed
next
  case (LK_SIGNAL n)
  then show ?thesis using assms
    by (intro lks_inv_cong [OF assms(1), of _ "if n \<in> sig_ign s then [] else [PnProactorInterrupt]"])
      (auto simp: lks_signal_handler_def quiet_def)
qed (use assms in auto)

lemma max_links_keeps: "lks_event_handler wr s e = Inr (d, s') \<Longrightarrow> max_links s' = max_links s"
proof (cases e)
  case (LK_LINK_FLOW f)
  have w: "lks_write_body wr k n t = Inr t' \<Longrightarrow> max_links t' = max_links t" for k n t t'
    by (auto simp: lks_write_body_def lks_link_send_def Let_def split: if_splits)
  have m: "start_message wr f s = Inr t \<Longrightarrow> max_links t = max_links s" for t
    by (drule lks_start_message_Inr) simp
  assume "lks_event_handler wr s e = Inr (d, s')"
  then have f: "lks_link_flow wr f s = Inr s'" using LK_LINK_FLOW by (auto simp: bnd_eq_Inr)
  show "max_links s' = max_links s"
  proof (cases "local_active f")
    case True
    then obtain t where t: "(if link_context s (flow_link f) = None \<and> 0 < flow_credit f then start_message wr f s else Inr s) = Inr t"
        "(case link_context t (flow_link f) of
            Some sent \<Rightarrow> if writable f then lks_write_body wr (flow_link f) sent t else Inr t
          | None \<Rightarrow> Inr t) = Inr s'"
      using f by (auto simp: lks_link_flow_def Let_def bnd_eq_Inr)
    have "max_links t = max_links s" using t(1) m by (auto split: if_splits)
    then show ?thesis using t(2) w by (auto split: option.splits if_splits)
  qed (use f in \<open>simp add: lks_link_flow_def\<close>)
qed (auto simp: lks_connection_init_def lks_delivery_def lks_signal_handler_def Let_def split: if_splits)

interpretation lks: proactor_client "lks_event_handler wr" id "\<lambda>s. lks_inv s \<and> max_links s = m" for wr m
  by unfold_locales (auto intro: lks_handler_inv dest: max_links_keeps)

section \<open>The program\<close>

lemma lks_option_inv: "lks_option p s = Inr s' \<Longrightarrow> lks_inv s \<and> out s = [] \<and> 0 < max_links s
    \<Longrightarrow> lks_inv s' \<and> out s' = [] \<and> 0 < max_links s'"
  by (auto simp: lks_option_def usage_def lks_inv_def lks_shape_def word_neq_0_conv
      split: prod.splits if_splits option.splits)

lemma lks_main_starts:
  assumes "lks_main wr opts ess = Inr (d, s)"
  obtains g where "parse_opts lks_option opts lks_globals = Inr g"
    and "lks_inv (emit (connect_calls (container_name g) (lks_host_port g)) g)" and "0 < max_links g"
    and "proactor_loop (lks_event_handler wr) id (emit (connect_calls (container_name g) (lks_host_port g)) g) ess = Inr (d, s)"
proof -
  obtain g where g: "parse_opts lks_option opts lks_globals = Inr g"
    "proactor_loop (lks_event_handler wr) id (emit (connect_calls (container_name g) (lks_host_port g)) g) ess = Inr (d, s)"
    using assms by (auto simp: lks_main_def bnd_eq_Inr)
  have "lks_inv g \<and> out g = [] \<and> 0 < max_links g"
    by (rule parse_opts_preserves [where P = "\<lambda>s. lks_inv s \<and> out s = [] \<and> 0 < max_links s", OF _ _ g(1)])
      (use lks_option_inv in blast, simp add: lks_globals_def lks_inv_def lks_shape_def)
  then have "lks_inv (emit (connect_calls (container_name g) (lks_host_port g)) g)" "out g = []" "0 < max_links g"
    by (auto intro: lks_inv_cong [of g _ "(connect_calls (container_name g) (lks_host_port g))"] simp: quiet_def)
  then show ?thesis using that g by blast
qed

lemma lks_main_shape:
  assumes "lks_main wr opts ess = Inr (d, s)"
  shows "lks_shape (body_length s) (link_context s k) (link_calls k (out s))"
proof -
  obtain g where g: "lks_inv (emit (connect_calls (container_name g) (lks_host_port g)) g)"
      "proactor_loop (lks_event_handler wr) id (emit (connect_calls (container_name g) (lks_host_port g)) g) ess = Inr (d, s)"
    by (rule lks_main_starts [OF assms])
  have "lks_inv s" using lks.loop_keeps [OF _ g(2)] g(1) by blast
  then show ?thesis by (simp add: lks_inv_def)
qed

section \<open>Properties\<close>

text \<open>C3: on every link at most one message is written: the fixed header, the length of the body in
  network order and a beginning of the body, and the delivery is completed exactly when the
  whole body has been written.\<close>

theorem lks_one_message_per_link:
  assumes "lks_main wr opts ess = Inr (d, s)"
  shows "\<exists>n \<le> unat (body_length s).
      (deliveries (link_calls k (out s)) = 0 \<and> sent_bytes (link_calls k (out s)) = []
       \<or> deliveries (link_calls k (out s)) = 1
         \<and> sent_bytes (link_calls k (out s)) = msg_fragment @ be32 (body_length s) @ replicate n 0)
      \<and> advances (link_calls k (out s))
          = (if deliveries (link_calls k (out s)) = 1 \<and> n = unat (body_length s) then 1 else 0)"
proof -
  note k = lks_main_shape [OF assms, of k]
  show ?thesis
  proof (cases "link_context s k")
    case None
    then show ?thesis using k by (intro exI [of _ 0]) (simp add: lks_shape_def)
  next
    case (Some sent)
    then show ?thesis using k by (intro exI [of _ "unat sent"]) (simp add: lks_shape_def lks_prefix_def)
  qed
qed

abbreviation lks_sample_flow :: lks_event where
  "lks_sample_flow \<equiv> LK_LINK_FLOW \<lparr>flow_link = 0, local_active = True, flow_credit = 1, has_current = False,
     dlv_made = True, writable = True\<rparr>"

abbreviation lks_sample :: "lks_event list list" where
  "lks_sample \<equiv> [[LK_CONNECTION_INIT, lks_sample_flow], [LK_DELIVERY 0 True PN_ACCEPTED]]"

lemma lks_sample_run:
  "\<exists>s. lks_main (\<lambda>bs. int (length bs)) [(CHR ''l'', ''1''), (CHR ''s'', ''3'')] lks_sample = Inr (True, s)
     \<and> deliveries (link_calls 0 (out s)) = 1 \<and> advances (link_calls 0 (out s)) = 1"
  "parse_opts lks_option [(CHR ''l'', ''1''), (CHR ''s'', ''3'')] lks_globals
     = Inr (lks_globals\<lparr>max_links := 1, body_length := 3\<rparr>)"
  by (simp_all add: lks_main_def lks_option_def lks_globals_def scan_int_def scan_u32_def scan_number_def read_sign_def
      is_space_def is_digit_def strtoul_def strtol_def lks_connection_init_def lks_link_flow_def start_message_def
      lks_link_send_def msg_fragment_def lks_write_body_def lks_delivery_def TX_BUF_SIZE_def Let_def emit_def)

theorem lks_one_message_per_link_witness:
  "\<exists>s n. lks_main (\<lambda>bs. int (length bs)) [(CHR ''l'', ''1''), (CHR ''s'', ''3'')] lks_sample = Inr (True, s)
     \<and> sent_bytes (link_calls 0 (out s)) = msg_fragment @ be32 (body_length s) @ replicate n 0"
proof -
  obtain s where s: "lks_main (\<lambda>bs. int (length bs)) [(CHR ''l'', ''1''), (CHR ''s'', ''3'')] lks_sample = Inr (True, s)"
    "deliveries (link_calls 0 (out s)) = 1" using lks_sample_run(1) by blast
  from lks_one_message_per_link [OF s(1), of 0] s show ?thesis by auto
qed

text \<open>The links that were closed, in order, and those of the events that report an outcome.\<close>

fun closed_on :: "pn_call list \<Rightarrow> nat list" where
  "closed_on [] = []"
| "closed_on (OnLink k PnLinkClose # cs) = k # closed_on cs"
| "closed_on (c # cs) = closed_on cs"

fun lks_outcomes :: "lks_event list \<Rightarrow> nat list" where
  "lks_outcomes [] = []"
| "lks_outcomes (LK_DELIVERY k updated rs # es) =
     (if updated \<and> rs \<noteq> PN_RECEIVED then k # lks_outcomes es else lks_outcomes es)"
| "lks_outcomes (e # es) = lks_outcomes es"

lemma closed_on_append [simp]: "closed_on (cs @ ds) = closed_on cs @ closed_on ds"
  by (induction cs rule: closed_on.induct) simp_all

lemma lks_outcomes_append [simp]: "lks_outcomes (es @ fs) = lks_outcomes es @ lks_outcomes fs"
  by (induction es rule: lks_outcomes.induct) simp_all

lemma closed_on_map: "PnLinkClose \<notin> set cs \<Longrightarrow> closed_on (map (OnLink k) cs) = []"
proof (induction cs)
  case (Cons c cs)
  then show ?case by (cases c) simp_all
qed simp

lemma closed_on_opening:
  "closed_on (concat (map (\<lambda>i. [OnLink i (PnSender (f i)), OnLink i (PnSetTarget a), OnLink i PnLinkOpen]) is)) = []"
  by (induction "is") simp_all

text \<open>Writing closes nothing.\<close>

lemma lks_write_body_closes:
  "lks_write_body wr k n s = Inr s' \<Longrightarrow> closed_on (out s') = closed_on (out s) \<and> closed_links s' = closed_links s"
  by (auto simp: lks_write_body_def lks_link_send_def Let_def split: if_splits)

lemma lks_link_flow_closes:
  assumes "lks_link_flow wr e s = Inr s'"
  shows "closed_on (out s') = closed_on (out s) \<and> closed_links s' = closed_links s"
proof (cases "local_active e")
  case False
  then show ?thesis using assms by (simp add: lks_link_flow_def)
next
  case True
  then obtain t where t: "(if link_context s (flow_link e) = None \<and> 0 < flow_credit e then start_message wr e s else Inr s) = Inr t"
      "(case link_context t (flow_link e) of
          Some sent \<Rightarrow> if writable e then lks_write_body wr (flow_link e) sent t else Inr t
        | None \<Rightarrow> Inr t) = Inr s'"
    using assms by (auto simp: lks_link_flow_def Let_def bnd_eq_Inr)
  have "closed_on (out t) = closed_on (out s) \<and> closed_links t = closed_links s"
    using t(1) by (auto dest!: lks_start_message_Inr split: if_splits)
  then show ?thesis using t(2) lks_write_body_closes by (auto split: option.splits if_splits)
qed

text \<open>The links closed while the program runs are those of the outcomes so far, fewer than its links.\<close>

definition lks_closing :: "int \<Rightarrow> lks_event list \<Rightarrow> link_sender \<Rightarrow> bool" where
  "lks_closing m hs s \<longleftrightarrow> max_links s = m \<and> closed_on (out s) = lks_outcomes hs
     \<and> closed_links s = int (length (lks_outcomes hs))"

lemma lks_handler_closing:
  assumes "lks_closing m hs s" and "int (length (lks_outcomes hs)) < m" and "lks_event_handler wr s e = Inr (d, s')"
    and "e \<noteq> LK_PROACTOR_INACTIVE" and "e \<noteq> LK_PROACTOR_INTERRUPT"
  shows "lks_closing m (hs @ [e]) s' \<and> (if d then int (length (lks_outcomes (hs @ [e]))) = m
    else int (length (lks_outcomes (hs @ [e]))) < m)"
proof -
  have m: "max_links s' = m" using max_links_keeps [OF assms(3)] assms(1) by (simp add: lks_closing_def)
  show ?thesis
  proof (cases e)
    case LK_CONNECTION_INIT
    then have "s' = lks_connection_init s" "\<not> d" using assms(3) by simp_all
    then show ?thesis using assms(1,2) LK_CONNECTION_INIT
      by (simp add: lks_closing_def lks_connection_init_def closed_on_opening)
  next
    case (LK_LINK_FLOW f)
    then have "lks_link_flow wr f s = Inr s'" "\<not> d" using assms(3) by (auto simp: bnd_eq_Inr)
    then show ?thesis using lks_link_flow_closes assms(1,2) m LK_LINK_FLOW by (simp add: lks_closing_def)
  next
    case (LK_DELIVERY k u rs)
    then have s': "lks_delivery k u rs s = (d, s')" using assms(3) by simp
    show ?thesis
    proof (cases "u \<and> rs \<noteq> PN_RECEIVED")
      case False
      then show ?thesis using s' assms(1,2) LK_DELIVERY by (auto simp: lks_delivery_def lks_closing_def split: if_splits)
    next
      case True
      then show ?thesis using s' assms(1,2) LK_DELIVERY by (auto simp: lks_delivery_def lks_closing_def Let_def)
    qed
  next
    case (LK_SIGNAL n)
    then show ?thesis using assms m by (auto simp: lks_closing_def lks_signal_handler_def)
  qed (use assms in \<open>auto simp: lks_closing_def\<close>)
qed

text \<open>C25: unless it is interrupted or the proactor runs out of work, the program ends exactly when it
  has been told of as many outcomes as it has opened links, at the latest of these; and the links
  it closes are those of these outcomes, in their order, each as its outcome comes.\<close>

theorem lks_ends_when_all_links_closed:
  assumes "lks_main wr opts ess = Inr (d, s)"
    and "parse_opts lks_option opts lks_globals = Inr g"
    and "LK_PROACTOR_INACTIVE \<notin> set (concat ess)" and "LK_PROACTOR_INTERRUPT \<notin> set (concat ess)"
  shows "(d \<longleftrightarrow> nat (max_links g) \<le> length (lks_outcomes (concat ess)))
    \<and> closed_on (out s) = take (nat (max_links g)) (lks_outcomes (concat ess)) \<and> 0 < max_links g"
proof -
  let ?es = "concat ess"
  define P where "P = (\<lambda>hs s. lks_closing (max_links g) hs s \<and> int (length (lks_outcomes hs)) < max_links g)"
  define Q where "Q = (\<lambda>hs s. lks_closing (max_links g) hs s \<and> int (length (lks_outcomes hs)) = max_links g)"
  have g: "0 < max_links g"
      "proactor_loop (lks_event_handler wr) id (emit (connect_calls (container_name g) (lks_host_port g)) g) ess = Inr (d, s)"
    using lks_main_starts [OF assms(1)] assms(2) by auto
  have "out g = [] \<and> closed_links g = 0"
    by (rule parse_opts_preserves [where P = "\<lambda>s. out s = [] \<and> closed_links s = 0", OF _ _ assms(2)])
      (auto simp: lks_option_def usage_def lks_globals_def split: prod.splits if_splits option.splits)
  then have p: "P [] (emit (connect_calls (container_name g) (lks_host_port g)) g)"
    using g(1) by (simp add: P_def lks_closing_def)
  have "\<exists>n \<le> length ?es. (if d then Q else P) ([] @ take n ?es) s \<and> (\<not> d \<longrightarrow> n = length ?es)"
  proof (rule loop_history [where P = P and Q = Q, OF _ _ _ p g(2)])
    fix hs t e b t'
    assume t: "P hs t" "e \<in> set ?es" "lks_event_handler wr t e = Inr (b, t')"
    then have "e \<noteq> LK_PROACTOR_INACTIVE" "e \<noteq> LK_PROACTOR_INTERRUPT" using assms(3,4) by metis+
    with lks_handler_closing [OF _ _ t(3)] t(1)
    show "(if b then Q else P) (hs @ [e]) t'" by (cases b) (auto simp: P_def Q_def)
  qed simp_all
  then obtain n where n: "n \<le> length ?es" "(if d then Q else P) (take n ?es) s" "\<not> d \<longrightarrow> n = length ?es" by auto
  have "lks_outcomes ?es = lks_outcomes (take n ?es) @ lks_outcomes (drop n ?es)"
    by (metis append_take_drop_id lks_outcomes_append)
  then show ?thesis using n g(1) by (cases d) (auto simp: P_def Q_def lks_closing_def)
qed

theorem lks_ends_when_all_links_closed_witness:
  "\<exists>s. lks_main (\<lambda>bs. int (length bs)) [(CHR ''l'', ''1''), (CHR ''s'', ''3'')] lks_sample = Inr (True, s)
     \<and> closed_on (out s) = [0]"
proof -
  obtain s where s: "lks_main (\<lambda>bs. int (length bs)) [(CHR ''l'', ''1''), (CHR ''s'', ''3'')] lks_sample = Inr (True, s)"
    using lks_sample_run(1) by blast
  from lks_ends_when_all_links_closed [OF s(1) lks_sample_run(2)] s show ?thesis by simp
qed

end
