(* ===== verification/LinkReceiver.thy ===== *)
theory LinkReceiver
  imports Proactor
begin

text \<open>
  \<open>skupper-router/clients/amqp_link_scale/link-receiver.c\<close>: opens a number of receiving links
  and drains and accepts every message until it is interrupted. Deliveries are numbered by the
  environment; \<open>dlv_context\<close> is the context of each, the bytes received of it so far. An event
  carries the answers of \<open>pn_link_recv()\<close>, each with what is pending after it.
\<close>

section \<open>State\<close>

record link_receiver = world +
  source_address :: string
  host_address :: string
  container_name :: string
  max_links :: int
  msg_count :: u64
  dlv_context :: "nat \<Rightarrow> u64"
  sig_ign :: "int set"

definition lkr_globals :: link_receiver where
  "lkr_globals = \<lparr>clk = 0, out = [], source_address = ''balanced/address'',
     host_address = ''127.0.0.1:5672'', container_name = ''LinkReceiver'', max_links = 100,
     msg_count = 0, dlv_context = (\<lambda>d. 0), sig_ign = {}\<rparr>"

lemma emit_link_receiver [simp]:
  "source_address (emit cs s) = source_address s" "host_address (emit cs s) = host_address s"
  "container_name (emit cs s) = container_name s" "max_links (emit cs s) = max_links s"
  "msg_count (emit cs s) = msg_count s" "dlv_context (emit cs s) = dlv_context s"
  "sig_ign (emit cs s) = sig_ign s"
  by (simp_all add: emit_def)

section \<open>The events\<close>

record lkr_dlv =
  dlv_id :: nat
  dlv_link :: nat
  avail :: nat
  recvs :: "(int \<times> nat) list"
  partial :: bool

datatype lkr_event =
    LR_CONNECTION_BOUND
  | LR_DELIVERY lkr_dlv
  | LR_PROACTOR_INACTIVE
  | LR_PROACTOR_INTERRUPT
  | LR_SIGNAL int
  | LR_OTHER

definition lkr_name :: "nat \<Rightarrow> string" where
  "lkr_name i = ''L:'' @ show_nat i"

definition lkr_connection_bound :: "link_receiver \<Rightarrow> link_receiver" where
  "lkr_connection_bound s =
     emit ([PnConnectionOpen, PnSession, PnSessionOpen]
       @ concat (map (\<lambda>i. [OnLink i (PnReceiver (lkr_name i)), OnLink i (PnSetSource (source_address s)),
                           OnLink i PnLinkOpen, OnLink i (PnLinkFlow 1000)]) [0..<nat (max_links s)])) s"

text \<open>
  \<open>while (avail && !rx_done)\<close>: the total and whether the stream ended or failed. A loop that
  the answers of the event do not bring to an end is left hanging.
\<close>

fun lkr_drain :: "nat \<Rightarrow> u64 \<Rightarrow> (int \<times> nat) list \<Rightarrow> halt + bool \<times> u64" where
  "lkr_drain pending tot rs =
     (if pending = 0 then Inr (False, tot)
      else case rs of
             [] \<Rightarrow> Inl Hang
           | (rc, pending) # rs \<Rightarrow>
               if rc < 0 then Inr (True, tot) else lkr_drain pending (tot + word_of_int rc) rs)"

declare lkr_drain.simps [simp del]

definition lkr_delivery :: "lkr_dlv \<Rightarrow> link_receiver \<Rightarrow> halt + link_receiver" where
  "lkr_delivery d s =
     bnd (lkr_drain (avail d) (dlv_context s (dlv_id d)) (recvs d)) (\<lambda>(rx_done, tot).
     if rx_done \<or> \<not> partial d
     then Inr (emit (map (OnLink (dlv_link d)) [PnUpdate PN_ACCEPTED, PnSettle, PnLinkFlow 1])
                 (s\<lparr>msg_count := msg_count s + 1\<rparr>))
     else if tot \<noteq> 0 then Inr (s\<lparr>dlv_context := (dlv_context s)(dlv_id d := tot)\<rparr>)
     else Inr s)"

text \<open>Each of the three signals is handled once and ignored from then on.\<close>

definition lkr_signal_handler :: "int \<Rightarrow> link_receiver \<Rightarrow> link_receiver" where
  "lkr_signal_handler signum s =
     (if signum \<in> sig_ign s then s
      else emit [PnProactorInterrupt] (s\<lparr>sig_ign := insert signum (sig_ign s)\<rparr>))"

fun lkr_event_handler :: "link_receiver \<Rightarrow> lkr_event \<Rightarrow> halt + bool \<times> link_receiver" where
  "lkr_event_handler s LR_CONNECTION_BOUND = Inr (False, lkr_connection_bound s)"
| "lkr_event_handler s (LR_DELIVERY d) = bnd (lkr_delivery d s) (\<lambda>s. Inr (False, s))"
| "lkr_event_handler s LR_PROACTOR_INACTIVE = Inr (True, s)"
| "lkr_event_handler s LR_PROACTOR_INTERRUPT = Inr (True, s)"
| "lkr_event_handler s (LR_SIGNAL signum) = Inr (False, lkr_signal_handler signum s)"
| "lkr_event_handler s LR_OTHER = Inr (False, s)"

section \<open>\<open>main\<close>\<close>

definition lkr_option :: "opt \<Rightarrow> link_receiver \<Rightarrow> halt + link_receiver" where
  "lkr_option p s =
     (case p of (c, optarg) \<Rightarrow>
      if c = CHR ''h'' then usage
      else if c = CHR ''a'' then Inr (s\<lparr>host_address := optarg\<rparr>)
      else if c = CHR ''l'' then
        (case scan_int optarg of None \<Rightarrow> usage
         | Some n \<Rightarrow> if n \<le> 0 then usage else Inr (s\<lparr>max_links := n\<rparr>))
      else if c = CHR ''i'' then Inr (s\<lparr>container_name := optarg\<rparr>)
      else if c = CHR ''s'' then Inr (s\<lparr>source_address := optarg\<rparr>)
      else if c = CHR ''D'' then Inr s
      else usage)"

definition lkr_host_port :: "link_receiver \<Rightarrow> string \<times> string" where
  "lkr_host_port s = trim_port split_last (host_address s)"

definition lkr_main :: "opt list \<Rightarrow> lkr_event list list \<Rightarrow> halt + bool \<times> link_receiver" where
  "lkr_main opts ess =
     bnd (parse_opts lkr_option opts lkr_globals) (\<lambda>s.
     proactor_loop lkr_event_handler id (emit (connect_calls (container_name s) (lkr_host_port s)) s) ess)"

section \<open>The credit of a link\<close>

text \<open>The credit granted on link \<open>k\<close> less the messages settled on it.\<close>

definition link_credit :: "nat \<Rightarrow> link_receiver \<Rightarrow> int" where
  "link_credit k s = credit_balance (link_calls k (out s))"

fun link_settles :: "pn_call list \<Rightarrow> nat" where
  "link_settles [] = 0"
| "link_settles (OnLink k PnSettle # cs) = Suc (link_settles cs)"
| "link_settles (c # cs) = link_settles cs"

lemma link_settles_append [simp]: "link_settles (cs @ ds) = link_settles cs + link_settles ds"
  by (induction cs rule: link_settles.induct) simp_all

lemma lkr_opening:
  "distinct is \<Longrightarrow> link_calls k (concat (map (\<lambda>i. [OnLink i (PnReceiver (f i)), OnLink i (PnSetSource a),
       OnLink i PnLinkOpen, OnLink i (PnLinkFlow 1000)]) is))
     = (if k \<in> set is then [PnReceiver (f k), PnSetSource a, PnLinkOpen, PnLinkFlow 1000] else [])"
  "link_settles (concat (map (\<lambda>i. [OnLink i (PnReceiver (f i)), OnLink i (PnSetSource a),
       OnLink i PnLinkOpen, OnLink i (PnLinkFlow 1000)]) is)) = 0"
  by (induction "is") auto

lemma lkr_delivery_Inr:
  assumes "lkr_delivery d s = Inr s'"
  obtains (accepted) "s' = emit (map (OnLink (dlv_link d)) [PnUpdate PN_ACCEPTED, PnSettle, PnLinkFlow 1])
                 (s\<lparr>msg_count := msg_count s + 1\<rparr>)"
  | (more) n where "s' = s\<lparr>dlv_context := (dlv_context s)(dlv_id d := n)\<rparr>" | (nothing) "s' = s"
  using assms by (auto simp: lkr_delivery_def bnd_eq_Inr split: if_splits)

lemma lkr_event_credit:
  assumes "lkr_event_handler s e = Inr (b, s')" and "e \<noteq> LR_CONNECTION_BOUND"
  shows "link_credit k s' = link_credit k s
    \<and> msg_count s' = msg_count s + of_nat (link_settles (out s') - link_settles (out s))
    \<and> link_settles (out s) \<le> link_settles (out s')"
proof (cases e)
  case (LR_DELIVERY d)
  then have "lkr_delivery d s = Inr s'" using assms(1) by (auto simp: bnd_eq_Inr)
  then show ?thesis
    by (cases rule: lkr_delivery_Inr) (simp_all add: link_credit_def credit_balance_def)
qed (use assms in \<open>auto simp: lkr_signal_handler_def link_credit_def\<close>)

definition lkr_state :: "link_receiver \<Rightarrow> bool" where
  "lkr_state s \<longleftrightarrow> (\<forall>k. link_credit k s = (if int k < max_links s then 1000 else 0))
     \<and> msg_count s = of_nat (link_settles (out s))"

lemma lkr_bound_state:
  assumes "out s = connect_calls c hp" and "msg_count s = 0"
  shows "lkr_state (lkr_connection_bound s)"
  using assms
  by (auto simp: lkr_state_def lkr_connection_bound_def link_credit_def lkr_opening credit_balance_def)

lemma lkr_event_state:
  assumes "lkr_state s \<and> max_links s = m" and "lkr_event_handler s e = Inr (b, s')" and "e \<noteq> LR_CONNECTION_BOUND"
  shows "lkr_state s' \<and> max_links s' = m"
proof -
  have "max_links s' = max_links s"
    using assms(2,3) by (cases e) (auto simp: bnd_eq_Inr lkr_signal_handler_def elim: lkr_delivery_Inr)
  moreover have "of_nat (link_settles (out s)) + of_nat (link_settles (out s') - link_settles (out s))
      = (of_nat (link_settles (out s')) :: u64)"
    using lkr_event_credit [OF assms(2,3)] by (simp flip: of_nat_add)
  ultimately show ?thesis using assms(1) lkr_event_credit [OF assms(2,3)] by (simp add: lkr_state_def)
qed

section \<open>Properties\<close>

text \<open>C26: once the connection is bound, every link that was opened holds exactly 1000 messages of
  credit however many messages arrive on it, and the count of messages is the number of
  deliveries accepted and settled.\<close>

theorem lkr_credit_is_constant:
  assumes "lkr_main opts ((LR_CONNECTION_BOUND # es) # ess) = Inr (d, s)"
    and "parse_opts lkr_option opts lkr_globals = Inr g"
    and "LR_CONNECTION_BOUND \<notin> set (concat (es # ess))"
  shows "credit_balance (link_calls k (out s)) = (if int k < max_links g then 1000 else 0)
    \<and> msg_count s = of_nat (link_settles (out s))"
proof -
  let ?s = "lkr_connection_bound (emit (connect_calls (container_name g) (lkr_host_port g)) g)"
  have "out g = [] \<and> msg_count g = 0"
    by (rule parse_opts_preserves [where P = "\<lambda>s. out s = [] \<and> msg_count s = 0", OF _ _ assms(2)])
      (auto simp: lkr_option_def usage_def lkr_globals_def split: prod.splits if_splits option.splits)
  then have "lkr_state ?s" by (intro lkr_bound_state) simp_all
  moreover have "max_links ?s = max_links g" by (simp add: lkr_connection_bound_def)
  moreover have r: "proactor_loop lkr_event_handler id ?s (es # ess) = Inr (d, s)"
    using assms(1,2) by (simp add: lkr_main_def)
  ultimately have i: "lkr_state ?s \<and> max_links ?s = max_links g" by simp
  have "lkr_state s \<and> max_links s = max_links g"
  proof (rule loop_preserves [where P = "\<lambda>s. lkr_state s \<and> max_links s = max_links g", OF _ _ i r])
    fix t e b t'
    assume "lkr_state t \<and> max_links t = max_links g" "e \<in> set (concat (es # ess))" "lkr_event_handler t e = Inr (b, t')"
    moreover from this have "e \<noteq> LR_CONNECTION_BOUND" using assms(3) by metis
    ultimately show "lkr_state t' \<and> max_links t' = max_links g" using lkr_event_state by metis
  qed simp
  then show ?thesis by (simp add: lkr_state_def link_credit_def)
qed

lemma lkr_sample_parse: "parse_opts lkr_option [(CHR ''l'', ''2'')] lkr_globals = Inr (lkr_globals\<lparr>max_links := 2\<rparr>)"
  by (simp add: lkr_option_def scan_int_def scan_number_def read_sign_def is_space_def is_digit_def strtol_def lkr_globals_def)

theorem lkr_credit_is_constant_witness:
  "\<exists>d s. lkr_main [(CHR ''l'', ''2'')] [[LR_CONNECTION_BOUND],
       [LR_DELIVERY \<lparr>dlv_id = 7, dlv_link = 1, avail = 5, recvs = [(5, 0)], partial = False\<rparr>]] = Inr (d, s)
     \<and> credit_balance (link_calls 1 (out s)) = 1000"
proof -
  let ?ess = "[[LR_DELIVERY \<lparr>dlv_id = 7, dlv_link = 1, avail = 5, recvs = [(5, 0)], partial = False\<rparr>]]"
  have "\<exists>s. lkr_main [(CHR ''l'', ''2'')] ((LR_CONNECTION_BOUND # []) # ?ess) = Inr (False, s)"
    by (simp add: lkr_main_def lkr_sample_parse lkr_delivery_def lkr_drain.simps del: parse_opts.simps)
  then obtain s where s: "lkr_main [(CHR ''l'', ''2'')] ((LR_CONNECTION_BOUND # []) # ?ess) = Inr (False, s)" by blast
  from lkr_credit_is_constant [OF s lkr_sample_parse] s show ?thesis by auto
qed

text \<open>C27: draining a delivery counts every byte that arrives and stops when nothing is pending or the
  stream ends: on answers that bring the pending bytes to zero it returns their sum.\<close>

theorem lkr_drain_counts_bytes:
  assumes "\<forall>(rc, p) \<in> set rs. 0 \<le> rc" and "\<forall>(rc, p) \<in> set (butlast rs). p \<noteq> 0"
    and "rs \<noteq> []" and "snd (last rs) = 0" and "pending \<noteq> 0"
  shows "lkr_drain pending tot (rs @ rest) = Inr (False, tot + (\<Sum>(rc, p) \<leftarrow> rs. word_of_int rc))"
  using assms
proof (induction rs arbitrary: pending tot)
  case Nil
  then show ?case by simp
next
  case (Cons r rs)
  obtain rc p where r: "r = (rc, p)" by (cases r)
  show ?case
  proof (cases "rs = []")
    case True
    then have "p = 0" using Cons.prems(4) r by simp
    then show ?thesis using True Cons.prems(1,5) r
      by (subst lkr_drain.simps) (simp add: lkr_drain.simps)
  next
    case False
    then have "p \<noteq> 0" using Cons.prems(2) r by auto
    moreover have "lkr_drain p (tot + word_of_int rc) (rs @ rest)
        = Inr (False, tot + word_of_int rc + (\<Sum>(rc, p) \<leftarrow> rs. word_of_int rc))"
      by (rule Cons.IH) (use Cons.prems False \<open>p \<noteq> 0\<close> r in auto)
    ultimately show ?thesis using Cons.prems(1,5) r
      by (subst lkr_drain.simps) (simp add: add.assoc)
  qed
qed

theorem lkr_drain_counts_bytes_witness: "lkr_drain 9 1 [(4, 5), (5, 0)] = Inr (False, 10)"
  using lkr_drain_counts_bytes [of "[(4, 5), (5, 0)]" 9 1 "[]"] by simp

end
