(* ===== verification/OomSender.thy ===== *)
theory OomSender
  imports Proactor
begin

text \<open>
  \<open>skupper-router/oomster/oom-sender.c\<close>: streams a message of \<open>2 ^ 32 - 1\<close> body bytes over each
  of its links, as fast as the remote's session window allows. \<open>current k\<close> is the current
  delivery of link \<open>k\<close>, which \<open>pn_delivery()\<close> makes and \<open>pn_link_advance()\<close> ends, as the number
  of body bytes sent (the context of the delivery). It is also ended by \<open>pn_delivery_settle()\<close>, which
  is documented to advance the link when it is called on the current delivery. Calls on link \<open>k\<close> are
  logged with \<open>OnLink k\<close>.
\<close>

section \<open>State\<close>

record oom_sender = world +
  stop :: bool
  links :: int
  target_address :: string
  host_address :: string
  container_name :: string
  total_bytes :: u64
  tag :: u64
  current :: "nat \<Rightarrow> u64 option"
  sig_ign :: "int set"

definition oom_globals :: oom_sender where
  "oom_globals = \<lparr>clk = 0, out = [], stop = False, links = 1, target_address = ''oom-address'',
     host_address = ''127.0.0.1:5672'', container_name = ''OOMSender'', total_bytes = 0, tag = 0,
     current = (\<lambda>k. None), sig_ign = {}\<rparr>"

definition oom_msg_header :: "u8 list" where
  "oom_msg_header = [0x00, 0x53, 0x70, 0x45, 0x00, 0x53, 0x73, 0x45, 0x00, 0x53, 0x77, 0xb0,
     0xff, 0xff, 0xff, 0xff]"

text \<open>The array holds ten lines of a hundred characters and the terminating zero.\<close>

definition body_batch :: "u8 list" where
  "body_batch = bytes_of (concat (replicate 100 ''0123456789'')) @ [0]"

definition UINT32_MAX :: u64 where "UINT32_MAX = 2 ^ 32 - 1"

lemma emit_oom_sender [simp]:
  "stop (emit cs s) = stop s" "links (emit cs s) = links s" "target_address (emit cs s) = target_address s"
  "host_address (emit cs s) = host_address s" "container_name (emit cs s) = container_name s"
  "total_bytes (emit cs s) = total_bytes s" "tag (emit cs s) = tag s" "current (emit cs s) = current s"
  "sig_ign (emit cs s) = sig_ign s"
  by (simp_all add: emit_def)

section \<open>Credit\<close>

text \<open>
  What the handler of \<open>PN_LINK_FLOW\<close> asks: the link, its credit, the remote's frame size and
  incoming window, the bytes buffered in the session. \<open>wr bs\<close> is what \<open>pn_link_send()\<close> returns
  for the bytes \<open>bs\<close>. A null delivery has no context: reading it is undefined behaviour, on which
  the model stops.
\<close>

record oom_flow =
  flow_link :: nat
  flow_credit :: int
  max_frame :: u32
  window :: u64
  outgoing :: u64

definition win_capacity :: "oom_flow \<Rightarrow> u64" where
  "win_capacity e = ucast (max_frame e) * window e"

definition oom_start :: "(u8 list \<Rightarrow> int) \<Rightarrow> oom_flow \<Rightarrow> oom_sender \<Rightarrow> oom_sender" where
  "oom_start wr e s =
     (let k = flow_link e in
      if current s k = None \<and> 0 < flow_credit e then
        let s = s\<lparr>tag := tag s + 1\<rparr>;
            s = emit [OnLink k (PnDelivery (tag s)), OnLink k (PnLinkSend (take (nat (wr oom_msg_header)) oom_msg_header))] s
        in s\<lparr>current := (current s)(k := Some 0), total_bytes := of_nat (length oom_msg_header)\<rparr>
      else s)"

definition oom_link_flow :: "(u8 list \<Rightarrow> int) \<Rightarrow> oom_flow \<Rightarrow> oom_sender \<Rightarrow> halt + oom_sender" where
  "oom_link_flow wr e s =
     (let k = flow_link e; s = oom_start wr e s in
      case current s k of
        None \<Rightarrow> Inl Abort
      | Some bytes_sent \<Rightarrow>
          let to_send = min (of_nat (length body_batch)) (UINT32_MAX - bytes_sent) in
          if 0 < to_send then
            if outgoing e < win_capacity e then
              let to_send = min to_send (win_capacity e - outgoing e);
                  bs = take (unat to_send) body_batch;
                  rc = wr bs;
                  s = emit [OnLink k (PnLinkSend (take (nat rc) bs))] s
              in if rc \<noteq> int (unat to_send) then Inl (Exit 1)
                 else Inr (s\<lparr>total_bytes := total_bytes s + to_send,
                             current := (current s)(k := Some (bytes_sent + to_send))\<rparr>)
            else Inr s
          else Inr (emit [OnLink k PnLinkAdvance] (s\<lparr>current := (current s)(k := None)\<rparr>)))"

section \<open>The event handler\<close>

datatype oom_event =
    OS_CONNECTION_INIT
  | OS_LINK_FLOW oom_flow
  | OS_DELIVERY nat bool bool disposition
  | OS_TRANSPORT_ERROR
  | OS_PROACTOR_INTERRUPT
  | OS_PROACTOR_INACTIVE
  | OS_SIGNAL int
  | OS_OTHER

definition oom_name :: "nat \<Rightarrow> string" where
  "oom_name i = ''OOMSender'' @ show_nat i"

definition oom_connection_init :: "oom_sender \<Rightarrow> oom_sender" where
  "oom_connection_init s =
     emit ([PnConnectionOpen, PnSession, PnSessionOpen]
       @ concat (map (\<lambda>i. [OnLink i (PnSender (oom_name i)), OnLink i (PnSetTarget (target_address s)),
                           OnLink i PnLinkOpen]) [0..<nat (links s)])) s"

text \<open>
  \<open>OS_DELIVERY k is_current updated rs\<close> is an event of a delivery of link \<open>k\<close>, and \<open>is_current\<close> whether it
  is the current one, that of the message in flight: settled, the message ends where it is.
\<close>

definition oom_delivery :: "nat \<Rightarrow> bool \<Rightarrow> bool \<Rightarrow> disposition \<Rightarrow> oom_sender \<Rightarrow> oom_sender" where
  "oom_delivery k is_current updated rs s =
     (if updated \<and> rs \<in> {PN_ACCEPTED, PN_REJECTED, PN_RELEASED, PN_MODIFIED}
      then emit [OnLink k PnSettle] (if is_current then s\<lparr>current := (current s)(k := None)\<rparr> else s)
      else s)"

text \<open>Each of the three signals is handled once and ignored from then on.\<close>

definition oom_signal_handler :: "int \<Rightarrow> oom_sender \<Rightarrow> oom_sender" where
  "oom_signal_handler signum s =
     (if signum \<in> sig_ign s then s
      else emit [PnProactorInterrupt] (s\<lparr>sig_ign := insert signum (sig_ign s), stop := True\<rparr>))"

fun oom_event_handler :: "(u8 list \<Rightarrow> int) \<Rightarrow> oom_sender \<Rightarrow> oom_event \<Rightarrow> halt + bool \<times> oom_sender" where
  "oom_event_handler wr s OS_CONNECTION_INIT = Inr (False, oom_connection_init s)"
| "oom_event_handler wr s (OS_LINK_FLOW e) = bnd (oom_link_flow wr e s) (\<lambda>s. Inr (False, s))"
| "oom_event_handler wr s (OS_DELIVERY k is_current updated rs) = Inr (False, oom_delivery k is_current updated rs s)"
| "oom_event_handler wr s OS_TRANSPORT_ERROR = Inr (False, s)"
| "oom_event_handler wr s OS_PROACTOR_INTERRUPT = (if stop s then Inr (True, s) else Inl Abort)"
| "oom_event_handler wr s OS_PROACTOR_INACTIVE = Inr (True, s)"
| "oom_event_handler wr s (OS_SIGNAL signum) = Inr (False, oom_signal_handler signum s)"
| "oom_event_handler wr s OS_OTHER = Inr (False, s)"

section \<open>\<open>main\<close>\<close>

definition oom_option :: "opt \<Rightarrow> oom_sender \<Rightarrow> halt + oom_sender" where
  "oom_option p s =
     (case p of (c, optarg) \<Rightarrow>
      if c = CHR ''h'' then usage
      else if c = CHR ''a'' then Inr (s\<lparr>host_address := optarg\<rparr>)
      else if c = CHR ''l'' then
        (case scan_int optarg of None \<Rightarrow> usage | Some n \<Rightarrow> Inr (s\<lparr>links := n\<rparr>))
      else if c = CHR ''i'' then Inr (s\<lparr>container_name := optarg\<rparr>)
      else if c = CHR ''t'' then Inr (s\<lparr>target_address := optarg\<rparr>)
      else if c = CHR ''D'' then Inr s
      else if c = CHR ''v'' then Inr s
      else usage)"

definition oom_host_port :: "oom_sender \<Rightarrow> string \<times> string" where
  "oom_host_port s =
     (let host = host_address s;
          host = (if has_prefix ''amqp://'' host then drop 7 host else host)
      in trim_port split_last host)"

definition oom_main :: "(u8 list \<Rightarrow> int) \<Rightarrow> opt list \<Rightarrow> oom_event list list \<Rightarrow> halt + bool \<times> oom_sender" where
  "oom_main wr opts ess =
     bnd (parse_opts oom_option opts oom_globals) (\<lambda>s.
     proactor_loop (oom_event_handler wr) id (emit (connect_calls (container_name s) (oom_host_port s)) s) ess)"

section \<open>The bytes of a link\<close>

lemma length_body_batch [simp]: "length body_batch = 1001"
  by (simp add: body_batch_def bytes_of_def length_concat sum_list_replicate)

text \<open>
  Every message a link was advanced after is the header and \<open>2 ^ 32 - 1\<close> bytes of body, the one in flight
  the header and the body bytes counted; deliveries are ended one by one, advanced or settled.
\<close>

definition MESSAGE :: nat where "MESSAGE = 16 + (2 ^ 32 - 1)"

definition oom_link_ok :: "u64 option \<Rightarrow> pn_call list \<Rightarrow> bool" where
  "oom_link_ok cur cs \<longleftrightarrow>
     (\<forall>m \<in> set (finished [] cs). length m = MESSAGE \<and> take 16 m = oom_msg_header)
     \<and> length (in_progress [] cs) \<le> MESSAGE
     \<and> deliveries cs \<le> advances cs + settles cs + (case cur of None \<Rightarrow> 0 | Some n \<Rightarrow> 1)
     \<and> (case cur of None \<Rightarrow> True | Some n \<Rightarrow> n \<le> UINT32_MAX
          \<and> length (in_progress [] cs) = 16 + unat n \<and> take 16 (in_progress [] cs) = oom_msg_header)"

definition oom_inv :: "oom_sender \<Rightarrow> bool" where
  "oom_inv s \<longleftrightarrow> (\<forall>k. oom_link_ok (current s k) (link_calls k (out s)))"

lemma oom_inv_step:
  assumes "oom_inv s" and "out s' = out s @ map (OnLink k) cs" and "current s' = (current s)(k := cur)"
    and "oom_link_ok cur (link_calls k (out s) @ cs)"
  shows "oom_inv s'"
  using assms by (auto simp: oom_inv_def)

lemma oom_link_ok_silent: "oom_link_ok cur cs \<Longrightarrow> list_all silent ds \<Longrightarrow> oom_link_ok cur (cs @ ds)"
  using silent_calls [of ds] by (auto simp: oom_link_ok_def in_progress_silent split: option.splits)

lemma oom_inv_quiet:
  assumes "oom_inv s" and "out s' = out s @ cs" and "current s' = current s"
    and "\<And>k. list_all silent (link_calls k cs)"
  shows "oom_inv s'"
  using assms oom_link_ok_silent by (auto simp: oom_inv_def)

text \<open>The documented behaviour of \<open>pn_link_send()\<close> on a sender: it takes all it is given.\<close>

definition writes_all :: "(u8 list \<Rightarrow> int) \<Rightarrow> bool" where
  "writes_all wr \<longleftrightarrow> (\<forall>bs. wr bs = int (length bs))"

lemma oom_start_inv:
  assumes "oom_inv s" and "writes_all wr"
  shows "oom_inv (oom_start wr e s)"
proof (cases "current s (flow_link e) = None \<and> 0 < flow_credit e")
  case False
  then show ?thesis using assms by (auto simp: oom_start_def Let_def)
next
  case True
  let ?k = "flow_link e"
  have k: "oom_link_ok None (link_calls ?k (out s))"
    using assms(1) True by (auto simp: oom_inv_def dest: spec [of _ ?k])
  have w: "take (nat (wr oom_msg_header)) oom_msg_header = oom_msg_header"
    using assms(2) by (simp add: writes_all_def)
  show ?thesis
  proof (rule oom_inv_step [OF assms(1), where k = ?k])
    show "out (oom_start wr e s) = out s @ map (OnLink ?k) [PnDelivery (tag s + 1), PnLinkSend oom_msg_header]"
      using True by (simp add: oom_start_def Let_def w)
    show "current (oom_start wr e s) = (current s)(?k := Some 0)"
      using True by (simp add: oom_start_def Let_def)
    show "oom_link_ok (Some 0) (link_calls ?k (out s) @ [PnDelivery (tag s + 1), PnLinkSend oom_msg_header])"
      using k by (simp add: oom_link_ok_def oom_msg_header_def MESSAGE_def)
  qed
qed

text \<open>What a grant does, told apart by what is left of the message and of the window.\<close>

lemma oom_link_flow_Inr:
  assumes "oom_link_flow wr e s = Inr s'"
  obtains (full) n where "current (oom_start wr e s) (flow_link e) = Some n" and "win_capacity e \<le> outgoing e"
      and "s' = oom_start wr e s"
  | (complete) n where "current (oom_start wr e s) (flow_link e) = Some n" and "UINT32_MAX - n = 0"
      and "out s' = out (oom_start wr e s) @ map (OnLink (flow_link e)) [PnLinkAdvance]"
      and "current s' = (current (oom_start wr e s))(flow_link e := None)"
  | (batch) n m where "current (oom_start wr e s) (flow_link e) = Some n"
      and "m \<le> UINT32_MAX - n" and "m \<le> 1001" and "m \<le> win_capacity e - outgoing e"
      and "outgoing e < win_capacity e"
      and "out s' = out (oom_start wr e s) @ map (OnLink (flow_link e)) [PnLinkSend (take (unat m) body_batch)]"
      and "current s' = (current (oom_start wr e s))(flow_link e := Some (n + m))"
proof -
  define t where "t = oom_start wr e s"
  obtain n where n: "current t (flow_link e) = Some n"
    using assms by (auto simp: oom_link_flow_def Let_def t_def split: option.splits)
  define l where "l = min 1001 (UINT32_MAX - n)"
  have r: "(if 0 < l then
            if outgoing e < win_capacity e then
              let to_send = min l (win_capacity e - outgoing e);
                  bs = take (unat to_send) body_batch;
                  rc = wr bs;
                  s = emit [OnLink (flow_link e) (PnLinkSend (take (nat rc) bs))] t
              in if rc \<noteq> int (unat to_send) then Inl (Exit 1)
                 else Inr (s\<lparr>total_bytes := total_bytes s + to_send,
                             current := (current s)(flow_link e := Some (n + to_send))\<rparr>)
            else Inr t
          else Inr (emit [OnLink (flow_link e) PnLinkAdvance] (t\<lparr>current := (current t)(flow_link e := None)\<rparr>))) = Inr s'"
    using assms n unfolding oom_link_flow_def t_def [symmetric] Let_def l_def
    by (simp only: option.case length_body_batch of_nat_numeral)
  show ?thesis
  proof (cases "0 < l")
    case False
    then have "l = 0" by (simp add: word_gt_0)
    then have "UINT32_MAX - n = 0" by (simp add: l_def min_def split: if_splits)
    moreover have "s' = emit [OnLink (flow_link e) PnLinkAdvance] (t\<lparr>current := (current t)(flow_link e := None)\<rparr>)"
      using r False by simp
    ultimately show ?thesis using complete [of n] n unfolding t_def by simp
  next
    case True
    show ?thesis
    proof (cases "outgoing e < win_capacity e")
      case False
      then show ?thesis using full [of n] n r True unfolding t_def by simp
    next
      case w: True
      define m where "m = min l (win_capacity e - outgoing e)"
      have "m \<le> UINT32_MAX - n" "m \<le> 1001" "m \<le> win_capacity e - outgoing e"
        by (simp_all add: m_def l_def min_le_iff_disj)
      moreover have c: "wr (take (unat m) body_batch) = int (unat m)"
        and s': "s' = emit [OnLink (flow_link e) (PnLinkSend (take (nat (wr (take (unat m) body_batch))) (take (unat m) body_batch)))] t
             \<lparr>total_bytes := total_bytes t + m, current := (current t)(flow_link e := Some (n + m))\<rparr>"
        using r True w by (auto simp: Let_def m_def [symmetric] split: if_splits)
      ultimately show ?thesis using batch [of n m] n w unfolding t_def by simp
    qed
  qed
qed

lemma oom_link_flow_inv:
  assumes "oom_link_flow wr e s = Inr s'" and "oom_inv s" and "writes_all wr"
  shows "oom_inv s'"
proof -
  let ?t = "oom_start wr e s" and ?k = "flow_link e"
  have t: "oom_inv ?t" by (rule oom_start_inv [OF assms(2,3)])
  then have ok: "oom_link_ok (current ?t ?k) (link_calls ?k (out ?t))" by (simp add: oom_inv_def)
  from assms(1) show ?thesis
  proof (cases rule: oom_link_flow_Inr)
    case (full n)
    then show ?thesis using t by simp
  next
    case (complete n)
    then have "unat n = 2 ^ 32 - 1" by (simp add: UINT32_MAX_def)
    then have "oom_link_ok None (link_calls ?k (out ?t) @ [PnLinkAdvance])"
      using ok complete(1) by (simp add: oom_link_ok_def MESSAGE_def)
    then show ?thesis using oom_inv_step [OF t] complete by blast
  next
    case (batch n m)
    have n: "n \<le> UINT32_MAX" using ok batch(1) by (simp add: oom_link_ok_def)
    have u: "unat (UINT32_MAX - n) = unat UINT32_MAX - unat n" using n by (simp add: unat_sub)
    have mx: "unat UINT32_MAX = 4294967295" by (simp add: UINT32_MAX_def)
    have m: "unat m \<le> unat UINT32_MAX - unat n" "unat m \<le> 1001" "unat n \<le> unat UINT32_MAX"
      using batch(2,3) n u by (simp_all add: word_le_nat_alt)
    then have a: "unat (n + m) = unat n + unat m" using mx by (simp add: unat_word_ariths)
    then have "n + m \<le> UINT32_MAX" using m by (simp add: word_le_nat_alt)
    moreover have "length (take (unat m) body_batch) = unat m" using m(2) by simp
    moreover have "unat n + unat m \<le> 2 ^ 32 - 1" using m mx by simp
    ultimately have "oom_link_ok (Some (n + m)) (link_calls ?k (out ?t) @ [PnLinkSend (take (unat m) body_batch)])"
      using ok batch(1) a by (simp add: oom_link_ok_def MESSAGE_def)
    then show ?thesis using oom_inv_step [OF t] batch by blast
  qed
qed

lemma oom_opening_quiet:
  "list_all silent (link_calls k cs)"
  if "cs = [PnConnectionOpen, PnSession, PnSessionOpen] @ concat (map (\<lambda>i. [OnLink i (PnSender (f i)), OnLink i (PnSetTarget a), OnLink i PnLinkOpen]) is)"
  unfolding that by (induction "is") (simp_all add: silent_def)

lemma oom_handler_inv:
  assumes "oom_inv s" and "oom_event_handler wr s e = Inr (d, s')" and "writes_all wr"
  shows "oom_inv s'"
proof (cases e)
  case OS_CONNECTION_INIT
  then have "s' = oom_connection_init s" using assms(2) by simp
  then show ?thesis
    by (intro oom_inv_quiet [OF assms(1) _ _ oom_opening_quiet [OF refl]]) (simp_all add: oom_connection_init_def)
next
  case (OS_LINK_FLOW f)
  then show ?thesis using assms oom_link_flow_inv by (auto simp: bnd_eq_Inr)
next
  case (OS_DELIVERY k c u rs)
  then have s': "s' = oom_delivery k c u rs s" using assms(2) by simp
  show ?thesis
  proof (cases "u \<and> rs \<in> {PN_ACCEPTED, PN_REJECTED, PN_RELEASED, PN_MODIFIED}")
    case True
    have l: "oom_link_ok (current s k) (link_calls k (out s))" using assms(1) by (simp add: oom_inv_def)
    show ?thesis
    proof (rule oom_inv_step [OF assms(1), where k = k and cs = "[PnSettle]"])
      show "out s' = out s @ map (OnLink k) [PnSettle]"
        unfolding s' oom_delivery_def if_P [OF True] by (cases c) simp_all
      show "current s' = (current s)(k := if c then None else current s k)"
        unfolding s' oom_delivery_def if_P [OF True] by (cases c) simp_all
      show "oom_link_ok (if c then None else current s k) (link_calls k (out s) @ [PnSettle])"
        using l by (auto simp: oom_link_ok_def split: option.splits)
    qed
  qed (use s' assms(1) in \<open>simp only: oom_delivery_def if_False\<close>)
next
  case (OS_SIGNAL n)
  then have s': "s' = oom_signal_handler n s" using assms(2) by simp
  show ?thesis
  proof (cases "n \<in> sig_ign s")
    case False
    then show ?thesis using s'
      by (intro oom_inv_quiet [OF assms(1), of _ "[PnProactorInterrupt]"]) (simp_all add: oom_signal_handler_def)
  qed (use s' assms(1) in \<open>simp add: oom_signal_handler_def\<close>)
qed (use assms in \<open>auto split: if_splits\<close>)

interpretation oom: proactor_client "oom_event_handler wr" id "\<lambda>s. writes_all wr \<longrightarrow> oom_inv s" for wr
  by unfold_locales (auto intro: oom_handler_inv)

section \<open>Properties\<close>


lemma writes_all_length: "writes_all (\<lambda>bs. int (length bs))"
  by (simp add: writes_all_def)

abbreviation oom_sample_flow :: oom_event where
  "oom_sample_flow \<equiv> OS_LINK_FLOW \<lparr>flow_link = 0, flow_credit = 1, max_frame = 512, window = 4, outgoing = 48\<rparr>"


text \<open>C28: a grant writes body bytes only within the remote's session window: no more than the window
  less what is buffered, and none at all when the window is full.\<close>

theorem oom_respects_session_window:
  assumes "oom_link_flow wr e s = Inr s'"
  shows "length (sent_bytes (link_calls (flow_link e) (out s')))
      \<le> length (sent_bytes (link_calls (flow_link e) (out (oom_start wr e s))))
          + (unat (win_capacity e) - unat (outgoing e))"
  using assms
proof (cases rule: oom_link_flow_Inr)
  case (batch n m)
  have "unat (win_capacity e - outgoing e) = unat (win_capacity e) - unat (outgoing e)"
    using batch(5) by (simp add: unat_sub)
  then have "unat m \<le> unat (win_capacity e) - unat (outgoing e)" using batch(4) by (simp add: word_le_nat_alt)
  then show ?thesis using batch(6) by simp
qed simp_all

theorem oom_respects_session_window_witness:
  "\<exists>s'. oom_link_flow (\<lambda>bs. int (length bs)) \<lparr>flow_link = 0, flow_credit = 1, max_frame = 512, window = 1, outgoing = 500\<rparr>
       (oom_globals\<lparr>current := (\<lambda>k. Some 0)\<rparr>) = Inr s' \<and> length (sent_bytes (link_calls 0 (out s'))) \<le> 12"
proof -
  let ?e = "\<lparr>flow_link = 0, flow_credit = 1, max_frame = 512, window = 1, outgoing = 500\<rparr>"
  let ?s = "oom_globals\<lparr>current := (\<lambda>k. Some 0)\<rparr>"
  have st: "oom_start (\<lambda>bs. int (length bs)) ?e ?s = ?s" by (simp add: oom_start_def Let_def)
  have "\<exists>s'. oom_link_flow (\<lambda>bs. int (length bs)) ?e ?s = Inr s'"
    unfolding oom_link_flow_def Let_def st by (simp add: win_capacity_def UINT32_MAX_def)
  then obtain s' where s': "oom_link_flow (\<lambda>bs. int (length bs)) ?e ?s = Inr s'" by blast
  from oom_respects_session_window [OF s'] s' show ?thesis
    unfolding st by (auto simp: win_capacity_def oom_globals_def)
qed

text \<open>A flow event for a link with neither credit nor a message in flight, which the peer may send
  at any time, makes the handler read the context of a null delivery.\<close>

theorem oom_idle_flow_reads_null_delivery:
  assumes "current s (flow_link e) = None" and "flow_credit e \<le> 0"
  shows "oom_event_handler wr s (OS_LINK_FLOW e) = Inl Abort"
  using assms by (simp add: oom_link_flow_def oom_start_def)

theorem oom_idle_flow_reads_null_delivery_witness:
  "oom_event_handler (\<lambda>bs. int (length bs)) oom_globals
     (OS_LINK_FLOW \<lparr>flow_link = 0, flow_credit = 0, max_frame = 512, window = 4, outgoing = 0\<rparr>) = Inl Abort"
  by (rule oom_idle_flow_reads_null_delivery) (simp_all add: oom_globals_def)

end
