(* ===== verification/OomReceiver.thy ===== *)
theory OomReceiver
  imports Proactor
begin

text \<open>
  \<open>skupper-router/oomster/oom-receiver.c\<close>: opens a number of receiving links, grants each a
  window of credit and then consumes nothing, so that the router has to hold what it is sent.
  \<open>new_proton\<close> is the compile-time condition that Proton is newer than 0.39.
\<close>

section \<open>State\<close>

record oom_receiver = world +
  stop :: bool
  links :: u32
  credit_window :: int
  in_max_frame :: u32
  per_link_session_frames :: u32
  source_address :: string
  host_address :: string
  container_name :: string
  sig_ign :: "int set"

definition oor_globals :: oom_receiver where
  "oor_globals = \<lparr>clk = 0, out = [], stop = False, links = 1, credit_window = 1000, in_max_frame = 512,
     per_link_session_frames = 10, source_address = ''oom-address'', host_address = ''127.0.0.1:5672'',
     container_name = ''OOMReceiver'', sig_ign = {}\<rparr>"

lemma emit_oom_receiver [simp]:
  "stop (emit cs s) = stop s" "links (emit cs s) = links s" "credit_window (emit cs s) = credit_window s"
  "in_max_frame (emit cs s) = in_max_frame s" "per_link_session_frames (emit cs s) = per_link_session_frames s"
  "source_address (emit cs s) = source_address s" "host_address (emit cs s) = host_address s"
  "container_name (emit cs s) = container_name s" "sig_ign (emit cs s) = sig_ign s"
  by (simp_all add: emit_def)

section \<open>The event handler\<close>

text \<open>\<open>OR_CONNECTION_BOUND rc\<close>: what \<open>pn_session_set_incoming_window_and_lwm()\<close> returns is \<open>rc\<close>.\<close>

datatype oor_event =
    OR_CONNECTION_BOUND int
  | OR_DELIVERY
  | OR_TRANSPORT_ERROR
  | OR_PROACTOR_INTERRUPT
  | OR_PROACTOR_INACTIVE
  | OR_SIGNAL int
  | OR_OTHER

definition oor_name :: "nat \<Rightarrow> string" where
  "oor_name i = ''OOMReceiver'' @ show_nat i"

definition oor_set_window :: "bool \<Rightarrow> int \<Rightarrow> oom_receiver \<Rightarrow> halt + oom_receiver" where
  "oor_set_window new_proton rc s =
     (if new_proton \<and> per_link_session_frames s \<noteq> 0 then
        let w = per_link_session_frames s * links s in
        if w < 2 then Inl Abort
        else let s = emit [PnSetIncomingWindow w (w div 2)] s
             in if rc \<noteq> 0 then Inl Abort else Inr s
      else Inr s)"

definition oor_open_links :: "oom_receiver \<Rightarrow> oom_receiver" where
  "oor_open_links s =
     emit (concat (map (\<lambda>i. [OnLink i (PnReceiver (oor_name i)), OnLink i (PnSetSource (source_address s)),
                             OnLink i PnLinkOpen, OnLink i (PnLinkFlow (credit_window s))]) [0..<unat (links s)])) s"

definition oor_connection_bound :: "bool \<Rightarrow> int \<Rightarrow> oom_receiver \<Rightarrow> halt + oom_receiver" where
  "oor_connection_bound new_proton rc s =
     (let s = (if in_max_frame s \<noteq> 0 then emit [PnSetMaxFrame (in_max_frame s)] s else s);
          s = emit [PnConnectionOpen, PnSession] s
      in bnd (oor_set_window new_proton rc s) (\<lambda>s. Inr (oor_open_links (emit [PnSessionOpen] s))))"

definition oor_signal_handler :: "int \<Rightarrow> oom_receiver \<Rightarrow> oom_receiver" where
  "oor_signal_handler signum s =
     (if signum \<in> sig_ign s then s
      else emit [PnProactorInterrupt] (s\<lparr>sig_ign := insert signum (sig_ign s), stop := True\<rparr>))"

fun oor_event_handler :: "bool \<Rightarrow> oom_receiver \<Rightarrow> oor_event \<Rightarrow> halt + bool \<times> oom_receiver" where
  "oor_event_handler np s (OR_CONNECTION_BOUND rc) = bnd (oor_connection_bound np rc s) (\<lambda>s. Inr (False, s))"
| "oor_event_handler np s OR_DELIVERY = Inr (False, s)"
| "oor_event_handler np s OR_TRANSPORT_ERROR = Inr (False, s)"
| "oor_event_handler np s OR_PROACTOR_INTERRUPT = (if stop s then Inr (True, s) else Inl Abort)"
| "oor_event_handler np s OR_PROACTOR_INACTIVE = Inr (True, s)"
| "oor_event_handler np s (OR_SIGNAL signum) = Inr (False, oor_signal_handler signum s)"
| "oor_event_handler np s OR_OTHER = Inr (False, s)"

section \<open>\<open>main\<close>\<close>

definition oor_option :: "opt \<Rightarrow> oom_receiver \<Rightarrow> halt + oom_receiver" where
  "oor_option p s =
     (case p of (c, optarg) \<Rightarrow>
      if c = CHR ''h'' then usage
      else if c = CHR ''a'' then Inr (s\<lparr>host_address := optarg\<rparr>)
      else if c = CHR ''l'' then
        (case scan_u32 optarg of None \<Rightarrow> usage | Some n \<Rightarrow> if n = 0 then usage else Inr (s\<lparr>links := n\<rparr>))
      else if c = CHR ''i'' then Inr (s\<lparr>container_name := optarg\<rparr>)
      else if c = CHR ''s'' then Inr (s\<lparr>source_address := optarg\<rparr>)
      else if c = CHR ''w'' then
        (case scan_int optarg of None \<Rightarrow> usage | Some n \<Rightarrow> if n \<le> 0 then usage else Inr (s\<lparr>credit_window := n\<rparr>))
      else if c = CHR ''D'' then Inr s
      else if c = CHR ''F'' then
        (case scan_u32 optarg of None \<Rightarrow> usage | Some n \<Rightarrow> if n < 512 then usage else Inr (s\<lparr>in_max_frame := n\<rparr>))
      else if c = CHR ''W'' then
        (case scan_u32 optarg of None \<Rightarrow> usage
         | Some n \<Rightarrow> if n < 2 then usage else Inr (s\<lparr>per_link_session_frames := n\<rparr>))
      else usage)"

definition oor_host_port :: "oom_receiver \<Rightarrow> string \<times> string" where
  "oor_host_port s =
     (let host = host_address s;
          host = (if has_prefix ''amqp://'' host then drop 7 host else host)
      in trim_port split_last host)"

definition oor_main :: "bool \<Rightarrow> opt list \<Rightarrow> oor_event list list \<Rightarrow> halt + bool \<times> oom_receiver" where
  "oor_main np opts ess =
     bnd (parse_opts oor_option opts oor_globals) (\<lambda>s.
     proactor_loop (oor_event_handler np) id (emit (connect_calls (container_name s) (oor_host_port s)) s) ess)"

section \<open>The credit of a link\<close>

lemma oor_opening:
  "distinct is \<Longrightarrow> link_calls k (concat (map (\<lambda>i. [OnLink i (PnReceiver (f i)), OnLink i (PnSetSource a),
       OnLink i PnLinkOpen, OnLink i (PnLinkFlow w)]) is))
     = (if k \<in> set is then [PnReceiver (f k), PnSetSource a, PnLinkOpen, PnLinkFlow w] else [])"
  by (induction "is") auto

definition oor_fresh :: "oom_receiver \<Rightarrow> bool" where
  "oor_fresh s \<longleftrightarrow> out s = [] \<and> links s \<noteq> 0 \<and> 0 < credit_window s \<and> 512 \<le> in_max_frame s
     \<and> 2 \<le> per_link_session_frames s \<and> \<not> stop s"

lemma oor_parse_fresh:
  assumes "parse_opts oor_option opts oor_globals = Inr g"
  shows "oor_fresh g"
  by (rule parse_opts_preserves [where P = oor_fresh, OF _ _ assms])
    (auto simp: oor_option_def usage_def oor_fresh_def oor_globals_def not_less split: prod.splits if_splits option.splits)

text \<open>The frames of all links together, where their number is that of a \<open>uint32_t\<close>.\<close>

lemma oor_window_fits:
  assumes "2 \<le> per_link_session_frames s" and "links s \<noteq> 0"
    and "unat (per_link_session_frames s) * unat (links s) < 2 ^ 32"
  shows "unat (per_link_session_frames s * links s) = unat (per_link_session_frames s) * unat (links s)"
    and "\<not> per_link_session_frames s * links s < 2"
proof -
  show u: "unat (per_link_session_frames s * links s) = unat (per_link_session_frames s) * unat (links s)"
    using assms(3) by (simp add: unat_word_ariths)
  have "2 \<le> unat (per_link_session_frames s)" "1 \<le> unat (links s)"
    using assms(1,2) by (simp_all add: word_le_nat_alt Suc_le_eq unat_gt_0)
  then have "2 * 1 \<le> unat (per_link_session_frames s) * unat (links s)" by (rule mult_le_mono)
  then show "\<not> per_link_session_frames s * links s < 2" by (simp add: word_less_nat_alt u)
qed

definition oor_stalled :: "oom_receiver \<Rightarrow> oom_receiver \<Rightarrow> bool" where
  "oor_stalled g s \<longleftrightarrow> (\<forall>k. link_calls k (out s) = (if k < unat (links g)
      then [PnReceiver (oor_name k), PnSetSource (source_address g), PnLinkOpen, PnLinkFlow (credit_window g)] else []))"

lemma oor_event_stalled:
  assumes "oor_stalled g s" and "oor_event_handler np s e = Inr (d, s')" and "\<forall>rc. e \<noteq> OR_CONNECTION_BOUND rc"
  shows "oor_stalled g s'"
  using assms by (cases e) (auto simp: oor_stalled_def oor_signal_handler_def split: if_splits)

lemma oor_bound_calls:
  assumes "oor_connection_bound np rc s = Inr s'" and "\<And>k. link_calls k (out s) = []"
  shows "oor_stalled s s'"
proof -
  obtain cs where cs: "s' = oor_open_links (emit cs s)" "\<And>k. link_calls k cs = []"
  proof -
    define t where "t = emit [PnConnectionOpen, PnSession] (if in_max_frame s \<noteq> 0 then emit [PnSetMaxFrame (in_max_frame s)] s else s)"
    obtain u where u: "oor_set_window np rc t = Inr u" "s' = oor_open_links (emit [PnSessionOpen] u)"
      using assms(1) by (auto simp: oor_connection_bound_def t_def Let_def bnd_eq_Inr)
    obtain as where as: "t = emit as s" "\<And>k. link_calls k as = []"
      by (cases "in_max_frame s = 0") (auto simp: t_def intro: that)
    obtain bs where bs: "u = emit bs t" "\<And>k. link_calls k bs = []"
    proof (cases "np \<and> per_link_session_frames t \<noteq> 0")
      case False
      then show ?thesis using that [of "[]"] u(1) by (simp add: oor_set_window_def emit_def split: if_splits)
    next
      case True
      then show ?thesis using u(1)
        by (intro that [of "[PnSetIncomingWindow (per_link_session_frames t * links t) (per_link_session_frames t * links t div 2)]"])
          (auto simp: oor_set_window_def Let_def split: if_splits)
    qed
    show ?thesis by (rule that [of "as @ bs @ [PnSessionOpen]"]) (simp_all add: u as bs)
  qed
  then show ?thesis using assms(2)
    by (simp add: oor_stalled_def oor_open_links_def oor_opening)
qed

section \<open>Properties\<close>

text \<open>C29: once the connection is bound, each link has been given its window of credit and nothing
  else: whatever is delivered, no message is read, accepted or settled and no credit is added, so
  every link stalls.\<close>

theorem oor_never_replenishes:
  assumes "oor_main np opts ((OR_CONNECTION_BOUND rc # es) # ess) = Inr (d, s)"
    and "parse_opts oor_option opts oor_globals = Inr g"
    and "\<forall>rc. OR_CONNECTION_BOUND rc \<notin> set (concat (es # ess))"
  shows "link_calls k (out s) = (if k < unat (links g)
      then [PnReceiver (oor_name k), PnSetSource (source_address g), PnLinkOpen, PnLinkFlow (credit_window g)] else [])"
proof -
  have f: "out g = []" using oor_parse_fresh [OF assms(2)] by (simp add: oor_fresh_def)
  have m: "proactor_loop (oor_event_handler np) id (emit (connect_calls (container_name g) (oor_host_port g)) g)
      ((OR_CONNECTION_BOUND rc # es) # ess) = Inr (d, s)"
    using assms(1,2) by (simp add: oor_main_def)
  then obtain t where t: "oor_connection_bound np rc (emit (connect_calls (container_name g) (oor_host_port g)) g) = Inr t"
    by (auto simp: bnd_eq_Inr)
  have r: "proactor_loop (oor_event_handler np) id t (es # ess) = Inr (d, s)" using m t by simp
  have "oor_stalled (emit (connect_calls (container_name g) (oor_host_port g)) g) t"
    by (rule oor_bound_calls [OF t]) (simp add: f)
  then have i: "oor_stalled g t" by (simp add: oor_stalled_def)
  have "oor_stalled g s"
  proof (rule loop_preserves [where P = "oor_stalled g", OF _ _ i r])
    fix u e b u'
    assume "oor_stalled g u" "e \<in> set (concat (es # ess))" "oor_event_handler np u e = Inr (b, u')"
    moreover from this have "\<forall>rc. e \<noteq> OR_CONNECTION_BOUND rc" using assms(3) by metis
    ultimately show "oor_stalled g u'" using oor_event_stalled by metis
  qed simp
  then show ?thesis by (simp add: oor_stalled_def)
qed

lemma oor_sample_parse: "parse_opts oor_option [(CHR ''l'', ''3'')] oor_globals = Inr (oor_globals\<lparr>links := 3\<rparr>)"
  by (simp add: oor_option_def scan_u32_def scan_number_def read_sign_def is_space_def is_digit_def strtoul_def oor_globals_def)

theorem oor_never_replenishes_witness:
  "\<exists>s. oor_main True [(CHR ''l'', ''3'')] [[OR_CONNECTION_BOUND 0], [OR_DELIVERY, OR_DELIVERY]] = Inr (False, s)
     \<and> flows (link_calls 2 (out s)) = 1000"
proof -
  have "\<exists>s. oor_main True [(CHR ''l'', ''3'')] ((OR_CONNECTION_BOUND 0 # []) # [[OR_DELIVERY, OR_DELIVERY]]) = Inr (False, s)"
    unfolding oor_main_def oor_sample_parse bnd_Inr
    by (simp add: oor_connection_bound_def oor_set_window_def Let_def oor_globals_def)
  then obtain s where s: "oor_main True [(CHR ''l'', ''3'')] ((OR_CONNECTION_BOUND 0 # []) # [[OR_DELIVERY, OR_DELIVERY]])
      = Inr (False, s)" by blast
  have "link_calls 2 (out s) = (if 2 < unat (links (oor_globals\<lparr>links := 3\<rparr>)) then [PnReceiver (oor_name 2),
      PnSetSource (source_address (oor_globals\<lparr>links := 3\<rparr>)), PnLinkOpen, PnLinkFlow (credit_window (oor_globals\<lparr>links := 3\<rparr>))] else [])"
    by (rule oor_never_replenishes [OF s oor_sample_parse]) simp
  then show ?thesis using s by (simp add: oor_globals_def)
qed

text \<open>Binding the connection succeeds when the frames of all links together fit a 32 bit number,
  and the session window is set to them with half as the low watermark.\<close>

theorem oor_window_is_frames_times_links:
  assumes "parse_opts oor_option opts oor_globals = Inr g"
    and "unat (per_link_session_frames g) * unat (links g) < 2 ^ 32"
  shows "\<exists>s w. oor_connection_bound True 0 g = Inr s \<and> unat w = unat (per_link_session_frames g) * unat (links g)
      \<and> PnSetIncomingWindow w (w div 2) \<in> set (out s)"
proof -
  have f: "2 \<le> per_link_session_frames g" "links g \<noteq> 0"
    using oor_parse_fresh [OF assms(1)] by (simp_all add: oor_fresh_def)
  then have "per_link_session_frames g \<noteq> 0" by auto
  let ?w = "per_link_session_frames g * links g"
  have "\<exists>s. oor_connection_bound True 0 g = Inr s \<and> PnSetIncomingWindow ?w (?w div 2) \<in> set (out s)"
    using oor_window_fits(2) [OF f assms(2)] \<open>per_link_session_frames g \<noteq> 0\<close>
    by (cases "in_max_frame g = 0") (simp_all add: oor_connection_bound_def oor_set_window_def Let_def oor_open_links_def)
  then show ?thesis using oor_window_fits(1) [OF f assms(2)] by blast
qed

theorem oor_window_is_frames_times_links_witness:
  "\<exists>s w. oor_connection_bound True 0 (oor_globals\<lparr>links := 3\<rparr>) = Inr s \<and> unat w = 30
      \<and> PnSetIncomingWindow w (w div 2) \<in> set (out s)"
  using oor_window_is_frames_times_links [OF oor_sample_parse] by (simp add: oor_globals_def)

text \<open>Where the product wraps to 0 or 1 the client aborts, although the options are accepted.\<close>

lemma oor_window_wraps:
  "oor_connection_bound True 0 (oor_globals\<lparr>links := 2 ^ 31, per_link_session_frames := 2\<rparr>) = Inl Abort"
  by (simp add: oor_connection_bound_def oor_set_window_def oor_globals_def Let_def)

end
