(* ===== verification/LinkLoader.thy ===== *)
theory LinkLoader
  imports Proactor
begin

text \<open>
  \<open>skupper-router/clients/link-loader.c\<close>: opens a number of links, starts a message on each,
  closes them all with the messages incomplete, and does so again for a number of cycles.
  \<open>link_count\<close> counts the links with a message started and not yet freed; \<open>repeat_count\<close> counts
  the cycles down. Calls on a link the environment numbers \<open>k\<close> are logged with \<open>OnLink k\<close>.
\<close>

section \<open>State\<close>

record link_loader = world +
  stop :: bool
  link_limit :: u32
  repeat_count :: u32
  link_count :: u32
  target_address :: string
  host_address :: string
  container_name :: string
  tag :: u64
  sig_ign :: "int set"

definition ldr_globals :: link_loader where
  "ldr_globals = \<lparr>clk = 0, out = [], stop = False, link_limit = 1000, repeat_count = 1000, link_count = 0,
     target_address = ''test-address'', host_address = ''127.0.0.1:5672'', container_name = ''LinkLoader'',
     tag = 0, sig_ign = {}\<rparr>"

definition ldr_msg_fragment :: "u8 list" where
  "ldr_msg_fragment = [0x00, 0x53, 0x70, 0x45, 0x00, 0x53, 0x73, 0x45, 0x00, 0x53, 0x77, 0xb0,
     0x00, 0x01, 0x00, 0x00]"

lemma emit_link_loader [simp]:
  "stop (emit cs s) = stop s" "link_limit (emit cs s) = link_limit s"
  "repeat_count (emit cs s) = repeat_count s" "link_count (emit cs s) = link_count s"
  "target_address (emit cs s) = target_address s" "host_address (emit cs s) = host_address s"
  "container_name (emit cs s) = container_name s" "tag (emit cs s) = tag s" "sig_ign (emit cs s) = sig_ign s"
  by (simp_all add: emit_def)

section \<open>The events\<close>

text \<open>
  What the handler of \<open>PN_LINK_FLOW\<close> asks: the link, whether it has a current delivery, its
  credit, whether \<open>pn_delivery()\<close> makes a delivery, and the links \<open>pn_link_head()\<close> and
  \<open>pn_link_next()\<close> find locally active.
\<close>

record ldr_flow =
  flow_link :: nat
  has_current :: bool
  flow_credit :: int
  dlv_made :: bool
  active_links :: "nat list"

datatype ldr_event =
    LL_CONNECTION_INIT
  | LL_LINK_FLOW ldr_flow
  | LL_LINK_REMOTE_CLOSE nat bool
  | LL_PROACTOR_INACTIVE
  | LL_PROACTOR_INTERRUPT
  | LL_SIGNAL int
  | LL_OTHER

definition ldr_name :: "u32 \<Rightarrow> nat \<Rightarrow> string" where
  "ldr_name r i = ''Link-'' @ show_nat (unat r) @ CHR '':'' # show_nat i"

definition ldr_open_links :: "link_loader \<Rightarrow> link_loader" where
  "ldr_open_links s =
     emit (concat (map (\<lambda>i. [PnSender (ldr_name (repeat_count s) i), PnSetTarget (target_address s), PnLinkOpen])
             [0..<unat (link_limit s)])) s"

definition ldr_connection_init :: "link_loader \<Rightarrow> link_loader" where
  "ldr_connection_init s = ldr_open_links (emit [PnConnectionOpen, PnSession, PnSessionOpen] s)"

text \<open>\<open>start_message()\<close>; \<open>wr bs\<close> is what \<open>pn_link_send()\<close> returns for the bytes \<open>bs\<close>.\<close>

definition ldr_start_message :: "(u8 list \<Rightarrow> int) \<Rightarrow> ldr_flow \<Rightarrow> link_loader \<Rightarrow> halt + link_loader" where
  "ldr_start_message wr e s =
     (if has_current e then Inl (Exit 1)
      else if \<not> dlv_made e then Inl (Exit 1)
      else
        let s = emit [OnLink (flow_link e) (PnDelivery (tag s))] s;
            s = s\<lparr>tag := tag s + 1\<rparr>;
            rc = wr ldr_msg_fragment;
            s = emit [OnLink (flow_link e) (PnLinkSend (take (nat rc) ldr_msg_fragment))] s
        in if rc \<noteq> int (length ldr_msg_fragment) then Inl (Exit 1) else Inr s)"

definition ldr_link_flow :: "(u8 list \<Rightarrow> int) \<Rightarrow> ldr_flow \<Rightarrow> link_loader \<Rightarrow> halt + link_loader" where
  "ldr_link_flow wr e s =
     (if link_count s < link_limit s \<and> \<not> has_current e \<and> 0 < flow_credit e then
        bnd (ldr_start_message wr e s) (\<lambda>s.
        let s = s\<lparr>link_count := link_count s + 1\<rparr>
        in Inr (if link_count s = link_limit s
                then emit (map (\<lambda>k. OnLink k PnLinkClose) (active_links e)) s else s))
      else Inr s)"

definition ldr_link_remote_close :: "nat \<Rightarrow> bool \<Rightarrow> link_loader \<Rightarrow> halt + link_loader" where
  "ldr_link_remote_close k both_closed s =
     (if both_closed then
        let s = emit [OnLink k PnLinkFree] s in
        if \<not> 0 < link_count s then Inl Abort
        else
          let s = s\<lparr>link_count := link_count s - 1\<rparr> in
          if link_count s = 0 then
            if \<not> 0 < repeat_count s then Inl Abort
            else
              let s = s\<lparr>repeat_count := repeat_count s - 1\<rparr> in
              if 0 < repeat_count s then Inr (ldr_open_links s)
              else Inr (emit [PnProactorInterrupt] (s\<lparr>stop := True\<rparr>))
          else Inr s
      else Inr s)"

definition ldr_signal_handler :: "int \<Rightarrow> link_loader \<Rightarrow> link_loader" where
  "ldr_signal_handler signum s =
     (if signum \<in> sig_ign s then s
      else emit [PnProactorInterrupt] (s\<lparr>sig_ign := insert signum (sig_ign s), stop := True\<rparr>))"

fun ldr_event_handler :: "(u8 list \<Rightarrow> int) \<Rightarrow> link_loader \<Rightarrow> ldr_event \<Rightarrow> halt + bool \<times> link_loader" where
  "ldr_event_handler wr s LL_CONNECTION_INIT = Inr (False, ldr_connection_init s)"
| "ldr_event_handler wr s (LL_LINK_FLOW e) = bnd (ldr_link_flow wr e s) (\<lambda>s. Inr (False, s))"
| "ldr_event_handler wr s (LL_LINK_REMOTE_CLOSE k b) = bnd (ldr_link_remote_close k b s) (\<lambda>s. Inr (False, s))"
| "ldr_event_handler wr s LL_PROACTOR_INACTIVE = Inr (True, s\<lparr>stop := True\<rparr>)"
| "ldr_event_handler wr s LL_PROACTOR_INTERRUPT = Inr (stop s, s)"
| "ldr_event_handler wr s (LL_SIGNAL signum) = Inr (False, ldr_signal_handler signum s)"
| "ldr_event_handler wr s LL_OTHER = Inr (False, s)"

section \<open>\<open>main\<close>\<close>

definition ldr_option :: "opt \<Rightarrow> link_loader \<Rightarrow> halt + link_loader" where
  "ldr_option p s =
     (case p of (c, optarg) \<Rightarrow>
      if c = CHR ''h'' then usage
      else if c = CHR ''a'' then Inr (s\<lparr>host_address := optarg\<rparr>)
      else if c = CHR ''c'' then
        (case scan_u32 optarg of None \<Rightarrow> usage | Some n \<Rightarrow> if n = 0 then usage else Inr (s\<lparr>repeat_count := n\<rparr>))
      else if c = CHR ''i'' then Inr (s\<lparr>container_name := optarg\<rparr>)
      else if c = CHR ''l'' then
        (case scan_u32 optarg of None \<Rightarrow> usage | Some n \<Rightarrow> if n = 0 then usage else Inr (s\<lparr>link_limit := n\<rparr>))
      else if c = CHR ''t'' then Inr (s\<lparr>target_address := optarg\<rparr>)
      else if c = CHR ''D'' then Inr s
      else usage)"

text \<open>A scheme in front of the address is dropped, then it is cut at the first colon.\<close>

definition strip_scheme :: "string \<Rightarrow> string" where
  "strip_scheme a =
     (if has_prefix ''amqps://'' a then drop (length ''amqps://'') a
      else if has_prefix ''amqp://'' a then drop (length ''amqp://'') a else a)"

definition ldr_host_port :: "link_loader \<Rightarrow> string \<times> string" where
  "ldr_host_port s = trim_port split_first (strip_scheme (host_address s))"

definition ldr_main :: "(u8 list \<Rightarrow> int) \<Rightarrow> opt list \<Rightarrow> ldr_event list list \<Rightarrow> halt + bool \<times> link_loader" where
  "ldr_main wr opts ess =
     bnd (parse_opts ldr_option opts ldr_globals) (\<lambda>s.
     proactor_loop (ldr_event_handler wr) id (emit (connect_calls (container_name s) (ldr_host_port s)) s) ess)"

section \<open>The cycles\<close>

text \<open>The names used in cycles \<open>R\<close> down to \<open>r\<close> with \<open>L\<close> links each.\<close>

definition cycle_names :: "nat \<Rightarrow> nat \<Rightarrow> nat \<Rightarrow> string list" where
  "cycle_names R r L = concat (map (\<lambda>q. map (\<lambda>i. ''Link-'' @ show_nat q @ CHR '':'' # show_nat i) [0..<L]) (rev [r..<Suc R]))"

lemma length_cycle_names: "length (cycle_names R r L) = (Suc R - r) * L"
  by (simp add: cycle_names_def length_concat comp_def sum_list_triv del: upt_Suc)

lemma distinct_cycle_names: "distinct (cycle_names R r L)"
proof -
  define nm where "nm = (\<lambda>q i. ''Link-'' @ show_nat q @ CHR '':'' # show_nat i)"
  have inj: "q = p \<and> i = j" if "nm q i = nm p j" for q p i j
    using that two_numbers_inject [of q "show_nat i" p "show_nat j"] show_nat_inject by (auto simp: nm_def)
  have "distinct (concat (map (\<lambda>q. map (nm q) [0..<L]) qs))" if "distinct qs" for qs
    using that
  proof (induction qs)
    case (Cons q qs)
    have "distinct (map (nm q) [0..<L])"
      using inj by (auto simp: distinct_map inj_on_def)
    moreover have "set (map (nm q) [0..<L]) \<inter> set (concat (map (\<lambda>q. map (nm q) [0..<L]) qs)) = {}"
      using Cons.prems by (auto dest!: inj)
    ultimately show ?case using Cons by simp
  qed simp
  then show ?thesis unfolding cycle_names_def nm_def by simp
qed

lemma sender_names_opening:
  "sender_names (concat (map (\<lambda>i. [PnSender (f i), PnSetTarget a, PnLinkOpen]) is)) = map f is"
  by (induction "is") simp_all

definition link_calls_of :: "(pn_call \<Rightarrow> bool) \<Rightarrow> pn_call list \<Rightarrow> nat" where
  "link_calls_of P cs = calls (\<lambda>c. case c of OnLink k d \<Rightarrow> P d | _ \<Rightarrow> False) cs"

lemma link_calls_of_simps [simp]:
  "link_calls_of P [] = 0"
  "link_calls_of P (cs @ ds) = link_calls_of P cs + link_calls_of P ds"
  "link_calls_of P (c # cs) = (case c of OnLink k d \<Rightarrow> if P d then 1 else 0 | _ \<Rightarrow> 0) + link_calls_of P cs"
  by (auto simp: link_calls_of_def split: pn_call.splits)

lemma link_calls_of_opening [simp]:
  "link_calls_of P (concat (map (\<lambda>i. [PnSender (f i), PnSetTarget a, PnLinkOpen]) is)) = 0"
  by (induction "is") simp_all

lemma link_calls_of_closing [simp]:
  "link_calls_of P (map (\<lambda>k. OnLink k PnLinkClose) ks) = (if P PnLinkClose then length ks else 0)"
  by (induction ks) simp_all

abbreviation started :: "pn_call list \<Rightarrow> nat" where "started \<equiv> link_calls_of is_PnDelivery"
abbreviation freed :: "pn_call list \<Rightarrow> nat" where "freed \<equiv> link_calls_of (\<lambda>c. c = PnLinkFree)"

lemma sender_names_closing [simp]: "sender_names (map (\<lambda>k. OnLink k PnLinkClose) ks) = []"
  by (induction ks) simp_all

text \<open>
  In cycle \<open>repeat_count\<close> of \<open>R\<close>, after the opening: the links made so far are those of the cycles
  up to this one, and the links in use are the messages started less the links freed.
\<close>

definition ldr_inv :: "nat \<Rightarrow> u32 \<Rightarrow> link_loader \<Rightarrow> bool" where
  "ldr_inv R L s \<longleftrightarrow> link_limit s = L \<and> unat (repeat_count s) \<le> R \<and> 0 < R
     \<and> sender_names (out s) = cycle_names R (max 1 (unat (repeat_count s))) (unat L)
     \<and> started (out s) = freed (out s) + unat (link_count s) \<and> link_count s \<le> L
     \<and> (repeat_count s = 0 \<longrightarrow> PnProactorInterrupt \<in> set (out s))"

lemma ldr_start_message_Inr:
  assumes "ldr_start_message wr e s = Inr s'"
  shows "s' = emit (map (OnLink (flow_link e)) [PnDelivery (tag s), PnLinkSend ldr_msg_fragment]) (s\<lparr>tag := tag s + 1\<rparr>)"
proof -
  have c: "\<not> has_current e" "dlv_made e" "wr ldr_msg_fragment = int (length ldr_msg_fragment)"
    using assms by (auto simp: ldr_start_message_def Let_def split: if_splits)
  show ?thesis using assms c by (auto simp: ldr_start_message_def Let_def emit_def)
qed

lemma unat_Suc_u32:
  assumes "(x::u32) < y"
  shows "unat (x + 1) = Suc (unat x)"
proof -
  have "unat x < unat y" "unat y < 2 ^ LENGTH(32)"
    using assms by (simp_all only: word_less_nat_alt unsigned_less)
  then have "Suc (unat x) < 2 ^ 32" by simp
  then show ?thesis by (simp add: unat_word_ariths)
qed

lemma ldr_link_flow_inv:
  assumes "ldr_link_flow wr e s = Inr s'" and "ldr_inv R L s"
  shows "ldr_inv R L s'"
proof (cases "link_count s < link_limit s \<and> \<not> has_current e \<and> 0 < flow_credit e")
  case False
  then show ?thesis using assms by (auto simp: ldr_link_flow_def)
next
  case True
  then obtain t where t: "ldr_start_message wr e s = Inr t"
      "s' = (let s = t\<lparr>link_count := link_count t + 1\<rparr>
             in if link_count s = link_limit s then emit (map (\<lambda>k. OnLink k PnLinkClose) (active_links e)) s else s)"
    using assms(1) by (auto simp: ldr_link_flow_def bnd_eq_Inr Let_def)
  note t1 = ldr_start_message_Inr [OF t(1)]
  have u: "unat (link_count s + 1) = Suc (unat (link_count s))" "link_count s + 1 \<le> link_limit s"
    using True unat_Suc_u32 [of "link_count s" "link_limit s"] by (simp_all add: word_le_nat_alt word_less_nat_alt)
  show ?thesis using assms(2) u
    by (cases "link_count t + 1 = link_limit t") (simp_all add: t(2) t1 ldr_inv_def Let_def)
qed

lemma ldr_close_inv:
  assumes "ldr_link_remote_close k b s = Inr s'" and "ldr_inv R L s"
  shows "ldr_inv R L s'"
proof (cases b)
  case False
  then show ?thesis using assms by (simp add: ldr_link_remote_close_def)
next
  case True
  have n: "0 < link_count s" using assms(1) True by (auto simp: ldr_link_remote_close_def Let_def split: if_splits)
  define t where "t = emit [OnLink k PnLinkFree] (s\<lparr>link_count := link_count s - 1\<rparr>)"
  have u: "unat (link_count s) = Suc (unat (link_count s - 1))" "link_count s - 1 \<le> link_count s"
    using n by (auto simp: unat_minus_one word_le_nat_alt unat_gt_0 word_gt_0)
  have t: "ldr_inv R L t" using assms(2) u order_trans [OF u(2)] by (simp add: ldr_inv_def t_def)
  have te: "emit [OnLink k PnLinkFree] s\<lparr>link_count := link_count s - 1\<rparr> = t" by (simp add: t_def emit_def)
  have rt: "repeat_count t = repeat_count s" by (simp add: t_def)
  show ?thesis
  proof (cases "link_count t = 0")
    case False
    then have "s' = t" using assms(1) True n te by (simp add: ldr_link_remote_close_def Let_def t_def emit_def)
    then show ?thesis using t by simp
  next
    case z: True
    have r: "0 < repeat_count s"
      using assms(1) True n z by (auto simp: ldr_link_remote_close_def Let_def t_def emit_def split: if_splits)
    have v: "unat (repeat_count s) = Suc (unat (repeat_count s - 1))"
      using r by (auto simp: unat_minus_one word_gt_0 unat_gt_0)
    show ?thesis
    proof (cases "0 < repeat_count s - 1")
      case False
      then have "repeat_count s - 1 = 0" by (simp add: word_gt_0)
      then have v1: "unat (repeat_count s) = 1" "repeat_count s = 1" using v by simp_all
      have "s' = emit [PnProactorInterrupt] (t\<lparr>repeat_count := 0, stop := True\<rparr>)"
        using assms(1) True n z r v1(2) by (simp add: ldr_link_remote_close_def Let_def t_def emit_def)
      then show ?thesis using t v1 by (simp add: ldr_inv_def t_def)
    next
      case True
      then have s': "s' = ldr_open_links (t\<lparr>repeat_count := repeat_count s - 1\<rparr>)"
        using assms(1) \<open>b\<close> n z r te rt by (simp add: ldr_link_remote_close_def Let_def)
      define q where "q = unat (repeat_count s - 1)"
      have q: "0 < q" "unat (repeat_count s) = Suc q" using True v by (simp_all add: q_def unat_gt_0 word_gt_0)
      have "q \<le> R" using assms(2) q by (simp add: ldr_inv_def)
      then have "[q..<Suc R] = q # [Suc q..<Suc R]" by (simp add: upt_conv_Cons)
      then have "cycle_names R q (unat L) = cycle_names R (Suc q) (unat L) @ map (ldr_name (repeat_count s - 1)) [0..<unat L]"
        by (simp add: cycle_names_def ldr_name_def q_def del: upt_Suc)
      moreover have "max 1 q = q" "max 1 (Suc q) = Suc q" using q(1) by simp_all
      ultimately show ?thesis using t q \<open>q \<le> R\<close> True
        by (simp add: s' ldr_inv_def t_def ldr_open_links_def sender_names_opening q_def [symmetric] word_gt_0)
    qed
  qed
qed

lemma ldr_handler_inv:
  assumes "ldr_inv R L s" and "ldr_event_handler wr s e = Inr (d, s')" and "e \<noteq> LL_CONNECTION_INIT"
  shows "ldr_inv R L s'"
proof (cases e)
  case (LL_LINK_FLOW f)
  then show ?thesis using assms ldr_link_flow_inv by (auto simp: bnd_eq_Inr)
next
  case (LL_LINK_REMOTE_CLOSE k b)
  then show ?thesis using assms ldr_close_inv by (auto simp: bnd_eq_Inr)
next
  case (LL_SIGNAL n)
  then show ?thesis using assms
    by (cases "n \<in> sig_ign s") (auto simp: ldr_signal_handler_def ldr_inv_def)
qed (use assms in \<open>auto simp: ldr_inv_def\<close>)

section \<open>The program\<close>

definition ldr_fresh :: "link_loader \<Rightarrow> bool" where
  "ldr_fresh s \<longleftrightarrow> out s = [] \<and> link_count s = 0 \<and> repeat_count s \<noteq> 0 \<and> link_limit s \<noteq> 0 \<and> \<not> stop s"

lemma ldr_parse_fresh:
  assumes "parse_opts ldr_option opts ldr_globals = Inr g"
  shows "ldr_fresh g"
  by (rule parse_opts_preserves [where P = ldr_fresh, OF _ _ assms])
    (auto simp: ldr_option_def usage_def ldr_fresh_def ldr_globals_def split: prod.splits if_splits option.splits)

lemma ldr_init_inv:
  assumes "ldr_fresh g"
  shows "ldr_inv (unat (repeat_count g)) (link_limit g) (ldr_connection_init (emit (connect_calls c hp) g))"
proof -
  have p: "0 < unat (repeat_count g)" using assms by (simp add: ldr_fresh_def unat_gt_0)
  then have "max 1 (unat (repeat_count g)) = unat (repeat_count g)" by simp
  moreover have "cycle_names (unat (repeat_count g)) (unat (repeat_count g)) (unat (link_limit g))
      = map (ldr_name (repeat_count g)) [0..<unat (link_limit g)]"
    by (simp add: cycle_names_def ldr_name_def)
  ultimately show ?thesis using assms p
    by (simp add: ldr_inv_def ldr_fresh_def ldr_connection_init_def ldr_open_links_def sender_names_opening)
qed

lemma ldr_main_inv:
  assumes "ldr_main wr opts ((LL_CONNECTION_INIT # es) # ess) = Inr (d, s)"
    and "parse_opts ldr_option opts ldr_globals = Inr g" and "LL_CONNECTION_INIT \<notin> set (concat (es # ess))"
  shows "ldr_inv (unat (repeat_count g)) (link_limit g) s"
    and "proactor_loop (ldr_event_handler wr) id
           (ldr_connection_init (emit (connect_calls (container_name g) (ldr_host_port g)) g)) (es # ess) = Inr (d, s)"
proof -
  show r: "proactor_loop (ldr_event_handler wr) id
      (ldr_connection_init (emit (connect_calls (container_name g) (ldr_host_port g)) g)) (es # ess) = Inr (d, s)"
    using assms(1,2) by (simp add: ldr_main_def)
  note i = ldr_init_inv [OF ldr_parse_fresh [OF assms(2)]]
  show "ldr_inv (unat (repeat_count g)) (link_limit g) s"
  proof (rule loop_preserves [where P = "ldr_inv (unat (repeat_count g)) (link_limit g)", OF _ _ i r])
    fix t e b t'
    assume "ldr_inv (unat (repeat_count g)) (link_limit g) t" "e \<in> set (concat (es # ess))"
      "ldr_event_handler wr t e = Inr (b, t')"
    moreover from this have "e \<noteq> LL_CONNECTION_INIT" using assms(3) by metis
    ultimately show "ldr_inv (unat (repeat_count g)) (link_limit g) t'" using ldr_handler_inv by metis
  qed simp
qed

text \<open>Without a signal and with the proactor active, the stop is that of the last cycle.\<close>

definition ldr_stop_last :: "link_loader \<Rightarrow> bool" where
  "ldr_stop_last s \<longleftrightarrow> (stop s \<longrightarrow> repeat_count s = 0)"

lemma ldr_link_flow_stop:
  assumes "ldr_link_flow wr e s = Inr s'"
  shows "stop s' = stop s \<and> repeat_count s' = repeat_count s"
proof (cases "link_count s < link_limit s \<and> \<not> has_current e \<and> 0 < flow_credit e")
  case True
  then obtain u where u: "ldr_start_message wr e s = Inr u"
    "s' = (if link_count u + 1 = link_limit u
           then emit (map (\<lambda>k. OnLink k PnLinkClose) (active_links e)) (u\<lparr>link_count := link_count u + 1\<rparr>)
           else u\<lparr>link_count := link_count u + 1\<rparr>)"
    using assms by (auto simp: ldr_link_flow_def bnd_eq_Inr Let_def)
  then show ?thesis using ldr_start_message_Inr [OF u(1)]
    by (cases "link_count u + 1 = link_limit u") simp_all
qed (use assms in \<open>auto simp: ldr_link_flow_def\<close>)

lemma ldr_event_stop_last:
  assumes "ldr_stop_last s" and "ldr_event_handler wr s e = Inr (d, s')"
    and "e \<noteq> LL_PROACTOR_INACTIVE" and "\<forall>n. e \<noteq> LL_SIGNAL n"
  shows "ldr_stop_last s'"
proof (cases e)
  case LL_CONNECTION_INIT
  then show ?thesis using assms by (auto simp: ldr_stop_last_def ldr_connection_init_def ldr_open_links_def)
next
  case (LL_LINK_FLOW f)
  then show ?thesis using assms(1,2) ldr_link_flow_stop by (auto simp: bnd_eq_Inr ldr_stop_last_def)
next
  case (LL_LINK_REMOTE_CLOSE k c)
  then have c: "ldr_link_remote_close k c s = Inr s'" using assms(2) by (auto simp: bnd_eq_Inr)
  then show ?thesis using assms(1)
    by (auto simp: ldr_stop_last_def ldr_link_remote_close_def Let_def ldr_open_links_def word_gt_0 split: if_splits)
qed (use assms in auto)

lemma ldr_ends_by_itself:
  assumes r: "proactor_loop (ldr_event_handler wr) id
        (ldr_connection_init (emit (connect_calls (container_name g) (ldr_host_port g)) g)) ess = Inr (True, s)"
    and g: "parse_opts ldr_option opts ldr_globals = Inr g"
    and a: "LL_PROACTOR_INACTIVE \<notin> set (concat ess)" and b: "\<forall>n. LL_SIGNAL n \<notin> set (concat ess)"
  shows "repeat_count s = 0"
proof -
  have i: "ldr_stop_last (ldr_connection_init (emit (connect_calls (container_name g) (ldr_host_port g)) g))"
    using ldr_parse_fresh [OF g]
    by (simp add: ldr_stop_last_def ldr_fresh_def ldr_connection_init_def ldr_open_links_def)
  obtain t e t' where e: "e \<in> set (concat ess)" "ldr_event_handler wr t e = Inr (True, t')" "s = id t'"
    using loop_done_by [OF r] by blast
  have "e \<noteq> LL_PROACTOR_INACTIVE" using e(1) a by metis
  then have "stop s" using e(2,3) by (cases e) (auto simp: bnd_eq_Inr)
  moreover have "ldr_stop_last s"
  proof (rule loop_preserves [where P = ldr_stop_last, OF _ _ i r])
    fix t e b' t'
    assume "ldr_stop_last t" "e \<in> set (concat ess)" "ldr_event_handler wr t e = Inr (b', t')"
    moreover from this have "e \<noteq> LL_PROACTOR_INACTIVE" "\<forall>n. e \<noteq> LL_SIGNAL n" using a b by metis+
    ultimately show "ldr_stop_last t'" using ldr_event_stop_last by blast
  qed simp
  ultimately show ?thesis by (simp add: ldr_stop_last_def)
qed

section \<open>Properties\<close>

text \<open>C30: the links of all cycles have pairwise distinct names, and at any time those of the cycles
  begun so far have been made, \<open>link_limit\<close> for each.\<close>

theorem ldr_link_names_distinct:
  assumes "ldr_main wr opts ((LL_CONNECTION_INIT # es) # ess) = Inr (d, s)"
    and "parse_opts ldr_option opts ldr_globals = Inr g" and "LL_CONNECTION_INIT \<notin> set (concat (es # ess))"
  shows "distinct (sender_names (out s)) \<and> length (sender_names (out s))
      = (Suc (unat (repeat_count g)) - max 1 (unat (repeat_count s))) * unat (link_limit g)"
  using ldr_main_inv(1) [OF assms] by (simp add: ldr_inv_def distinct_cycle_names length_cycle_names)

lemma ldr_sample_parse: "parse_opts ldr_option [(CHR ''l'', ''2''), (CHR ''c'', ''1'')] ldr_globals
    = Inr (ldr_globals\<lparr>link_limit := 2, repeat_count := 1\<rparr>)"
  by (simp add: ldr_option_def scan_u32_def scan_number_def read_sign_def is_space_def is_digit_def strtoul_def ldr_globals_def)

abbreviation ldr_sample_flow :: "nat \<Rightarrow> ldr_event" where
  "ldr_sample_flow k \<equiv> LL_LINK_FLOW \<lparr>flow_link = k, has_current = False, flow_credit = 1, dlv_made = True, active_links = [0, 1]\<rparr>"

abbreviation ldr_sample :: "ldr_event list list" where
  "ldr_sample \<equiv> [[ldr_sample_flow 0, ldr_sample_flow 1], [LL_LINK_REMOTE_CLOSE 0 True, LL_LINK_REMOTE_CLOSE 1 True],
     [LL_PROACTOR_INTERRUPT]]"

lemma ldr_sample_run:
  "\<exists>s. ldr_main (\<lambda>bs. int (length bs)) [(CHR ''l'', ''2''), (CHR ''c'', ''1'')] ((LL_CONNECTION_INIT # []) # ldr_sample)
     = Inr (True, s)"
  unfolding ldr_main_def ldr_sample_parse bnd_Inr
  by (simp add: ldr_globals_def ldr_connection_init_def ldr_open_links_def ldr_link_flow_def ldr_start_message_def
      ldr_link_remote_close_def Let_def emit_def)

theorem ldr_link_names_distinct_witness:
  "\<exists>s. ldr_main (\<lambda>bs. int (length bs)) [(CHR ''l'', ''2''), (CHR ''c'', ''1'')] ((LL_CONNECTION_INIT # []) # ldr_sample)
     = Inr (True, s) \<and> distinct (sender_names (out s))"
proof -
  obtain s where s: "ldr_main (\<lambda>bs. int (length bs)) [(CHR ''l'', ''2''), (CHR ''c'', ''1'')]
      ((LL_CONNECTION_INIT # []) # ldr_sample) = Inr (True, s)" using ldr_sample_run by blast
  from ldr_link_names_distinct [OF s ldr_sample_parse] s show ?thesis by simp
qed



end
