(* ===== verification/SessionLoader.thy ===== *)
theory SessionLoader
  imports LinkLoader
begin

text \<open>
  \<open>skupper-router/clients/session-loader.c\<close>: opens a session with a number of links, starts a
  message on each, closes the session with the messages incomplete and goes on with the next, for
  a number of sessions. \<open>session_count\<close> counts the sessions closed at both ends, \<open>link_count\<close> the
  messages started in the current one.
\<close>

section \<open>State\<close>

record session_loader = world +
  stop :: bool
  session_limit :: u32
  link_limit :: u32
  session_count :: u32
  link_count :: u32
  target_address :: string
  host_address :: string
  container_name :: string
  tag :: u64
  sig_ign :: "int set"

definition sld_globals :: session_loader where
  "sld_globals = \<lparr>clk = 0, out = [], stop = False, session_limit = 1000, link_limit = 100, session_count = 0,
     link_count = 0, target_address = ''test-address'', host_address = ''127.0.0.1:5672'',
     container_name = ''SessionLoader'', tag = 0, sig_ign = {}\<rparr>"

definition sld_msg_fragment :: "u8 list" where
  "sld_msg_fragment = [0x00, 0x53, 0x70, 0x45, 0x00, 0x53, 0x73, 0x45, 0x00, 0x53, 0x77, 0xb0,
     0x00, 0x01, 0x00, 0x00]"

lemma emit_session_loader [simp]:
  "stop (emit cs s) = stop s" "session_limit (emit cs s) = session_limit s" "link_limit (emit cs s) = link_limit s"
  "session_count (emit cs s) = session_count s" "link_count (emit cs s) = link_count s"
  "target_address (emit cs s) = target_address s" "host_address (emit cs s) = host_address s"
  "container_name (emit cs s) = container_name s" "tag (emit cs s) = tag s" "sig_ign (emit cs s) = sig_ign s"
  by (simp_all add: emit_def)

section \<open>The events\<close>

text \<open>
  \<open>SL_SESSION_OPEN b\<close> is the local or the remote opening of a session, \<open>b\<close> whether it is then
  active at both ends; \<open>SL_SESSION_CLOSE b\<close> likewise for closing.
\<close>

record sld_flow =
  flow_link :: nat
  has_current :: bool
  flow_credit :: int
  dlv_made :: bool

datatype sld_event =
    SL_CONNECTION_INIT
  | SL_SESSION_OPEN bool
  | SL_LINK_FLOW sld_flow
  | SL_SESSION_CLOSE bool
  | SL_PROACTOR_INACTIVE
  | SL_PROACTOR_INTERRUPT
  | SL_SIGNAL int
  | SL_OTHER

definition sld_connection_init :: "session_loader \<Rightarrow> session_loader" where
  "sld_connection_init s = emit [PnConnectionOpen, PnSession, PnSessionOpen] s"

definition sld_name :: "u32 \<Rightarrow> nat \<Rightarrow> string" where
  "sld_name n i = ''Session-'' @ show_nat (unat n) @ '':Link-'' @ show_nat i"

definition sld_session_open :: "bool \<Rightarrow> session_loader \<Rightarrow> session_loader" where
  "sld_session_open both_active s =
     (if both_active
      then emit (concat (map (\<lambda>i. [PnSender (sld_name (session_count s) i), PnSetTarget (target_address s), PnLinkOpen])
                   [0..<unat (link_limit s)])) s
      else s)"

text \<open>\<open>start_message()\<close>; \<open>wr bs\<close> is what \<open>pn_link_send()\<close> returns for the bytes \<open>bs\<close>.\<close>

definition sld_start_message :: "(u8 list \<Rightarrow> int) \<Rightarrow> sld_flow \<Rightarrow> session_loader \<Rightarrow> halt + session_loader" where
  "sld_start_message wr e s =
     (if has_current e then Inl (Exit 1)
      else if \<not> dlv_made e then Inl (Exit 1)
      else
        let s = emit [OnLink (flow_link e) (PnDelivery (tag s))] s;
            s = s\<lparr>tag := tag s + 1\<rparr>;
            rc = wr sld_msg_fragment;
            s = emit [OnLink (flow_link e) (PnLinkSend (take (nat rc) sld_msg_fragment))] s
        in if rc \<noteq> int (length sld_msg_fragment) then Inl (Exit 1) else Inr s)"

definition sld_link_flow :: "(u8 list \<Rightarrow> int) \<Rightarrow> sld_flow \<Rightarrow> session_loader \<Rightarrow> halt + session_loader" where
  "sld_link_flow wr e s =
     (if link_count s < link_limit s \<and> \<not> has_current e \<and> 0 < flow_credit e then
        bnd (sld_start_message wr e s) (\<lambda>s.
        let s = s\<lparr>link_count := link_count s + 1\<rparr>
        in Inr (if link_count s = link_limit s then emit [PnSessionClose] s else s))
      else Inr s)"

definition sld_session_close :: "bool \<Rightarrow> session_loader \<Rightarrow> session_loader" where
  "sld_session_close both_closed s =
     (if both_closed then
        let s = s\<lparr>session_count := session_count s + 1\<rparr> in
        if session_count s < session_limit s
        then emit [PnSessionFree, PnSession, PnSessionOpen] (s\<lparr>link_count := 0\<rparr>)
        else emit [PnProactorInterrupt] (s\<lparr>stop := True\<rparr>)
      else s)"

definition sld_signal_handler :: "int \<Rightarrow> session_loader \<Rightarrow> session_loader" where
  "sld_signal_handler signum s =
     (if signum \<in> sig_ign s then s
      else emit [PnProactorInterrupt] (s\<lparr>sig_ign := insert signum (sig_ign s), stop := True\<rparr>))"

fun sld_event_handler :: "(u8 list \<Rightarrow> int) \<Rightarrow> session_loader \<Rightarrow> sld_event \<Rightarrow> halt + bool \<times> session_loader" where
  "sld_event_handler wr s SL_CONNECTION_INIT = Inr (False, sld_connection_init s)"
| "sld_event_handler wr s (SL_SESSION_OPEN b) = Inr (False, sld_session_open b s)"
| "sld_event_handler wr s (SL_LINK_FLOW e) = bnd (sld_link_flow wr e s) (\<lambda>s. Inr (False, s))"
| "sld_event_handler wr s (SL_SESSION_CLOSE b) = Inr (False, sld_session_close b s)"
| "sld_event_handler wr s SL_PROACTOR_INACTIVE = Inr (True, s\<lparr>stop := True\<rparr>)"
| "sld_event_handler wr s SL_PROACTOR_INTERRUPT = Inr (stop s, s)"
| "sld_event_handler wr s (SL_SIGNAL signum) = Inr (False, sld_signal_handler signum s)"
| "sld_event_handler wr s SL_OTHER = Inr (False, s)"

section \<open>\<open>main\<close>\<close>

definition sld_option :: "opt \<Rightarrow> session_loader \<Rightarrow> halt + session_loader" where
  "sld_option p s =
     (case p of (c, optarg) \<Rightarrow>
      if c = CHR ''h'' then usage
      else if c = CHR ''a'' then Inr (s\<lparr>host_address := optarg\<rparr>)
      else if c = CHR ''c'' then
        (case scan_u32 optarg of None \<Rightarrow> usage | Some n \<Rightarrow> if n = 0 then usage else Inr (s\<lparr>session_limit := n\<rparr>))
      else if c = CHR ''i'' then Inr (s\<lparr>container_name := optarg\<rparr>)
      else if c = CHR ''l'' then
        (case scan_u32 optarg of None \<Rightarrow> usage | Some n \<Rightarrow> if n = 0 then usage else Inr (s\<lparr>link_limit := n\<rparr>))
      else if c = CHR ''t'' then Inr (s\<lparr>target_address := optarg\<rparr>)
      else if c = CHR ''D'' then Inr s
      else usage)"

definition sld_host_port :: "session_loader \<Rightarrow> string \<times> string" where
  "sld_host_port s = trim_port split_first (strip_scheme (host_address s))"

definition sld_main :: "(u8 list \<Rightarrow> int) \<Rightarrow> opt list \<Rightarrow> sld_event list list \<Rightarrow> halt + bool \<times> session_loader" where
  "sld_main wr opts ess =
     bnd (parse_opts sld_option opts sld_globals) (\<lambda>s.
     proactor_loop (sld_event_handler wr) id (emit (connect_calls (container_name s) (sld_host_port s)) s) ess)"

section \<open>The sessions\<close>

abbreviation sessions :: "pn_call list \<Rightarrow> nat" where
  "sessions \<equiv> calls (\<lambda>c. c = PnSession)"

text \<open>
  Until the program is stopped: one session made for each that was begun, messages started within
  the limit of each, and the current session closed as soon as its last message is started.
\<close>

definition sld_within :: "u32 \<Rightarrow> u32 \<Rightarrow> session_loader \<Rightarrow> bool" where
  "sld_within N L s \<longleftrightarrow> session_limit s = N \<and> link_limit s = L \<and> 0 < N \<and> 0 < L
     \<and> (\<not> stop s \<longrightarrow> session_count s < N \<and> sessions (out s) = Suc (unat (session_count s))
          \<and> started (out s) \<le> unat (session_count s) * unat L + unat (link_count s) \<and> link_count s \<le> L
          \<and> (link_count s = L \<longrightarrow> PnSessionClose \<in> set (out s)))"

lemma sld_start_message_Inr:
  assumes "sld_start_message wr e s = Inr s'"
  shows "s' = emit (map (OnLink (flow_link e)) [PnDelivery (tag s), PnLinkSend sld_msg_fragment]) (s\<lparr>tag := tag s + 1\<rparr>)"
proof -
  have c: "\<not> has_current e" "dlv_made e" "wr sld_msg_fragment = int (length sld_msg_fragment)"
    using assms by (auto simp: sld_start_message_def Let_def split: if_splits)
  show ?thesis using assms c by (auto simp: sld_start_message_def Let_def emit_def)
qed

lemma sld_link_flow_within:
  assumes "sld_link_flow wr e s = Inr s'" and "sld_within N L s"
  shows "sld_within N L s'"
proof (cases "link_count s < link_limit s \<and> \<not> has_current e \<and> 0 < flow_credit e")
  case False
  then show ?thesis using assms by (auto simp: sld_link_flow_def)
next
  case True
  then obtain t where t: "sld_start_message wr e s = Inr t"
      "s' = (if link_count t + 1 = link_limit t then emit [PnSessionClose] (t\<lparr>link_count := link_count t + 1\<rparr>)
             else t\<lparr>link_count := link_count t + 1\<rparr>)"
    using assms(1) by (auto simp: sld_link_flow_def bnd_eq_Inr Let_def)
  note t1 = sld_start_message_Inr [OF t(1)]
  have "unat (link_count s + 1) = Suc (unat (link_count s))" "link_count s + 1 \<le> link_limit s"
    using True unat_Suc_u32 [of "link_count s" "link_limit s"] by (simp_all add: word_le_nat_alt word_less_nat_alt)
  then show ?thesis using assms(2)
    by (cases "link_count t + 1 = link_limit t") (simp_all add: t(2) t1 sld_within_def)
qed

lemma sld_close_within:
  assumes "sld_within N L s"
  shows "sld_within N L (sld_session_close b s)"
proof (cases "b \<and> \<not> stop s \<and> session_count s + 1 < session_limit s")
  case False
  then show ?thesis using assms
    by (cases b; cases "session_count s + 1 < session_limit s")
      (auto simp: sld_session_close_def sld_within_def Let_def)
next
  case True
  then have n: "unat (session_count s + 1) = Suc (unat (session_count s))"
    using assms unat_Suc_u32 [of "session_count s" N] by (simp add: sld_within_def)
  have "unat (session_count s) * unat L + unat (link_count s) \<le> Suc (unat (session_count s)) * unat L"
    using assms True by (simp add: sld_within_def word_le_nat_alt)
  then show ?thesis using assms True n
    by (auto simp: sld_session_close_def sld_within_def Let_def word_gt_0)
qed

lemma sld_handler_within:
  assumes "sld_within N L s" and "sld_event_handler wr s e = Inr (d, s')" and "e \<noteq> SL_CONNECTION_INIT"
  shows "sld_within N L s'"
proof (cases e)
  case (SL_SESSION_OPEN b)
  have "calls (\<lambda>c. c = PnSession) (concat (map (\<lambda>i. [PnSender (f i), PnSetTarget a, PnLinkOpen]) is)) = 0" for f a "is"
    by (induction "is") simp_all
  then show ?thesis using SL_SESSION_OPEN assms
    by (cases b) (auto simp: sld_session_open_def sld_within_def)
next
  case (SL_LINK_FLOW f)
  then show ?thesis using assms sld_link_flow_within by (auto simp: bnd_eq_Inr)
next
  case (SL_SESSION_CLOSE b)
  then show ?thesis using assms sld_close_within by auto
next
  case (SL_SIGNAL n)
  then show ?thesis using assms
    by (cases "n \<in> sig_ign s") (auto simp: sld_signal_handler_def sld_within_def)
qed (use assms in \<open>auto simp: sld_within_def\<close>)

definition sld_fresh :: "session_loader \<Rightarrow> bool" where
  "sld_fresh s \<longleftrightarrow> out s = [] \<and> link_count s = 0 \<and> session_count s = 0 \<and> session_limit s \<noteq> 0 \<and> link_limit s \<noteq> 0
     \<and> \<not> stop s"

lemma sld_parse_fresh:
  assumes "parse_opts sld_option opts sld_globals = Inr g"
  shows "sld_fresh g"
  by (rule parse_opts_preserves [where P = sld_fresh, OF _ _ assms])
    (auto simp: sld_option_def usage_def sld_fresh_def sld_globals_def split: prod.splits if_splits option.splits)

text \<open>
  \<open>sld_ends\<close> counts the events that report a session closed at both ends. As long as there were fewer of
  them than sessions asked for, they are what \<open>session_count\<close> counts and the program is not stopped;
  then it is.
\<close>

fun sld_ends :: "sld_event list \<Rightarrow> nat" where
  "sld_ends [] = 0"
| "sld_ends (SL_SESSION_CLOSE b # es) = (if b then Suc (sld_ends es) else sld_ends es)"
| "sld_ends (e # es) = sld_ends es"

lemma sld_ends_append [simp]: "sld_ends (es @ fs) = sld_ends es + sld_ends fs"
  by (induction es rule: sld_ends.induct) simp_all

definition sld_progress :: "u32 \<Rightarrow> u32 \<Rightarrow> nat \<Rightarrow> session_loader \<Rightarrow> bool" where
  "sld_progress N L n s \<longleftrightarrow> sld_within N L s
     \<and> (n < unat N \<longrightarrow> \<not> stop s \<and> unat (session_count s) = n)
     \<and> (unat N \<le> n \<longrightarrow> stop s \<and> (n < 2 ^ 32 \<longrightarrow> unat (session_count s) = n \<and> sessions (out s) = unat N))"

lemma sld_progress_cong:
  assumes "sld_progress N L n s" and "sld_within N L s'" and "stop s' = stop s"
    and "session_count s' = session_count s" and "sessions (out s') = sessions (out s)"
  shows "sld_progress N L n s'"
  using assms by (simp add: sld_progress_def)

lemma sld_close_progress:
  assumes "sld_progress N L n s"
  shows "sld_progress N L (Suc n) (sld_session_close True s)"
proof -
  let ?s = "sld_session_close True s"
  have w: "sld_within N L s" "sld_within N L ?s" using assms sld_close_within by (auto simp: sld_progress_def)
  then have lim: "session_limit s = N" by (simp add: sld_within_def)
  have c: "unat (session_count s + 1) = Suc n" if "Suc n < 2 ^ 32"
  proof -
    have "unat (session_count s) = n" using assms that by (cases "n < unat N") (auto simp: sld_progress_def)
    then show ?thesis using that by (simp add: unat_word_ariths)
  qed
  have N: "unat N < 2 ^ 32" using unsigned_less [of N, where ?'a = nat] by simp
  have s: "stop ?s = (stop s \<or> \<not> session_count s + 1 < N)" "session_count ?s = session_count s + 1"
    "sessions (out ?s) = (if session_count s + 1 < N then Suc (sessions (out s)) else sessions (out s))"
    by (simp_all add: sld_session_close_def Let_def lim)
  show ?thesis
  proof (cases "Suc n < unat N")
    case True
    then have "session_count s + 1 < N" using c N by (simp add: word_less_nat_alt)
    then show ?thesis using True assms w(2) s c N by (simp add: sld_progress_def)
  next
    case False
    have "\<not> session_count s + 1 < N" if "Suc n < 2 ^ 32" using c [OF that] False by (simp add: word_less_nat_alt)
    moreover have "sessions (out s) = unat N" if "Suc n < 2 ^ 32"
    proof (cases "n < unat N")
      case True
      then show ?thesis using assms w(1) False by (simp add: sld_progress_def sld_within_def)
    next
      case False
      then show ?thesis using assms that by (simp add: sld_progress_def)
    qed
    moreover have "stop ?s"
    proof (cases "n < unat N")
      case True
      then have "Suc n < 2 ^ 32 \<or> Suc n = unat N" using N by linarith
      then show ?thesis using False True N calculation(1) s(1) by auto
    next
      case False
      then show ?thesis using assms s(1) by (simp add: sld_progress_def)
    qed
    ultimately show ?thesis using False w(2) s c by (simp add: sld_progress_def)
  qed
qed

lemma sld_handler_progress:
  assumes "sld_progress N L (sld_ends hs) s" and "sld_event_handler wr s e = Inr (d, s')"
    and "e \<noteq> SL_CONNECTION_INIT" and "e \<noteq> SL_PROACTOR_INACTIVE" and "\<forall>n. e \<noteq> SL_SIGNAL n"
  shows "sld_progress N L (sld_ends (hs @ [e])) s' \<and> (d \<longrightarrow> stop s')"
proof -
  have w: "sld_within N L s'"
    by (rule sld_handler_within [OF _ assms(2,3)]) (use assms(1) in \<open>simp add: sld_progress_def\<close>)
  show ?thesis
  proof (cases e)
    case (SL_SESSION_OPEN b)
    have o: "sessions (concat (map (\<lambda>i. [PnSender (f i), PnSetTarget a, PnLinkOpen]) is)) = 0" for f a "is"
      by (induction "is") simp_all
    have "stop (sld_session_open b s) = stop s" "session_count (sld_session_open b s) = session_count s"
      "sessions (out (sld_session_open b s)) = sessions (out s)"
      by (simp_all add: sld_session_open_def o)
    moreover have "s' = sld_session_open b s" "\<not> d" using assms(2) SL_SESSION_OPEN by simp_all
    ultimately have "sld_progress N L (sld_ends hs) s'" by (intro sld_progress_cong [OF assms(1) w]) simp_all
    then show ?thesis using \<open>\<not> d\<close> SL_SESSION_OPEN by simp
  next
    case (SL_LINK_FLOW f)
    then have f: "sld_link_flow wr f s = Inr s'" "\<not> d" using assms(2) by (auto simp: bnd_eq_Inr)
    have "stop s' = stop s \<and> session_count s' = session_count s \<and> sessions (out s') = sessions (out s)"
      using f(1) by (auto simp: sld_link_flow_def bnd_eq_Inr Let_def dest!: sld_start_message_Inr split: if_splits)
    then show ?thesis using f(2) SL_LINK_FLOW sld_progress_cong [OF assms(1) w] by simp
  next
    case (SL_SESSION_CLOSE b)
    then have "s' = sld_session_close b s" "\<not> d" using assms(2) by auto
    then show ?thesis using assms(1) SL_SESSION_CLOSE sld_close_progress
      by (cases b) (simp_all add: sld_session_close_def)
  qed (use assms in auto)
qed

section \<open>Properties\<close>

text \<open>C31: unless it is signalled or the proactor runs out of work, the loader stops exactly when as many
  sessions have been closed at both ends as were asked for. Until then it does not leave its loop; it
  has made one session more than have ended, started at most \<open>link_limit\<close> messages in each, and closed
  a session once the last message of the current one is started. From then on it is stopped, having made
  exactly the sessions asked for (as long as fewer than \<open>2 ^ 32\<close> closings are reported, for the counter
  wraps there).\<close>

theorem sld_stops_after_last_session:
  assumes "sld_main wr opts ((SL_CONNECTION_INIT # es) # ess) = Inr (d, s)"
    and "parse_opts sld_option opts sld_globals = Inr g"
    and "SL_CONNECTION_INIT \<notin> set (concat (es # ess))" and "SL_PROACTOR_INACTIVE \<notin> set (concat (es # ess))"
    and "\<forall>n. SL_SIGNAL n \<notin> set (concat (es # ess))" and "ends = sld_ends (concat (es # ess))"
  shows "if ends < unat (session_limit g)
    then \<not> d \<and> \<not> stop s \<and> unat (session_count s) = ends \<and> sessions (out s) = Suc ends
      \<and> started (out s) \<le> ends * unat (link_limit g) + unat (link_count s) \<and> link_count s \<le> link_limit g
      \<and> (link_count s = link_limit g \<longrightarrow> PnSessionClose \<in> set (out s))
    else stop s \<and> (ends < 2 ^ 32 \<longrightarrow> sessions (out s) = unat (session_limit g))"
proof -
  let ?N = "session_limit g" and ?L = "link_limit g" and ?es = "concat (es # ess)"
  let ?s = "sld_connection_init (emit (connect_calls (container_name g) (sld_host_port g)) g)"
  define P where "P = (\<lambda>hs s. sld_progress ?N ?L (sld_ends hs) s)"
  define Q where "Q = (\<lambda>hs s. sld_progress ?N ?L (sld_ends hs) s \<and> stop s)"
  have r: "proactor_loop (sld_event_handler wr) id ?s (es # ess) = Inr (d, s)"
    using assms(1,2) by (simp add: sld_main_def)
  have p: "P [] ?s"
    using sld_parse_fresh [OF assms(2)]
    by (auto simp: P_def sld_progress_def sld_within_def sld_fresh_def sld_connection_init_def word_gt_0 unat_gt_0)
  have "\<exists>n \<le> length ?es. (if d then Q else P) ([] @ take n ?es) s \<and> (\<not> d \<longrightarrow> n = length ?es)"
  proof (rule loop_history [where P = P and Q = Q, OF _ _ _ p r])
    fix hs t e b t'
    assume t: "P hs t" "e \<in> set ?es" "sld_event_handler wr t e = Inr (b, t')"
    have e: "e \<noteq> SL_CONNECTION_INIT" "e \<noteq> SL_PROACTOR_INACTIVE" "\<forall>n. e \<noteq> SL_SIGNAL n"
      using t(2) assms(3-5) by fastforce+
    have "sld_progress ?N ?L (sld_ends hs) t" using t(1) by (simp add: P_def)
    from sld_handler_progress [OF this t(3) e] show "(if b then Q else P) (hs @ [e]) t'"
      by (cases b) (simp_all add: P_def Q_def)
  qed simp_all
  then obtain n where n: "n \<le> length ?es" "(if d then Q else P) (take n ?es) s" "\<not> d \<longrightarrow> n = length ?es" by auto
  then have s: "sld_progress ?N ?L (sld_ends (take n ?es)) s" "d \<longrightarrow> stop s"
    by (simp_all add: P_def Q_def split: if_splits)
  have "ends = sld_ends (take n ?es) + sld_ends (drop n ?es)"
    unfolding assms(6) by (metis append_take_drop_id sld_ends_append)
  then have e: "sld_ends (take n ?es) \<le> ends" by linarith
  have f: "sld_ends (take n ?es) = ends" if "\<not> d"
    unfolding assms(6) using n(3) that by simp
  note p = s(1) [unfolded sld_progress_def]
  show ?thesis
  proof (cases "ends < unat ?N")
    case True
    then have "\<not> d" using e s(2) p by force
    then show ?thesis using True f [OF \<open>\<not> d\<close>] p by (auto simp: sld_within_def)
  next
    case False
    then have "unat ?N \<le> sld_ends (take n ?es)" using f s(2) p by (metis not_le)
    then show ?thesis using False e p by simp
  qed
qed

theorem sld_stops_after_last_session_witness:
  "\<exists>s. sld_main (\<lambda>bs. int (length bs)) [(CHR ''c'', ''1''), (CHR ''l'', ''1'')] ((SL_CONNECTION_INIT # [SL_SESSION_OPEN True,
        SL_LINK_FLOW \<lparr>flow_link = 0, has_current = False, flow_credit = 1, dlv_made = True\<rparr>,
        SL_SESSION_CLOSE True]) # []) = Inr (False, s)
     \<and> stop s \<and> sessions (out s) = 1"
proof -
  let ?es = "[SL_SESSION_OPEN True, SL_LINK_FLOW \<lparr>flow_link = 0, has_current = False, flow_credit = 1, dlv_made = True\<rparr>,
     SL_SESSION_CLOSE True]"
  have p: "parse_opts sld_option [(CHR ''c'', ''1''), (CHR ''l'', ''1'')] sld_globals
      = Inr (sld_globals\<lparr>session_limit := 1, link_limit := 1\<rparr>)"
    by (simp add: sld_option_def scan_u32_def scan_number_def read_sign_def is_space_def is_digit_def strtoul_def sld_globals_def)
  have "\<exists>s. sld_main (\<lambda>bs. int (length bs)) [(CHR ''c'', ''1''), (CHR ''l'', ''1'')] ((SL_CONNECTION_INIT # ?es) # []) = Inr (False, s)"
    unfolding sld_main_def p bnd_Inr
    by (simp add: sld_globals_def sld_connection_init_def sld_session_open_def sld_link_flow_def sld_start_message_def
        sld_session_close_def Let_def emit_def)
  then obtain s where s: "sld_main (\<lambda>bs. int (length bs)) [(CHR ''c'', ''1''), (CHR ''l'', ''1'')] ((SL_CONNECTION_INIT # ?es) # []) = Inr (False, s)"
    by blast
  from sld_stops_after_last_session [OF s p _ _ _ refl] s show ?thesis by simp
qed

end
