(* ===== verification/TcpPerf.thy ===== *)
theory TcpPerf
  imports Complex_Main Proactor
begin

text \<open>
  \<open>skupper-router/clients/spout-client.c\<close> sends a number of octets over a TCP connection as fast
  as it can, \<open>drain-server.c\<close> accepts connections and drains them, one thread for each; the threads
  share nothing. What the sockets answer is an argument: a list of answers of \<open>send()\<close>, each a
  function of the size asked for, and a list of results of \<open>recv()\<close>. A loop that the answers do
  not bring to an end is left hanging. A rate is a \<open>long double\<close> that is only ever divided by
  1024, which is exact, so it is read as a rational number.
\<close>

section \<open>What both programs share\<close>

text \<open>The calls a program makes on a socket besides sending and receiving; \<open>SockAddr p\<close> is the
  \<open>bind()\<close> or \<open>connect()\<close> of the port \<open>p\<close> of the loopback address.\<close>

datatype sock_call = SockAddr u16 | ShutRd | ShutWr | ShutRdWr | SockClose

text \<open>\<open>htons(port)\<close>: the port is cut to 16 bits.\<close>

definition sin_port :: "u32 \<Rightarrow> u16" where "sin_port port = ucast port"

definition BUFFER_SIZE :: nat where "BUFFER_SIZE = 4096 * 32"

definition DEFAULT_PORT :: u32 where "DEFAULT_PORT = 9999"

definition units :: "string list" where
  "units = [''B'', ''KiB'', ''MiB'', ''GiB'', ''TiB'']"

fun humanize_loop :: "string list \<Rightarrow> rat \<Rightarrow> rat \<times> string" where
  "humanize_loop [] rate = (rate, last units)"
| "humanize_loop (u # us) rate = (if rate < 1024 then (rate, u) else humanize_loop us (rate / 1024))"

definition humanize_rate :: "rat \<Rightarrow> rat \<times> string" where
  "humanize_rate rate = humanize_loop units rate"

text \<open>Milliseconds between two readings, each truncated to milliseconds; and the report.\<close>

definition elapsed_msecs :: "timespec \<Rightarrow> timespec \<Rightarrow> int" where
  "elapsed_msecs start end' =
     ((tv_sec end' - tv_sec start) * 1000 + tv_nsec end' sdiv 1000000) - tv_nsec start sdiv 1000000"

text \<open>The rate, which the code computes in \<open>long double\<close> and so rounds, is an exact fraction here.\<close>

definition rate_of :: "u64 \<Rightarrow> int \<Rightarrow> rat" where
  "rate_of octets msecs = (if msecs \<noteq> 0 then of_nat (unat octets) / (of_int msecs / 1000) else 0)"

record tcp_report =
  octets :: u64
  msecs :: int
  rate :: "rat \<times> string"

definition report :: "u64 \<Rightarrow> timespec \<Rightarrow> timespec \<Rightarrow> tcp_report" where
  "report n start end' =
     (let ms = elapsed_msecs start end' in \<lparr>octets = n, msecs = ms, rate = humanize_rate (rate_of n ms)\<rparr>)"

section \<open>The spout\<close>

text \<open>
  The loop of \<open>run_sender()\<close>: the return value so far and the number of octets each \<open>send()\<close> took.
\<close>

fun spout_loop :: "(nat \<Rightarrow> int) list \<Rightarrow> u64 \<Rightarrow> halt + int \<times> nat list" where
  "spout_loop sends remaining =
     (if remaining = 0 then Inr (0, [])
      else case sends of
             [] \<Rightarrow> Inl Hang
           | send # sends \<Rightarrow>
               let sent = send (if BUFFER_SIZE < unat remaining then BUFFER_SIZE else unat remaining) in
               if sent < 0 then Inr (- 1, [])
               else bnd (spout_loop sends (remaining - word_of_int sent)) (\<lambda>(rc, cs). Inr (rc, nat sent # cs)))"

declare spout_loop.simps [simp del]

text \<open>\<open>clock\<close> answers the two readings, with an error or a time.\<close>

definition run_sender :: "(int + timespec) \<times> (int + timespec) \<Rightarrow> (nat \<Rightarrow> int) list \<Rightarrow> u64 \<Rightarrow> bool
    \<Rightarrow> halt + int \<times> sock_call list \<times> tcp_report option" where
  "run_sender clock sends amount half_close =
     (let shut = (if half_close then [ShutRd] else []) in
      case fst clock of
        Inl e \<Rightarrow> Inr (- 1, shut, None)
      | Inr start \<Rightarrow>
          bnd (spout_loop sends amount) (\<lambda>(rc, cs).
          if rc < 0 then Inr (rc, shut, None)
          else case snd clock of
                 Inl e \<Rightarrow> Inr (- 1, shut, None)
               | Inr end' \<Rightarrow> Inr (0, shut, Some (report amount start end'))))"

text \<open>
  The options. The argument of \<open>-c\<close> is cut at the first of \<open>K\<close>, \<open>M\<close>, \<open>G\<close> (\<open>strpbrk()\<close>), which gives
  the scale.
\<close>

record spout_opts =
  port :: u32
  amount :: u64
  half_close :: bool

definition spout_defaults :: spout_opts where
  "spout_defaults = \<lparr>port = DEFAULT_PORT, amount = 1024 * 1024 * 1024, half_close = False\<rparr>"

definition scale_of :: "char \<Rightarrow> u64" where
  "scale_of c = (if c = CHR ''K'' then 1024 else if c = CHR ''M'' then 1024 * 1024
                 else if c = CHR ''G'' then 1024 * 1024 * 1024 else 1)"

definition parse_amount :: "string \<Rightarrow> u64 option" where
  "parse_amount optarg =
     (let number = takeWhile (\<lambda>c. c \<notin> set ''KMG'') optarg;
          scale = (case dropWhile (\<lambda>c. c \<notin> set ''KMG'') optarg of [] \<Rightarrow> 1 | c # _ \<Rightarrow> scale_of c)
      in map_option (\<lambda>n. n * scale) (scan_u64 number))"

definition spout_option :: "opt \<Rightarrow> spout_opts \<Rightarrow> halt + spout_opts" where
  "spout_option p s =
     (case p of (c, optarg) \<Rightarrow>
      if c = CHR ''h'' then usage
      else if c = CHR ''p'' then
        (case scan_u32 optarg of None \<Rightarrow> usage | Some n \<Rightarrow> Inr (s\<lparr>port := n\<rparr>))
      else if c = CHR ''c'' then
        (case parse_amount optarg of None \<Rightarrow> usage | Some n \<Rightarrow> Inr (s\<lparr>amount := n\<rparr>))
      else if c = CHR ''H'' then Inr (s\<lparr>half_close := True\<rparr>)
      else usage)"

text \<open>
  \<open>main\<close>: the program exits with \<open>errno\<close> on every path, after the transfer where the socket
  and the connection could be made; the result is the exit status, the calls on the socket and
  what the transfer reported.
\<close>

definition spout_main :: "int \<Rightarrow> int \<Rightarrow> (int + timespec) \<times> (int + timespec) \<Rightarrow> (nat \<Rightarrow> int) list \<Rightarrow> int
    \<Rightarrow> opt list \<Rightarrow> halt + int \<times> sock_call list \<times> tcp_report option" where
  "spout_main sock connect clock sends errno opts =
     bnd (parse_opts spout_option opts spout_defaults) (\<lambda>s.
     let addr = [SockAddr (sin_port (port s))];
         close = (if 0 < sock then [SockClose] else [])
     in if sock < 0 then Inr (errno, [], None)
        else if connect \<noteq> 0 then Inr (errno, addr @ close, None)
        else bnd (run_sender clock sends (amount s) (half_close s)) (\<lambda>(rc, shut, r).
             Inr (errno, addr @ shut @ close, r)))"

section \<open>The drain\<close>

text \<open>The loop of a thread: what the last \<open>recv()\<close> returned and the octets received.\<close>

fun drain_loop :: "int list \<Rightarrow> u64 \<Rightarrow> halt + int \<times> u64" where
  "drain_loop [] rx_octets = Inl Hang"
| "drain_loop (received # rs) rx_octets =
     (if 0 < received then drain_loop rs (rx_octets + word_of_int received) else Inr (received, rx_octets))"

text \<open>
  The thread of a connection. After a failure of \<open>setsockopt()\<close> or of the first clock reading it
  returns without closing the socket.
\<close>

definition drain_thread :: "int \<Rightarrow> (int + timespec) \<times> (int + timespec) \<Rightarrow> int list \<Rightarrow> bool
    \<Rightarrow> halt + sock_call list \<times> tcp_report option" where
  "drain_thread setsockopt clock rs hc =
     (if setsockopt \<noteq> 0 then Inr ([], None)
      else let shut = (if hc then [ShutWr] else []) in
      case fst clock of
        Inl e \<Rightarrow> Inr (shut, None)
      | Inr start \<Rightarrow>
          bnd (drain_loop rs 0) (\<lambda>(received, rx_octets).
          Inr (shut @ [SockClose],
               if received < 0 then None
               else case snd clock of
                      Inl e \<Rightarrow> None
                    | Inr end' \<Rightarrow> Some (report rx_octets start end'))))"

record drain_opts =
  dport :: u32
  dhalf_close :: bool

definition drain_option :: "opt \<Rightarrow> drain_opts \<Rightarrow> halt + drain_opts" where
  "drain_option p s =
     (case p of (c, optarg) \<Rightarrow>
      if c = CHR ''h'' then usage
      else if c = CHR ''p'' then
        (case scan_u32 optarg of None \<Rightarrow> usage | Some n \<Rightarrow> Inr (s\<lparr>dport := n\<rparr>))
      else if c = CHR ''H'' then Inr (s\<lparr>dhalf_close := True\<rparr>)
      else usage)"

text \<open>
  \<open>main\<close>: the contexts of the threads it starts, one for each connection accepted before
  \<open>accept()\<close> fails. The four set-up calls may fail first.
\<close>

fun drain_accept :: "bool \<Rightarrow> int list \<Rightarrow> halt + (int \<times> bool) list" where
  "drain_accept hc [] = Inl Hang"
| "drain_accept hc (sock # socks) =
     (if sock < 0 then Inr [] else bnd (drain_accept hc socks) (\<lambda>cs. Inr ((sock, hc) # cs)))"

definition drain_main :: "int \<Rightarrow> int \<Rightarrow> int \<Rightarrow> int \<Rightarrow> int list \<Rightarrow> int \<Rightarrow> opt list
    \<Rightarrow> halt + int \<times> sock_call list \<times> (int \<times> bool) list" where
  "drain_main server_sock setsockopt bind listen socks errno opts =
     bnd (parse_opts drain_option opts \<lparr>dport = DEFAULT_PORT, dhalf_close = False\<rparr>) (\<lambda>s.
     let addr = [SockAddr (sin_port (dport s))];
         shut = (if 0 < server_sock then [ShutRdWr] else [])
     in if server_sock < 0 then Inr (errno, [], [])
        else if setsockopt \<noteq> 0 then Inr (errno, shut, [])
        else if bind \<noteq> 0 \<or> listen \<noteq> 0 then Inr (errno, addr @ shut, [])
        else bnd (drain_accept (dhalf_close s) socks) (\<lambda>cs. Inr (errno, addr @ shut, cs)))"

section \<open>Lemmas\<close>

lemma unat_min_BUFFER: "(if BUFFER_SIZE < n then BUFFER_SIZE else n) \<le> n"
  by simp

text \<open>\<open>send()\<close> never takes more than it is given.\<close>

definition sends_at_most :: "(nat \<Rightarrow> int) list \<Rightarrow> bool" where
  "sends_at_most sends \<longleftrightarrow> (\<forall>send \<in> set sends. \<forall>n. send n \<le> int n)"

lemma unat_minus_sent:
  assumes "0 \<le> sent" and "sent \<le> int (unat (x :: u64))"
  shows "unat (x - word_of_int sent) = unat x - nat sent" and "nat sent \<le> unat x"
proof -
  show le: "nat sent \<le> unat x" using assms by linarith
  have "unat x < 2 ^ 64" using unsigned_less [of x, where ?'a = nat] by simp
  then have "unat (word_of_int sent :: u64) = nat sent"
    using assms le by (intro unat_word_of_int) auto
  then show "unat (x - word_of_int sent) = unat x - nat sent"
    using le by (simp add: unat_sub word_le_nat_alt)
qed

lemma spout_loop_sum:
  assumes "sends_at_most sends" and "spout_loop sends remaining = Inr (0, cs)"
  shows "sum_list cs = unat remaining"
  using assms
proof (induction sends arbitrary: remaining cs)
  case Nil
  then show ?case by (simp add: spout_loop.simps split: if_splits)
next
  case (Cons send sends)
  show ?case
  proof (cases "remaining = 0")
    case True
    then show ?thesis using Cons.prems(2) by (simp add: spout_loop.simps)
  next
    case False
    define sent where "sent = send (if BUFFER_SIZE < unat remaining then BUFFER_SIZE else unat remaining)"
    have "0 \<le> sent"
      using Cons.prems(2) False by (subst (asm) spout_loop.simps) (auto simp: Let_def sent_def [symmetric] split: if_splits)
    have "sent \<le> int (if BUFFER_SIZE < unat remaining then BUFFER_SIZE else unat remaining)"
      using Cons.prems(1) unfolding sends_at_most_def sent_def by auto
    moreover have "int (if BUFFER_SIZE < unat remaining then BUFFER_SIZE else unat remaining) \<le> int (unat remaining)"
      using unat_min_BUFFER by (rule of_nat_mono)
    ultimately have le: "sent \<le> int (unat remaining)" by (rule order_trans)
    note u = unat_minus_sent [OF \<open>0 \<le> sent\<close> le]
    obtain cs' where cs': "spout_loop sends (remaining - word_of_int sent) = Inr (0, cs')" "cs = nat sent # cs'"
      using Cons.prems(2) False \<open>0 \<le> sent\<close>
      by (subst (asm) spout_loop.simps) (auto simp: Let_def sent_def [symmetric] bnd_eq_Inr split: if_splits)
    have "sum_list cs' = unat (remaining - word_of_int sent)"
      using Cons.IH [OF _ cs'(1)] Cons.prems(1) by (simp add: sends_at_most_def)
    then show ?thesis using u cs'(2) by simp
  qed
qed

lemma spout_loop_returns:
  assumes "\<forall>send \<in> set sends. \<forall>n. 0 < n \<longrightarrow> 0 < send n \<and> send n \<le> int n" and "unat remaining \<le> length sends"
  shows "\<exists>cs. spout_loop sends remaining = Inr (0, cs)"
  using assms
proof (induction sends arbitrary: remaining)
  case Nil
  then have "remaining = 0" by (simp add: unat_eq_0)
  then show ?case by (simp add: spout_loop.simps)
next
  case (Cons send sends)
  show ?case
  proof (cases "remaining = 0")
    case True
    then show ?thesis by (simp add: spout_loop.simps)
  next
    case False
    define n where "n = (if BUFFER_SIZE < unat remaining then BUFFER_SIZE else unat remaining)"
    have n: "0 < n" "n \<le> unat remaining" using False by (auto simp: n_def BUFFER_SIZE_def unat_gt_0)
    then have sent: "0 < send n" "send n \<le> int n" using Cons.prems(1) by auto
    then have "0 \<le> send n" "send n \<le> int (unat remaining)" using n by linarith+
    note u = unat_minus_sent [OF this]
    have "unat (remaining - word_of_int (send n)) \<le> length sends" using u sent(1) Cons.prems(2) by simp
    moreover have "\<forall>send \<in> set sends. \<forall>n. 0 < n \<longrightarrow> 0 < send n \<and> send n \<le> int n"
      using Cons.prems(1) by simp
    ultimately obtain cs where "spout_loop sends (remaining - word_of_int (send n)) = Inr (0, cs)"
      using Cons.IH by blast
    then show ?thesis using False sent(1)
      by (subst spout_loop.simps) (simp add: Let_def n_def [symmetric])
  qed
qed

lemma drain_loop_sum:
  assumes "\<forall>r \<in> set rs. 0 < r" and "e \<le> 0"
  shows "drain_loop (rs @ e # more_rs) rx = Inr (e, rx + word_of_int (sum_list rs))"
  using assms(1) by (induction rs arbitrary: rx) (use assms(2) in \<open>simp_all add: add.assoc\<close>)

section \<open>Properties\<close>

text \<open>C13: when the sender returns success it has sent exactly the octets asked for; and it does
  return, if every \<open>send()\<close> takes at least one octet: after at most as many calls as octets.\<close>

theorem spout_sends_exact_amount:
  assumes "\<forall>send \<in> set sends. \<forall>n. 0 < n \<longrightarrow> 0 < send n \<and> send n \<le> int n" and "unat n \<le> length sends"
    and "\<forall>send \<in> set sends. send 0 = 0"
  shows "\<exists>cs. spout_loop sends n = Inr (0, cs) \<and> sum_list cs = unat n"
proof -
  obtain cs where cs: "spout_loop sends n = Inr (0, cs)" using spout_loop_returns [OF assms(1,2)] by blast
  have "send k \<le> int k" if "send \<in> set sends" for send k
    using that assms(1,3) by (cases "k = 0") auto
  then have "sends_at_most sends" by (simp add: sends_at_most_def)
  then show ?thesis using spout_loop_sum [OF _ cs] cs by blast
qed

theorem spout_sends_exact_amount_witness:
  "\<exists>cs. spout_loop (replicate 10 int) 10 = Inr (0, cs) \<and> sum_list cs = 10"
  using spout_sends_exact_amount [of "replicate 10 int" 10] by simp

text \<open>C11: what the spout sends, the drain counts: when the octets that \<open>send()\<close> took arrive, in any
  pieces, and the connection is then shut, the thread of the drain reports exactly the amount the
  spout was asked for, and so do both ends.\<close>

theorem drain_counts_what_spout_sends:
  assumes "sends_at_most sends" and "spout_loop sends n = Inr (0, cs)"
    and "\<forall>r \<in> set rs. 0 < r" and "sum_list rs = int (sum_list cs)"
  shows "drain_thread 0 (Inr t0, Inr t1) (rs @ [0]) hc
      = Inr ((if hc then [ShutWr] else []) @ [SockClose], Some (report n t0 t1))
    \<and> run_sender (Inr u0, Inr u1) sends n hc = Inr (0, if hc then [ShutRd] else [], Some (report n u0 u1))"
proof -
  have "drain_loop (rs @ [0]) 0 = Inr (0, n)"
    using drain_loop_sum [OF assms(3), of 0 "[]" 0] assms(4) spout_loop_sum [OF assms(1,2)] by simp
  then show ?thesis using assms(2) by (simp add: drain_thread_def run_sender_def)
qed

theorem drain_counts_what_spout_sends_witness:
  "octets (the (snd (projr (drain_thread 0 (Inr \<lparr>tv_sec = 0, tv_nsec = 0\<rparr>, Inr \<lparr>tv_sec = 1, tv_nsec = 0\<rparr>)
     ([2, 3] @ [0]) True)))) = 5"
proof -
  have "spout_loop [int] 5 = Inr (0, [5])" by (simp add: spout_loop.simps BUFFER_SIZE_def)
  then show ?thesis
    using drain_counts_what_spout_sends [of "[int]" 5 "[5]" "[2, 3]" "\<lparr>tv_sec = 0, tv_nsec = 0\<rparr>"
        "\<lparr>tv_sec = 1, tv_nsec = 0\<rparr>" True]
    by (simp add: sends_at_most_def report_def Let_def)
qed

lemma humanize_cases:
  "humanize_rate r = (if r < 1024 then (r, ''B'') else if r < 1024 ^ 2 then (r / 1024, ''KiB'')
     else if r < 1024 ^ 3 then (r / 1024 ^ 2, ''MiB'') else if r < 1024 ^ 4 then (r / 1024 ^ 3, ''GiB'')
     else if r < 1024 ^ 5 then (r / 1024 ^ 4, ''TiB'') else (r / 1024 ^ 5, ''TiB''))"
  by (simp add: humanize_rate_def units_def divide_less_eq)

text \<open>A rate below 1024 TiB is shown in the unit that makes it less than 1024, and multiplied by
  that unit it is the rate again.\<close>

theorem humanize_rate_scales:
  assumes "r < 1024 ^ 5"
  shows "\<exists>i < 5. fst (humanize_rate r) < 1024 \<and> snd (humanize_rate r) = units ! i
    \<and> fst (humanize_rate r) * 1024 ^ i = r"
proof -
  have "\<exists>i < 5. (r < 1024 ^ Suc i) \<and> humanize_rate r = (r / 1024 ^ i, units ! i)"
  proof -
    consider "r < 1024" | "1024 \<le> r" "r < 1024 ^ 2" | "1024 ^ 2 \<le> r" "r < 1024 ^ 3"
      | "1024 ^ 3 \<le> r" "r < 1024 ^ 4" | "1024 ^ 4 \<le> r"
      by (meson not_less)
    then show ?thesis
    proof cases
      case 1 then show ?thesis by (intro exI [of _ 0]) (simp add: humanize_cases units_def)
    next
      case 2 then show ?thesis by (intro exI [of _ 1]) (simp add: humanize_cases units_def)
    next
      case 3 then show ?thesis by (intro exI [of _ 2]) (simp add: humanize_cases units_def)
    next
      case 4 then show ?thesis by (intro exI [of _ 3]) (simp add: humanize_cases units_def)
    next
      case 5 then show ?thesis using assms by (intro exI [of _ 4]) (simp add: humanize_cases units_def)
    qed
  qed
  then obtain i where i: "i < 5" "r < 1024 ^ Suc i" "humanize_rate r = (r / 1024 ^ i, units ! i)" by blast
  then have "r / 1024 ^ i < 1024" by (simp add: divide_less_eq)
  then show ?thesis using i by (intro exI [of _ i]) simp
qed

theorem humanize_rate_scales_witness: "\<exists>i < 5. fst (humanize_rate 3000) * 1024 ^ i = 3000"
  using humanize_rate_scales [of 3000] by auto

text \<open>From 1024 TiB on the rate has been divided once more than the unit says: it is shown 1024 times too small.\<close>

lemma humanize_rate_overflow: "1024 ^ 5 \<le> r \<Longrightarrow> humanize_rate r = (r / 1024 ^ 5, units ! 4)"
  by (auto simp: humanize_cases units_def not_less)

text \<open>The argument of \<open>-c\<close> is read as it is written: a number, alone or with one of the three
  letters, gives that many octets, kibi-, mebi- or gibioctets (modulo \<open>2 ^ 64\<close>).\<close>

theorem parse_amount_reads_numbers:
  assumes "n < 2 ^ 64"
  shows "parse_amount (show_nat n) = Some (of_nat n)
    \<and> parse_amount (show_nat n @ ''K'') = Some (of_nat n * 1024)
    \<and> parse_amount (show_nat n @ ''M'') = Some (of_nat n * 1024 ^ 2)
    \<and> parse_amount (show_nat n @ ''G'') = Some (of_nat n * 1024 ^ 3)"
proof -
  have d: "c \<notin> set ''KMG''" if "c \<in> set (show_nat n)" for c
    using show_nat_digits [OF that] by (auto simp: is_digit_def)
  have tw: "takeWhile (\<lambda>c. c \<notin> set ''KMG'') (show_nat n @ cs) = show_nat n @ takeWhile (\<lambda>c. c \<notin> set ''KMG'') cs"
    and dw: "dropWhile (\<lambda>c. c \<notin> set ''KMG'') (show_nat n @ cs) = dropWhile (\<lambda>c. c \<notin> set ''KMG'') cs" for cs
    using d by (subst takeWhile_append2 dropWhile_append2; blast)+
  have pa: "parse_amount (show_nat n @ cs) = Some (of_nat n * (case cs of [] \<Rightarrow> 1 | c # _ \<Rightarrow> scale_of c))"
    if "cs = [] \<or> hd cs \<in> set ''KMG''" for cs
    using that scan_u64_show_nat [OF assms] unfolding parse_amount_def Let_def tw dw
    by (cases cs) auto
  show ?thesis
    using pa [of "[]"] pa [of "''K''"] pa [of "''M''"] pa [of "''G''"] by (simp add: scale_of_def)
qed

theorem parse_amount_reads_numbers_witness: "parse_amount (show_nat 5 @ ''K'') = Some 5120"
  using parse_amount_reads_numbers [of 5] by simp

end
