(* ===== verification/Bridge.thy ===== *)
theory Bridge
  imports Proactor
begin

text \<open>
  \<open>skupper-router/clients/amqp-tcp-bridge.c\<close>: accepts AMQP connections and forwards what
  arrives on their link to a TCP server, through a ring of buffers kept for each connection.

  The file does not compile as it stands. Five names are read as what they evidently stand for:
  the field \<open>slots\<close> of \<open>link_receive()\<close> (line 97) as \<open>buffers\<close>, \<open>amqp_connection\<close> (244) as the field
  \<open>amqp_conn\<close>, \<open>link\<close> in \<open>PN_LINK_REMOTE_OPEN\<close> (237, where only the function \<open>link()\<close> of \<open>unistd.h\<close> is in
  scope) as the link \<open>l\<close> of the event, \<open>pn_event_raw_connection(event)\<close> in the raw handler (307) as the
  context that \<open>connect_raw()\<close> attached to the raw connection of its argument \<open>e\<close>, and \<open>buffer_t\<close> (58, a
  \<open>typedef\<close> that names nothing, 47) as the struct of this name. Two more errors do not touch what the code
  means: the \<open>switch\<close> of the AMQP handler is closed one brace too early (295 to 300), so that its \<open>default\<close>,
  which does nothing, stands outside, and \<open>proactor_event_handler()\<close> (336), which only prints, declares its
  argument a \<open>pn_event_type *\<close>. \<open>if (pn_link_is_receiver)\<close> tests the address of a function and is read as
  written: it always holds.

  Pointers to endpoints are flags (not null), or the number of a link. What Proton answers comes
  with the event. A failed \<open>assert()\<close>, a null pointer that is used and a context used after it
  was freed stop the model.
\<close>

section \<open>State\<close>

definition SLOT_COUNT :: u32 where "SLOT_COUNT = 128"

definition BUF_SIZE :: nat where "BUF_SIZE = 4096"

record buffer =
  size_of :: nat
  data_of :: "u8 list"

datatype bridge_call =
    Amqp pn_call
  | RawConnect string
  | RawWrite u32 "u8 list"
  | RawWake
  | RawClose
  | ListenerAccept
  | ContextFree

record context_t =
  amqp_conn :: bool
  amqp_link :: "nat option"
  raw_conn :: bool
  producer_slot :: u32
  consumer_slot :: u32
  buffers :: "buffer list"
  freed :: bool
  log :: "bridge_call list"

definition add_calls :: "bridge_call list \<Rightarrow> context_t \<Rightarrow> context_t" where
  "add_calls cs c = c\<lparr>log := log c @ cs\<rparr>"

text \<open>\<open>calloc()\<close> of a context.\<close>

definition new_context :: context_t where
  "new_context = \<lparr>amqp_conn = False, amqp_link = None, raw_conn = False, producer_slot = 0, consumer_slot = 0,
     buffers = replicate 128 \<lparr>size_of = 0, data_of = replicate BUF_SIZE 0\<rparr>, freed = False, log = []\<rparr>"

section \<open>The ring\<close>

definition next_slot :: "u32 \<Rightarrow> u32" where
  "next_slot slot = (slot + 1) mod SLOT_COUNT"

definition slots_full :: "context_t \<Rightarrow> bool" where
  "slots_full c \<longleftrightarrow> next_slot (producer_slot c) = consumer_slot c"

definition slots_empty :: "context_t \<Rightarrow> bool" where
  "slots_empty c \<longleftrightarrow> producer_slot c = consumer_slot c"

text \<open>
  What a loop of \<open>link_receive()\<close> is told: each \<open>pn_link_recv()\<close> gives an error or bytes, and then
  \<open>pn_delivery_pending()\<close> a number. The bytes go to the front of the buffer.
\<close>

definition put_slot :: "u8 list \<Rightarrow> context_t \<Rightarrow> context_t" where
  "put_slot bs c =
     (let i = unat (producer_slot c)
      in c\<lparr>buffers := (buffers c)[i := \<lparr>size_of = length bs, data_of = bs @ drop (length bs) (data_of (buffers c ! i))\<rparr>],
           producer_slot := next_slot (producer_slot c)\<rparr>)"

fun link_receive :: "nat \<Rightarrow> ((int + u8 list) \<times> nat) list \<Rightarrow> context_t \<Rightarrow> halt + nat \<times> context_t" where
  "link_receive pending rs c =
     (if slots_full c \<or> pending = 0 then Inr (0, c)
      else case rs of
             [] \<Rightarrow> Inl Hang
           | (Inl err, pending) # rs \<Rightarrow> Inr (0, c)
           | (Inr bs, pending) # rs \<Rightarrow>
               if bs = [] then Inr (0, c)
               else bnd (link_receive pending rs (put_slot bs c)) (\<lambda>(w, c). Inr (w + 1, c)))"

declare link_receive.simps [simp del]

text \<open>\<open>raw_write_drain()\<close>: the slots of the buffers Proton gives back as written, in this order.\<close>

fun drain_slots :: "u32 list \<Rightarrow> context_t \<Rightarrow> halt + nat \<times> context_t" where
  "drain_slots [] c = Inr (0, c)"
| "drain_slots (my_slot # ws) c =
     (if my_slot \<noteq> consumer_slot c then Inl Abort
      else bnd (drain_slots ws (c\<lparr>consumer_slot := next_slot (consumer_slot c)\<rparr>)) (\<lambda>(n, c). Inr (n + 1, c)))"

definition raw_write_drain :: "u32 list \<Rightarrow> context_t \<Rightarrow> halt + nat \<times> context_t" where
  "raw_write_drain ws c = (if \<not> raw_conn c then Inl Abort else drain_slots ws c)"

text \<open>\<open>raw_send()\<close>: \<open>avail\<close> is \<open>pn_raw_connection_write_buffers_capacity()\<close>.\<close>

definition slot_bytes :: "context_t \<Rightarrow> u32 \<Rightarrow> u8 list" where
  "slot_bytes c slot = (let b = buffers c ! unat slot in take (size_of b) (data_of b))"

fun send_slots :: "nat \<Rightarrow> u32 \<Rightarrow> context_t \<Rightarrow> nat \<times> context_t" where
  "send_slots 0 slot c = (0, c)"
| "send_slots (Suc avail) slot c =
     (if slot = producer_slot c then (0, c)
      else let (w, c) = send_slots avail (next_slot slot) (add_calls [RawWrite slot (slot_bytes c slot)] c)
           in (w + 1, c))"

definition raw_send :: "nat \<Rightarrow> context_t \<Rightarrow> nat \<times> context_t" where
  "raw_send avail c = send_slots avail (consumer_slot c) c"

definition connect_raw :: "string \<Rightarrow> context_t \<Rightarrow> context_t" where
  "connect_raw server c = add_calls [RawConnect server] (c\<lparr>raw_conn := True\<rparr>)"

section \<open>The program's state\<close>

text \<open>Contexts are numbered in the order the listener accepted them.\<close>

record bridge =
  stop :: bool
  listener_address :: string
  server_address :: string
  container_name :: string
  credit_window :: int
  sig_ign :: bool
  interrupts :: nat
  contexts :: "context_t list"

definition bridge_globals :: bridge where
  "bridge_globals = \<lparr>stop = False, listener_address = ''0.0.0.0:5672'', server_address = ''localhost:20002'',
     container_name = ''AmqpTcpBridge'', credit_window = 1000, sig_ign = False, interrupts = 0, contexts = []\<rparr>"

definition br_signal_handler :: "signal \<Rightarrow> bridge \<Rightarrow> bridge" where
  "br_signal_handler sig s =
     (if sig_ign s then s
      else let s = s\<lparr>sig_ign := True\<rparr> in
        if sig = SIGOTHER then s else s\<lparr>stop := True, interrupts := interrupts s + 1\<rparr>)"

section \<open>The handlers\<close>

datatype listener_event = L_OPEN | L_ACCEPT | L_CLOSE | L_OTHER

definition listener_event_handler :: "bridge \<Rightarrow> listener_event \<Rightarrow> bridge" where
  "listener_event_handler s e =
     (case e of
        L_ACCEPT \<Rightarrow> s\<lparr>contexts := contexts s @ [add_calls [ListenerAccept] (new_context\<lparr>amqp_conn := True\<rparr>)]\<rparr>
      | _ \<Rightarrow> s)"

text \<open>
  What the shared code of \<open>PN_DELIVERY\<close> and \<open>PN_CONNECTION_WAKE\<close> asks of the current delivery:
  the bytes pending, the slots written to TCP meanwhile, the answers of the receive loop, whether
  anything is pending after it, and whether the delivery is partial.
\<close>

record current_dlv =
  pending :: nat
  written :: "u32 list"
  recvs :: "((int + u8 list) \<times> nat) list"
  pending_after :: bool
  partial :: bool

datatype amqp_event =
    A_CONNECTION_INIT
  | A_CONNECTION_REMOTE_OPEN
  | A_SESSION_REMOTE_OPEN
  | A_LINK_REMOTE_OPEN nat string
  | A_CONNECTION_REMOTE_CLOSE
  | A_SESSION_REMOTE_CLOSE
  | A_LINK_REMOTE_CLOSE nat
  | A_LINK_FLOW
  | A_DELIVERY bool "current_dlv option"
  | A_CONNECTION_WAKE "current_dlv option"
  | A_OTHER

definition amqp_link_remote_open :: "bridge \<Rightarrow> nat \<Rightarrow> string \<Rightarrow> context_t \<Rightarrow> context_t" where
  "amqp_link_remote_open g l target c =
     (let c = (if amqp_link c \<noteq> None
               then add_calls [Amqp (OnLink l PnLinkOpen), Amqp (OnLink l PnLinkClose)] c else c);
          c = add_calls [Amqp (OnLink l (PnSetTarget target)), Amqp (OnLink l (PnLinkFlow (credit_window g))),
                         Amqp (OnLink l PnLinkOpen)] c
      in connect_raw (server_address g) (c\<lparr>amqp_link := Some l\<rparr>))"

definition amqp_connection_close :: "context_t \<Rightarrow> context_t" where
  "amqp_connection_close c =
     (let c = add_calls [Amqp PnConnectionClose] (c\<lparr>amqp_conn := False\<rparr>)
      in if \<not> raw_conn c then add_calls [ContextFree] (c\<lparr>freed := True\<rparr>) else c)"

definition amqp_read :: "current_dlv \<Rightarrow> context_t \<Rightarrow> halt + nat \<times> context_t" where
  "amqp_read d c =
     (if pending d \<noteq> 0
      then bnd (if raw_conn c then raw_write_drain (written d) c else Inr (0, c)) (\<lambda>(_, c).
           link_receive (pending d) (recvs d) c)
      else Inr (0, c))"

definition amqp_delivery :: "current_dlv option \<Rightarrow> context_t \<Rightarrow> halt + context_t" where
  "amqp_delivery d c =
     (case amqp_link c of
        None \<Rightarrow> Inr c
      | Some l \<Rightarrow>
          (case d of
             None \<Rightarrow> Inl Abort
           | Some d \<Rightarrow>
               bnd (amqp_read d c) (\<lambda>(w, c).
               let c = (if w \<noteq> 0 \<and> raw_conn c then add_calls [RawWake] c else c)
               in Inr (if \<not> pending_after d \<and> \<not> partial d
                       then add_calls [Amqp (PnUpdate PN_ACCEPTED), Amqp PnSettle, Amqp (OnLink l (PnLinkFlow 1))] c
                       else c))))"

fun amqp_event_handler :: "bridge \<Rightarrow> context_t \<Rightarrow> amqp_event \<Rightarrow> halt + context_t" where
  "amqp_event_handler g c A_CONNECTION_INIT = Inr (add_calls [Amqp (PnSetContainer (container_name g))] c)"
| "amqp_event_handler g c A_CONNECTION_REMOTE_OPEN = Inr (add_calls [Amqp PnConnectionOpen] c)"
| "amqp_event_handler g c A_SESSION_REMOTE_OPEN = Inr (add_calls [Amqp PnSessionOpen] c)"
| "amqp_event_handler g c (A_LINK_REMOTE_OPEN l target) = Inr (amqp_link_remote_open g l target c)"
| "amqp_event_handler g c A_CONNECTION_REMOTE_CLOSE = Inr (amqp_connection_close c)"
| "amqp_event_handler g c A_SESSION_REMOTE_CLOSE = Inr (add_calls [Amqp PnSessionClose, Amqp PnSessionFree] c)"
| "amqp_event_handler g c (A_LINK_REMOTE_CLOSE l) =
     Inr (add_calls [Amqp (OnLink l PnLinkClose), Amqp (OnLink l PnLinkFree)] (c\<lparr>amqp_link := None\<rparr>))"
| "amqp_event_handler g c A_LINK_FLOW = Inr c"
| "amqp_event_handler g c (A_DELIVERY is_current d) = (if \<not> is_current then Inl Abort else amqp_delivery d c)"
| "amqp_event_handler g c (A_CONNECTION_WAKE d) = amqp_delivery d c"
| "amqp_event_handler g c A_OTHER = Inr c"

datatype raw_event = R_DISCONNECTED | R_EVENT "u32 list" nat

definition raw_disconnected :: "context_t \<Rightarrow> context_t" where
  "raw_disconnected c =
     (let c = c\<lparr>raw_conn := False\<rparr>
      in if \<not> amqp_conn c then add_calls [ContextFree] (c\<lparr>freed := True\<rparr>)
         else add_calls [Amqp PnConnectionClose] c)"

fun raw_event_handler :: "context_t \<Rightarrow> raw_event \<Rightarrow> halt + context_t" where
  "raw_event_handler c R_DISCONNECTED = Inr (raw_disconnected c)"
| "raw_event_handler c (R_EVENT ws avail) =
     (let was_full = slots_full c in
      bnd (raw_write_drain ws c) (\<lambda>(_, c).
      let c = snd (raw_send avail c)
      in Inr (if slots_empty c \<and> amqp_link c = None then add_calls [RawClose] c
              else if was_full \<and> \<not> slots_full c \<and> amqp_conn c then add_calls [Amqp PnConnectionWake] c
              else c)))"

section \<open>\<open>main\<close>\<close>

datatype bridge_event =
    B_LISTENER listener_event
  | B_AMQP nat amqp_event
  | B_RAW nat raw_event
  | B_PROACTOR
  | B_SIGNAL signal

text \<open>An event of a context that was never made or has been freed is a use of a dead pointer.\<close>

definition on_context :: "nat \<Rightarrow> (context_t \<Rightarrow> halt + context_t) \<Rightarrow> bridge \<Rightarrow> halt + bridge" where
  "on_context i f s =
     (if i < length (contexts s) \<and> \<not> freed (contexts s ! i)
      then bnd (f (contexts s ! i)) (\<lambda>c. Inr (s\<lparr>contexts := (contexts s)[i := c]\<rparr>))
      else Inl Abort)"

fun bridge_handler :: "bridge \<Rightarrow> bridge_event \<Rightarrow> halt + bridge" where
  "bridge_handler s (B_LISTENER e) = Inr (listener_event_handler s e)"
| "bridge_handler s (B_AMQP i e) = on_context i (\<lambda>c. amqp_event_handler s c e) s"
| "bridge_handler s (B_RAW i e) = on_context i (\<lambda>c. raw_event_handler c e) s"
| "bridge_handler s B_PROACTOR = Inr s"
| "bridge_handler s (B_SIGNAL sig) = Inr (br_signal_handler sig s)"

definition br_option :: "opt \<Rightarrow> bridge \<Rightarrow> halt + bridge" where
  "br_option p s =
     (case p of (c, optarg) \<Rightarrow>
      if c = CHR ''h'' then usage
      else if c = CHR ''a'' then Inr (s\<lparr>listener_address := optarg\<rparr>)
      else if c = CHR ''i'' then Inr (s\<lparr>container_name := optarg\<rparr>)
      else if c = CHR ''s'' then Inr (s\<lparr>server_address := optarg\<rparr>)
      else usage)"

text \<open>The loop runs a batch at a time until a batch leaves the program stopped.\<close>

fun bridge_loop :: "bridge \<Rightarrow> bridge_event list list \<Rightarrow> halt + bool \<times> bridge" where
  "bridge_loop s [] = Inr (False, s)"
| "bridge_loop s (es # ess) =
     bnd (run bridge_handler s es) (\<lambda>s. if stop s then Inr (True, s) else bridge_loop s ess)"

definition bridge_main :: "opt list \<Rightarrow> bridge_event list list \<Rightarrow> halt + bool \<times> bridge" where
  "bridge_main opts ess = bnd (parse_opts br_option opts bridge_globals) (\<lambda>s. bridge_loop s ess)"

section \<open>The ring as a queue\<close>

text \<open>
  The ring stands for the list of the chunks between its two indices, oldest first. One slot
  always stays free, so it holds at most 127.
\<close>

definition ring_ok :: "context_t \<Rightarrow> bool" where
  "ring_ok c \<longleftrightarrow> unat (producer_slot c) < 128 \<and> unat (consumer_slot c) < 128 \<and> length (buffers c) = 128
     \<and> (\<forall>b \<in> set (buffers c). size_of b \<le> BUF_SIZE \<and> length (data_of b) = BUF_SIZE)"

definition used :: "context_t \<Rightarrow> nat" where
  "used c = (unat (producer_slot c) + 128 - unat (consumer_slot c)) mod 128"

definition nth_bytes :: "buffer list \<Rightarrow> nat \<Rightarrow> u8 list" where
  "nth_bytes bs i = take (size_of (bs ! i)) (data_of (bs ! i))"

definition chunks :: "context_t \<Rightarrow> u8 list list" where
  "chunks c = map (\<lambda>i. nth_bytes (buffers c) ((unat (consumer_slot c) + i) mod 128)) [0..<used c]"

lemma length_chunks [simp]: "length (chunks c) = used c"
  by (simp add: chunks_def)

lemma used_less [simp]: "used c < 128"
  by (simp add: used_def)

lemma unat_next_slot: "unat s < 128 \<Longrightarrow> unat (next_slot s) = (unat s + 1) mod 128"
  by (simp add: next_slot_def SLOT_COUNT_def unat_mod unat_word_ariths)

lemma mod_128_cases: "a < 256 \<Longrightarrow> a mod 128 = (if a < 128 then a else a - (128 :: nat))"
  by (auto simp: mod_if)

lemma ring_okD:
  assumes "ring_ok c"
  shows "unat (producer_slot c) < 128" "unat (consumer_slot c) < 128" "length (buffers c) = 128"
  using assms by (simp_all add: ring_ok_def)

lemma used_cases:
  assumes "ring_ok c"
  shows "used c = (if unat (consumer_slot c) \<le> unat (producer_slot c)
    then unat (producer_slot c) - unat (consumer_slot c)
    else unat (producer_slot c) + 128 - unat (consumer_slot c))"
  using ring_okD [OF assms] by (auto simp: used_def mod_if)

lemma slots_full_used:
  assumes "ring_ok c"
  shows "slots_full c \<longleftrightarrow> used c = 127"
  using ring_okD [OF assms] unfolding used_cases [OF assms] slots_full_def word_unat_eq_iff
  by (auto simp: unat_next_slot mod_128_cases)

lemma slots_empty_used:
  assumes "ring_ok c"
  shows "slots_empty c \<longleftrightarrow> used c = 0"
  using ring_okD [OF assms] unfolding used_cases [OF assms] slots_empty_def word_unat_eq_iff by auto

lemma used_index:
  assumes "p < 128" and "q < 128" and "i < 128" and "i \<noteq> (p + 128 - q) mod 128"
  shows "(q + i) mod 128 \<noteq> (p :: nat)"
  using assms by (auto simp: mod_128_cases split: if_splits)

lemma used_put:
  assumes "ring_ok c" and "\<not> slots_full c"
  shows "used (put_slot bs c) = Suc (used c)"
proof -
  have "used c < 127" using assms slots_full_used [OF assms(1)] used_less [of c] by linarith
  then show ?thesis using ring_okD [OF assms(1)]
    by (auto simp: used_def put_slot_def Let_def unat_next_slot mod_128_cases split: if_splits)
qed

lemma ring_ok_put:
  assumes "ring_ok c" and "length bs \<le> BUF_SIZE"
  shows "ring_ok (put_slot bs c)"
proof -
  note r = ring_okD [OF assms(1)]
  have "length (data_of (buffers c ! unat (producer_slot c))) = BUF_SIZE"
    using assms(1) r by (auto simp: ring_ok_def)
  then show ?thesis using assms r
    by (auto simp: ring_ok_def put_slot_def Let_def unat_next_slot dest!: set_update_subset_insert [THEN subsetD])
qed

lemma chunks_put:
  assumes "ring_ok c" and "\<not> slots_full c"
  shows "chunks (put_slot bs c) = chunks c @ [bs]"
proof -
  note r = ring_okD [OF assms(1)]
  let ?p = "unat (producer_slot c)" and ?q = "unat (consumer_slot c)"
  have b: "buffers (put_slot bs c) = (buffers c)[?p := \<lparr>size_of = length bs,
      data_of = bs @ drop (length bs) (data_of (buffers c ! ?p))\<rparr>]" "consumer_slot (put_slot bs c) = consumer_slot c"
    by (simp_all add: put_slot_def Let_def)
  have "(?q + i) mod 128 \<noteq> ?p" if "i < used c" for i
    using used_index [OF r(1,2), of i] that used_less [of c] by (simp add: used_def)
  then have old: "nth_bytes (buffers (put_slot bs c)) ((?q + i) mod 128) = nth_bytes (buffers c) ((?q + i) mod 128)"
    if "i < used c" for i unfolding b nth_bytes_def using that by (metis nth_list_update_neq)
  have "(?q + used c) mod 128 = ?p" using r by (auto simp: used_def mod_128_cases split: if_splits)
  then have "nth_bytes (buffers (put_slot bs c)) ((?q + used c) mod 128) = bs"
    using r by (simp add: b nth_bytes_def)
  then show ?thesis using old by (simp add: chunks_def used_put [OF assms] b(2))
qed

text \<open>Releasing the oldest slot.\<close>

definition release :: "context_t \<Rightarrow> context_t" where
  "release c = c\<lparr>consumer_slot := next_slot (consumer_slot c)\<rparr>"

lemma release:
  assumes "ring_ok c"
  shows "ring_ok (release c)"
    and "used c \<noteq> 0 \<Longrightarrow> used (release c) = used c - 1"
    and "used c \<noteq> 0 \<Longrightarrow> chunks (release c) = tl (chunks c)"
proof -
  note r = ring_okD [OF assms]
  show "ring_ok (release c)" using assms r by (auto simp: ring_ok_def release_def unat_next_slot)
  show u: "used (release c) = used c - 1" if "used c \<noteq> 0"
    using that r by (auto simp: used_def release_def unat_next_slot mod_128_cases split: if_splits)
  have "((unat (consumer_slot c) + 1) mod 128 + i) mod 128 = (unat (consumer_slot c) + Suc i) mod 128" for i
    by (simp add: mod_simps)
  then show "chunks (release c) = tl (chunks c)" if "used c \<noteq> 0"
    using that r u [OF that]
    by (auto simp: chunks_def release_def unat_next_slot map_tl [symmetric] tl_upt intro!: nth_equalityI)
qed


section \<open>The operations on the queue\<close>

lemma add_calls_ring [simp]:
  "ring_ok (add_calls cs c) = ring_ok c" "used (add_calls cs c) = used c" "chunks (add_calls cs c) = chunks c"
  "slot_bytes (add_calls cs c) = slot_bytes c" "producer_slot (add_calls cs c) = producer_slot c"
  "consumer_slot (add_calls cs c) = consumer_slot c" "buffers (add_calls cs c) = buffers c"
  "log (add_calls cs c) = log c @ cs" "raw_conn (add_calls cs c) = raw_conn c"
  "amqp_link (add_calls cs c) = amqp_link c" "amqp_conn (add_calls cs c) = amqp_conn c"
  "freed (add_calls cs c) = freed c" "add_calls [] c = c"
  by (simp_all add: add_calls_def ring_ok_def used_def chunks_def slot_bytes_def fun_eq_iff)

lemma slots_full_add_calls [simp]: "slots_full (add_calls cs c) = slots_full c"
  by (simp add: slots_full_def)

text \<open>What the receive loop is given: the bytes of each \<open>pn_link_recv()\<close>, at most a buffer full.\<close>

definition fits :: "((int + u8 list) \<times> nat) list \<Rightarrow> bool" where
  "fits rs \<longleftrightarrow> (\<forall>(r, p) \<in> set rs. case r of Inl err \<Rightarrow> True | Inr bs \<Rightarrow> length bs \<le> BUF_SIZE)"

definition payloads :: "((int + u8 list) \<times> nat) list \<Rightarrow> u8 list list" where
  "payloads rs = map (\<lambda>(r, p). projr r) rs"

lemma link_receive_chunks:
  assumes "link_receive n rs c = Inr (w, c')" and "ring_ok c" and "fits rs"
  shows "ring_ok c' \<and> chunks c' = chunks c @ payloads (take w rs) \<and> w \<le> length rs \<and> log c' = log c"
  using assms
proof (induction n rs c arbitrary: w c' rule: link_receive.induct)
  case (1 n rs c)
  show ?case
  proof (cases "slots_full c \<or> n = 0")
    case True
    then show ?thesis using 1 by (simp add: link_receive.simps payloads_def)
  next
    case False
    then obtain r p rs' where rs: "rs = (r, p) # rs'"
      using "1.prems"(1) by (cases rs) (auto simp: link_receive.simps)
    show ?thesis
    proof (cases "\<exists>bs. r = Inr bs \<and> bs \<noteq> []")
      case False
      then show ?thesis using \<open>\<not> (slots_full c \<or> n = 0)\<close> "1.prems" rs
        by (cases r) (auto simp: link_receive.simps payloads_def)
    next
      case True
      then obtain bs where bs: "r = Inr bs" "bs \<noteq> []" by blast
      then obtain v where v: "link_receive p rs' (put_slot bs c) = Inr (v, c')" "w = Suc v"
        using "1.prems"(1) False rs by (subst (asm) link_receive.simps) (auto simp: bnd_eq_Inr)
      have "length bs \<le> BUF_SIZE" "fits rs'" using "1.prems"(3) rs bs by (auto simp: fits_def)
      then have "ring_ok c' \<and> chunks c' = chunks (put_slot bs c) @ payloads (take v rs') \<and> v \<le> length rs'
          \<and> log c' = log (put_slot bs c)"
        using "1.IH" False rs bs v(1) ring_ok_put [OF "1.prems"(2)] by blast
      then show ?thesis using chunks_put [OF "1.prems"(2)] False rs bs v(2)
        by (simp add: payloads_def put_slot_def Let_def)
    qed
  qed
qed

lemma drain_slots_chunks:
  assumes "drain_slots ws c = Inr (n, c')" and "ring_ok c"
  shows "ring_ok c' \<and> n = length ws \<and> log c' = log c \<and> (length ws \<le> used c \<longrightarrow> chunks c' = drop n (chunks c))"
  using assms
proof (induction ws c arbitrary: n c' rule: drain_slots.induct)
  case (2 w ws c)
  then have w: "w = consumer_slot c" by (auto split: if_splits)
  then obtain m where m: "drain_slots ws (release c) = Inr (m, c')" "n = Suc m"
    using "2.prems"(1) by (auto simp: bnd_eq_Inr release_def)
  have i: "ring_ok c' \<and> m = length ws \<and> log c' = log (release c)
      \<and> (length ws \<le> used (release c) \<longrightarrow> chunks c' = drop m (chunks (release c)))"
    using "2.IH" w m(1) release(1) [OF "2.prems"(2)] by (simp add: release_def)
  then show ?case using release(2,3) [OF "2.prems"(2)] m(2)
    by (auto simp: release_def drop_Suc)
qed simp

text \<open>The chunks offered to the TCP side so far.\<close>

fun offers :: "bridge_call list \<Rightarrow> u8 list list" where
  "offers [] = []"
| "offers (RawWrite slot bs # cs) = bs # offers cs"
| "offers (c # cs) = offers cs"

lemma offers_append [simp]: "offers (xs @ ys) = offers xs @ offers ys"
  by (induction xs rule: offers.induct) simp_all

lemma send_slots_offers:
  assumes "ring_ok c" and "unat slot = (unat (consumer_slot c) + k) mod 128" and "k \<le> used c"
  shows "\<exists>cs. send_slots avail slot c = (min avail (used c - k), add_calls cs c)
    \<and> offers cs = take avail (drop k (chunks c))"
  using assms
proof (induction avail slot c arbitrary: k rule: send_slots.induct)
  case (1 slot c)
  have "send_slots 0 slot c = (min 0 (used c - k), add_calls [] c)" by simp
  then show ?case by (intro exI [of _ "[]"]) simp
next
  case (2 avail slot c)
  note r = ring_okD [OF "2.prems"(1)]
  have p: "slot = producer_slot c \<longleftrightarrow> k = used c"
    using r "2.prems"(2,3) used_less [of c] unfolding used_cases [OF "2.prems"(1)] word_unat_eq_iff
    by (auto simp: mod_128_cases split: if_splits)
  show ?case
  proof (cases "k = used c")
    case True
    then have "send_slots (Suc avail) slot c = (min (Suc avail) (used c - k), add_calls [] c)" using p by simp
    then show ?thesis using True by (intro exI [of _ "[]"]) simp
  next
    case False
    let ?c = "add_calls [RawWrite slot (slot_bytes c slot)] c"
    have s: "unat slot < 128" using "2.prems"(2) by simp
    have "unat (next_slot slot) = (unat (consumer_slot ?c) + Suc k) mod 128"
      unfolding unat_next_slot [OF s] by (simp add: "2.prems"(2) mod_simps)
    then obtain cs where cs: "send_slots avail (next_slot slot) ?c = (min avail (used c - Suc k), add_calls cs ?c)"
        "offers cs = take avail (drop (Suc k) (chunks c))"
      using "2.IH" [of "Suc k"] False p "2.prems" by auto
    have "slot_bytes c slot = chunks c ! k"
      using "2.prems"(2,3) False by (simp add: chunks_def slot_bytes_def nth_bytes_def Let_def)
    then have "offers (RawWrite slot (slot_bytes c slot) # cs) = take (Suc avail) (drop k (chunks c))"
      using cs(2) False "2.prems"(3) by (subst Cons_nth_drop_Suc [symmetric]) simp_all
    moreover have "send_slots (Suc avail) slot c
        = (min (Suc avail) (used c - k), add_calls (RawWrite slot (slot_bytes c slot) # cs) c)"
      using cs(1) False p "2.prems"(3) by (auto simp: Let_def add_calls_def)
    ultimately show ?thesis by blast
  qed
qed

lemma raw_send_offers:
  assumes "ring_ok c"
  obtains cs where "raw_send avail c = (min avail (used c), add_calls cs c)" and "offers cs = take avail (chunks c)"
proof -
  have "unat (consumer_slot c) = (unat (consumer_slot c) + 0) mod 128" using ring_okD [OF assms] by simp
  from send_slots_offers [OF assms this] show ?thesis using that by (auto simp: raw_send_def)
qed

section \<open>What goes in comes out\<close>

text \<open>
  A step of a queue takes some chunks in and gives some out; \<open>traced\<close> is any number of steps with
  all that went in and came out. A queue conserves its chunks if every step does.
\<close>

inductive traced :: "('s \<Rightarrow> 'a list \<Rightarrow> 'a list \<Rightarrow> 's \<Rightarrow> bool) \<Rightarrow> 's \<Rightarrow> 'a list \<Rightarrow> 'a list \<Rightarrow> 's \<Rightarrow> bool"
  for step where
  start: "traced step s [] [] s"
| more: "traced step s is os t \<Longrightarrow> step t i' o' u \<Longrightarrow> traced step s (is @ i') (os @ o') u"

lemma traced_one: "step s i o' t \<Longrightarrow> traced step s i o' t"
  using traced.more [of step s "[]" "[]" s i o' t] by (simp add: traced.start)

locale conserving_queue =
  fixes step :: "'s \<Rightarrow> 'a list \<Rightarrow> 'a list \<Rightarrow> 's \<Rightarrow> bool"
    and inv :: "'s \<Rightarrow> bool"
    and content :: "'s \<Rightarrow> 'a list"
  assumes step_keeps: "step s i o' t \<Longrightarrow> inv s \<Longrightarrow> inv t"
    and step_conserves: "step s i o' t \<Longrightarrow> inv s \<Longrightarrow> content s @ i = o' @ content t"
begin

lemma traced_conserves:
  assumes "traced step s is os t" and "inv s"
  shows "inv t \<and> content s @ is = os @ content t"
  using assms
proof (induction rule: traced.induct)
  case (more s "is" os t i' o' u)
  then have "inv t" "content s @ is = os @ content t" by auto
  moreover have "content t @ i' = o' @ content u" using step_conserves [OF more.hyps(2)] \<open>inv t\<close> by blast
  ultimately have "content s @ is @ i' = os @ o' @ content u" by (metis append.assoc)
  then show ?case using step_keeps [OF more.hyps(2) \<open>inv t\<close>] by simp
qed simp

end

text \<open>
  The steps of the ring, seen from the link to the slots released: a run of the receive loop, a
  run of the drain loop that gives back slots in use, an offer to TCP.
\<close>

inductive ring_step :: "context_t \<Rightarrow> u8 list list \<Rightarrow> u8 list list \<Rightarrow> context_t \<Rightarrow> bool" where
  receive: "link_receive n rs c = Inr (w, c') \<Longrightarrow> fits rs \<Longrightarrow> ring_step c (payloads (take w rs)) [] c'"
| drain: "raw_write_drain ws c = Inr (n, c') \<Longrightarrow> length ws \<le> used c \<Longrightarrow> ring_step c [] (take n (chunks c)) c'"
| send: "ring_step c [] [] (snd (raw_send avail c))"

lemma raw_write_drain_chunks:
  assumes "raw_write_drain ws c = Inr (n, c')" and "ring_ok c"
  shows "ring_ok c' \<and> n = length ws \<and> log c' = log c \<and> (length ws \<le> used c \<longrightarrow> chunks c' = drop n (chunks c))"
  using assms drain_slots_chunks by (auto simp: raw_write_drain_def split: if_splits)

lemma ring_step_conserves:
  assumes "ring_step c i o' c'" and "ring_ok c"
  shows "ring_ok c' \<and> chunks c @ i = o' @ chunks c'"
  using assms(1)
proof (cases rule: ring_step.cases)
  case (receive n rs w)
  then show ?thesis using link_receive_chunks assms(2) by auto
next
  case (drain ws n)
  then have "ring_ok c'" "chunks c' = drop n (chunks c)" using raw_write_drain_chunks assms(2) by auto
  then show ?thesis using drain by simp
next
  case (send avail)
  obtain cs where "raw_send avail c = (min avail (used c), add_calls cs c)" using raw_send_offers [OF assms(2)] by metis
  then show ?thesis using send assms(2) by simp
qed

interpretation ring: conserving_queue ring_step ring_ok chunks
  by unfold_locales (auto dest: ring_step_conserves)

text \<open>
  The steps of a connection, seen from its link to what is offered to TCP, with the number of slots
  offered and not yet given back: an AMQP event that reads the current delivery and gives back some
  slots, any other AMQP event, and an event of the TCP connection. This one must give back all
  slots offered, for \<open>raw_send()\<close> starts again at the consumer's slot.
\<close>

fun current_of :: "amqp_event \<Rightarrow> current_dlv option" where
  "current_of (A_DELIVERY b d) = d"
| "current_of (A_CONNECTION_WAKE d) = d"
| "current_of e = None"

definition given_back :: "current_dlv \<Rightarrow> context_t \<Rightarrow> nat" where
  "given_back d c = (if pending d \<noteq> 0 \<and> raw_conn c then length (written d) else 0)"

inductive conn_step :: "bridge \<Rightarrow> context_t \<times> nat \<Rightarrow> u8 list list \<Rightarrow> u8 list list \<Rightarrow> context_t \<times> nat \<Rightarrow> bool"
  for g where
  reads: "amqp_event_handler g c e = Inr c' \<Longrightarrow> current_of e = Some d \<Longrightarrow> amqp_link c \<noteq> None \<Longrightarrow>
     amqp_read d c = Inr (w, t) \<Longrightarrow> fits (recvs d) \<Longrightarrow> given_back d c \<le> k \<Longrightarrow>
     conn_step g (c, k) (payloads (take w (recvs d))) [] (c', k - given_back d c)"
| other: "amqp_event_handler g c e = Inr c' \<Longrightarrow> current_of e = None \<or> amqp_link c = None \<Longrightarrow>
     conn_step g (c, k) [] [] (c', k)"
| tcp: "raw_event_handler c (R_EVENT ws avail) = Inr c' \<Longrightarrow> length ws = k \<Longrightarrow> log c' = log c @ cs \<Longrightarrow>
     conn_step g (c, k) [] (offers cs) (c', min avail (used c'))"

definition offer_inv :: "context_t \<times> nat \<Rightarrow> bool" where
  "offer_inv s = (case s of (c, k) \<Rightarrow> ring_ok c \<and> k \<le> used c)"

text \<open>The chunks not yet offered.\<close>

definition unoffered :: "context_t \<times> nat \<Rightarrow> u8 list list" where
  "unoffered s = (case s of (c, k) \<Rightarrow> drop k (chunks c))"

lemma ring_upd [simp]:
  "ring_ok (c\<lparr>amqp_conn := a\<rparr>) = ring_ok c" "ring_ok (c\<lparr>amqp_link := l\<rparr>) = ring_ok c"
  "ring_ok (c\<lparr>raw_conn := r\<rparr>) = ring_ok c" "ring_ok (c\<lparr>freed := f\<rparr>) = ring_ok c"
  "chunks (c\<lparr>amqp_conn := a\<rparr>) = chunks c" "chunks (c\<lparr>amqp_link := l\<rparr>) = chunks c"
  "chunks (c\<lparr>raw_conn := r\<rparr>) = chunks c" "chunks (c\<lparr>freed := f\<rparr>) = chunks c"
  "used (c\<lparr>amqp_conn := a\<rparr>) = used c" "used (c\<lparr>amqp_link := l\<rparr>) = used c"
  "used (c\<lparr>raw_conn := r\<rparr>) = used c" "used (c\<lparr>freed := f\<rparr>) = used c"
  by (simp_all add: ring_ok_def chunks_def used_def)

lemma amqp_read_chunks:
  assumes "amqp_read d c = Inr (w, t)" and "ring_ok c" and "fits (recvs d)" and "given_back d c \<le> used c"
  shows "ring_ok t \<and> chunks t = drop (given_back d c) (chunks c) @ payloads (take w (recvs d))"
proof (cases "pending d = 0")
  case True
  then show ?thesis using assms by (simp add: amqp_read_def given_back_def payloads_def)
next
  case False
  then obtain n u where u: "(if raw_conn c then raw_write_drain (written d) c else Inr (0, c)) = Inr (n, u)"
      "link_receive (pending d) (recvs d) u = Inr (w, t)"
    using assms(1) by (auto simp: amqp_read_def bnd_eq_Inr)
  have "ring_ok u \<and> chunks u = drop (given_back d c) (chunks c)"
    using u(1) assms(2,4) False raw_write_drain_chunks by (auto simp: given_back_def split: if_splits)
  then show ?thesis using link_receive_chunks [OF u(2)] assms(3) by simp
qed

lemma amqp_delivery_reads:
  assumes "amqp_delivery (Some d) c = Inr c'" and "amqp_link c \<noteq> None" and "amqp_read d c = Inr (w, t)"
  shows "ring_ok c' = ring_ok t \<and> chunks c' = chunks t \<and> used c' = used t"
  using assms by (auto simp: amqp_delivery_def Let_def split: if_splits)

lemma amqp_other_ring:
  assumes "amqp_event_handler g c e = Inr c'" and "current_of e = None \<or> amqp_link c = None"
  shows "ring_ok c' = ring_ok c \<and> chunks c' = chunks c \<and> used c' = used c"
  using assms
  by (cases e) (auto simp: amqp_delivery_def amqp_link_remote_open_def amqp_connection_close_def connect_raw_def
      Let_def split: if_splits option.splits)

lemma raw_event_ring:
  assumes "raw_event_handler c (R_EVENT ws avail) = Inr c'" and "ring_ok c" and "length ws \<le> used c"
    and "log c' = log c @ cs"
  shows "ring_ok c' \<and> chunks c' = drop (length ws) (chunks c) \<and> offers cs = take avail (chunks c')"
proof -
  obtain n t where t: "raw_write_drain ws c = Inr (n, t)"
    "c' = (let u = snd (raw_send avail t) in
       if slots_empty u \<and> amqp_link u = None then add_calls [RawClose] u
       else if slots_full c \<and> \<not> slots_full u \<and> amqp_conn u then add_calls [Amqp PnConnectionWake] u else u)"
    using assms(1) by (auto simp: bnd_eq_Inr Let_def)
  have r: "ring_ok t" "log t = log c" "chunks t = drop (length ws) (chunks c)"
    using raw_write_drain_chunks [OF t(1) assms(2)] assms(3) by auto
  obtain ds where ds: "snd (raw_send avail t) = add_calls ds t" "offers ds = take avail (chunks t)"
    using raw_send_offers [OF r(1)] by (metis snd_conv)
  define u where "u = add_calls ds t"
  define es where "es = (if slots_empty u \<and> amqp_link u = None then [RawClose]
     else if slots_full c \<and> \<not> slots_full u \<and> amqp_conn u then [Amqp PnConnectionWake] else [])"
  have "c' = add_calls es (add_calls ds t)" using t(2) ds(1) by (simp add: es_def u_def Let_def)
  moreover have "offers es = []" by (simp add: es_def)
  ultimately show ?thesis using r ds assms(4) by auto
qed

lemma conn_step_conserves:
  assumes "conn_step g s i o' t" and "offer_inv s"
  shows "offer_inv t \<and> unoffered s @ i = o' @ unoffered t"
  using assms(1)
proof (cases rule: conn_step.cases)
  case (reads c e c' d w u k)
  then have s: "ring_ok c" "k \<le> used c" using assms(2) by (auto simp: offer_inv_def)
  have "amqp_delivery (Some d) c = Inr c'" using reads by (cases e) (auto split: if_splits)
  then have c': "ring_ok c' = ring_ok u" "chunks c' = chunks u" "used c' = used u"
    using amqp_delivery_reads reads by auto
  have u: "ring_ok u" "chunks u = drop (given_back d c) (chunks c) @ payloads (take w (recvs d))"
    using amqp_read_chunks [OF reads(8) s(1) reads(9)] reads(10) s(2) by auto
  then have "used u = used c - given_back d c + length (payloads (take w (recvs d)))"
    by (metis length_append length_chunks length_drop)
  then show ?thesis using reads c' u s by (simp add: offer_inv_def unoffered_def)
next
  case (other c e c' k)
  then show ?thesis using amqp_other_ring [OF other(5,6)] assms(2) by (simp add: offer_inv_def unoffered_def)
next
  case (tcp c ws avail c' k cs)
  then have s: "ring_ok c" "length ws \<le> used c" using assms(2) by (auto simp: offer_inv_def)
  have c': "ring_ok c'" "chunks c' = drop k (chunks c)" "offers cs = take avail (chunks c')"
    using raw_event_ring [OF tcp(5) s tcp(7)] tcp(6) by auto
  have "drop (min avail (used c')) (chunks c') = drop avail (chunks c')"
    by (metis drop_all length_chunks linorder_le_cases min.absorb1 min.absorb2 order_refl)
  then have "offers cs @ drop (min avail (used c')) (chunks c') = chunks c'" by (simp only: c'(3) append_take_drop_id)
  then show ?thesis using tcp(1-4) c'(1) by (simp add: offer_inv_def unoffered_def flip: c'(2))
qed

interpretation conn: conserving_queue "conn_step g" offer_inv unoffered for g
  by unfold_locales (auto dest: conn_step_conserves)

lemma new_context_ok: "ring_ok new_context" "chunks new_context = []" "used new_context = 0"
  by (simp_all add: ring_ok_def new_context_def BUF_SIZE_def chunks_def used_def)

section \<open>The rings of a program\<close>

text \<open>The receive answers an event brings give at most a buffer full each.\<close>

fun event_fits :: "bridge_event \<Rightarrow> bool" where
  "event_fits (B_AMQP i (A_DELIVERY b (Some d))) = fits (recvs d)"
| "event_fits (B_AMQP i (A_CONNECTION_WAKE (Some d))) = fits (recvs d)"
| "event_fits e = True"

lemma amqp_read_ok:
  assumes "amqp_read d c = Inr (w, c')" and "ring_ok c" and "fits (recvs d)"
  shows "ring_ok c'"
  using assms raw_write_drain_chunks link_receive_chunks
  by (fastforce simp: amqp_read_def bnd_eq_Inr split: if_splits)

lemma amqp_delivery_ok:
  assumes "amqp_delivery d c = Inr c'" and "ring_ok c" and "\<And>e. d = Some e \<Longrightarrow> fits (recvs e)"
  shows "ring_ok c'"
  using assms amqp_read_ok
  by (fastforce simp: amqp_delivery_def bnd_eq_Inr Let_def split: option.splits)

lemma amqp_event_ok:
  assumes "amqp_event_handler g c e = Inr c'" and "ring_ok c" and "event_fits (B_AMQP i e)"
  shows "ring_ok c'"
proof (cases e)
  case (A_DELIVERY b d)
  then show ?thesis using assms by (cases d) (auto split: if_splits intro: amqp_delivery_ok)
next
  case (A_CONNECTION_WAKE d)
  then show ?thesis using assms by (cases d) (auto intro: amqp_delivery_ok)
qed (use assms in \<open>auto simp: amqp_link_remote_open_def amqp_connection_close_def connect_raw_def Let_def\<close>)

lemma raw_event_ok:
  assumes "raw_event_handler c e = Inr c'" and "ring_ok c"
  shows "ring_ok c'"
proof (cases e)
  case R_DISCONNECTED
  then show ?thesis using assms by (auto simp: raw_disconnected_def Let_def)
next
  case (R_EVENT ws avail)
  then obtain n t where t: "raw_write_drain ws c = Inr (n, t)"
    "c' = (let u = snd (raw_send avail t) in
       if slots_empty u \<and> amqp_link u = None then add_calls [RawClose] u
       else if slots_full c \<and> \<not> slots_full u \<and> amqp_conn u then add_calls [Amqp PnConnectionWake] u else u)"
    using assms(1) by (auto simp: bnd_eq_Inr Let_def)
  have "ring_ok t" using raw_write_drain_chunks [OF t(1) assms(2)] by simp
  moreover from this obtain cs where "snd (raw_send avail t) = add_calls cs t" by (metis raw_send_offers snd_conv)
  ultimately show ?thesis using t(2) by (simp add: Let_def split: if_splits)
qed

definition rings_ok :: "bridge \<Rightarrow> bool" where
  "rings_ok s \<longleftrightarrow> (\<forall>c \<in> set (contexts s). ring_ok c)"

lemma on_context_ok:
  assumes "on_context i f s = Inr s'" and "rings_ok s" and "\<And>c c'. f c = Inr c' \<Longrightarrow> ring_ok c \<Longrightarrow> ring_ok c'"
  shows "rings_ok s'"
proof -
  obtain c where c: "i < length (contexts s)" "f (contexts s ! i) = Inr c" "s' = s\<lparr>contexts := (contexts s)[i := c]\<rparr>"
    using assms(1) by (auto simp: on_context_def bnd_eq_Inr split: if_splits)
  moreover have "ring_ok c" using assms(2,3) c(1,2) by (auto simp: rings_ok_def)
  ultimately show ?thesis using assms(2) by (auto simp: rings_ok_def dest!: set_update_subset_insert [THEN subsetD])
qed

lemma bridge_handler_ok:
  assumes "bridge_handler s e = Inr s'" and "rings_ok s" and "event_fits e"
  shows "rings_ok s'"
proof (cases e)
  case (B_LISTENER l)
  then show ?thesis using assms new_context_ok(1)
    by (auto simp: listener_event_handler_def rings_ok_def split: listener_event.splits)
next
  case (B_AMQP i a)
  then show ?thesis using assms amqp_event_ok by (auto elim!: on_context_ok)
next
  case (B_RAW i r)
  then show ?thesis using assms raw_event_ok by (auto elim!: on_context_ok)
qed (use assms in \<open>auto simp: rings_ok_def br_signal_handler_def Let_def split: if_splits\<close>)

text \<open>
  The chunks one event moves into the ring of a context and those it releases: what the receive loop
  took, and the oldest chunks, one for each slot TCP gives back. \<open>gives_back\<close> says that TCP gives back no
  more slots than are in use.
\<close>

definition read_by :: "bridge_event \<Rightarrow> context_t \<Rightarrow> current_dlv option" where
  "read_by e c = (case e of B_AMQP i a \<Rightarrow> if amqp_link c = None then None else current_of a | _ \<Rightarrow> None)"

definition returned :: "bridge_event \<Rightarrow> context_t \<Rightarrow> nat" where
  "returned e c = (case read_by e c of Some d \<Rightarrow> given_back d c
     | None \<Rightarrow> (case e of B_RAW i (R_EVENT ws avail) \<Rightarrow> length ws | _ \<Rightarrow> 0))"

definition taken_in :: "bridge_event \<Rightarrow> context_t \<Rightarrow> u8 list list" where
  "taken_in e c = (case read_by e c of None \<Rightarrow> []
     | Some d \<Rightarrow> (case amqp_read d c of Inl h \<Rightarrow> [] | Inr (w, t) \<Rightarrow> payloads (take w (recvs d))))"

fun concerns :: "nat \<Rightarrow> bridge_event \<Rightarrow> bool" where
  "concerns i (B_AMQP j a) \<longleftrightarrow> i = j"
| "concerns i (B_RAW j r) \<longleftrightarrow> i = j"
| "concerns i e \<longleftrightarrow> False"

text \<open>The ledger of context \<open>i\<close> over a run: all it received, all it released.\<close>

fun run_received :: "nat \<Rightarrow> bridge \<Rightarrow> bridge_event list \<Rightarrow> u8 list list" where
  "run_received i s [] = []"
| "run_received i s (e # es) = (if concerns i e then taken_in e (contexts s ! i) else [])
     @ (case bridge_handler s e of Inl h \<Rightarrow> [] | Inr t \<Rightarrow> run_received i t es)"

fun run_released :: "nat \<Rightarrow> bridge \<Rightarrow> bridge_event list \<Rightarrow> u8 list list" where
  "run_released i s [] = []"
| "run_released i s (e # es) =
     (if concerns i e then take (returned e (contexts s ! i)) (chunks (contexts s ! i)) else [])
     @ (case bridge_handler s e of Inl h \<Rightarrow> [] | Inr t \<Rightarrow> run_released i t es)"

fun gives_back :: "nat \<Rightarrow> bridge \<Rightarrow> bridge_event list \<Rightarrow> bool" where
  "gives_back i s [] \<longleftrightarrow> True"
| "gives_back i s (e # es) \<longleftrightarrow> (concerns i e \<longrightarrow> returned e (contexts s ! i) \<le> used (contexts s ! i))
     \<and> (case bridge_handler s e of Inl h \<Rightarrow> True | Inr t \<Rightarrow> gives_back i t es)"

text \<open>The events of the batches the program handles.\<close>

fun handled :: "bridge \<Rightarrow> bridge_event list list \<Rightarrow> bridge_event list" where
  "handled s [] = []"
| "handled s (es # ess) = es @ (case run bridge_handler s es of Inl h \<Rightarrow> []
     | Inr t \<Rightarrow> if stop t then [] else handled t ess)"

lemma handled_run: "bridge_loop s ess = Inr (d, t) \<Longrightarrow> run bridge_handler s (handled s ess) = Inr t"
  by (induction s ess rule: bridge_loop.induct) (auto simp: bnd_eq_Inr run_append split: if_splits)

lemma handled_events: "set (handled s ess) \<subseteq> set (concat ess)"
proof (induction s ess rule: handled.induct)
  case (2 s es ess)
  then show ?case by (cases "run bridge_handler s es") auto
qed simp

text \<open>What the ring of context \<open>i\<close> holds; nothing before the context is made.\<close>

definition ring_at :: "nat \<Rightarrow> bridge \<Rightarrow> u8 list list" where
  "ring_at i s = (if i < length (contexts s) then chunks (contexts s ! i) else [])"

lemma context_event_ledger:
  assumes "amqp_event_handler g c a = Inr c'" and "ring_ok c" and "event_fits (B_AMQP i a)"
    and "returned (B_AMQP i a) c \<le> used c"
  shows "chunks c @ taken_in (B_AMQP i a) c = take (returned (B_AMQP i a) c) (chunks c) @ chunks c'"
proof (cases "read_by (B_AMQP i a) c")
  case None
  then show ?thesis using amqp_other_ring [OF assms(1)]
    by (auto simp: read_by_def taken_in_def returned_def split: if_splits)
next
  case (Some d)
  then have d: "amqp_link c \<noteq> None" "current_of a = Some d" by (auto simp: read_by_def split: if_splits)
  then have h: "amqp_delivery (Some d) c = Inr c'" and f: "fits (recvs d)"
    using assms(1,3) by (cases a; auto split: if_splits)+
  then obtain w t where r: "amqp_read d c = Inr (w, t)" using d(1) by (auto simp: amqp_delivery_def bnd_eq_Inr)
  have "given_back d c \<le> used c" using assms(4) Some by (simp add: returned_def)
  from amqp_read_chunks [OF r assms(2) f this] amqp_delivery_reads [OF h d(1) r]
  show ?thesis using Some r by (simp add: taken_in_def returned_def)
qed

lemma raw_event_log:
  assumes "raw_event_handler c (R_EVENT ws avail) = Inr c'" and "ring_ok c"
  shows "\<exists>cs. log c' = log c @ cs"
proof -
  obtain n t where t: "raw_write_drain ws c = Inr (n, t)"
    "c' = (let u = snd (raw_send avail t) in
       if slots_empty u \<and> amqp_link u = None then add_calls [RawClose] u
       else if slots_full c \<and> \<not> slots_full u \<and> amqp_conn u then add_calls [Amqp PnConnectionWake] u else u)"
    using assms(1) by (auto simp: bnd_eq_Inr Let_def)
  have r: "ring_ok t" "log t = log c" using raw_write_drain_chunks [OF t(1) assms(2)] by auto
  obtain ds where "snd (raw_send avail t) = add_calls ds t" using raw_send_offers [OF r(1)] by (metis snd_conv)
  then show ?thesis using t(2) r(2) by (simp add: Let_def)
qed

lemma raw_event_ledger:
  assumes "raw_event_handler c r = Inr c'" and "ring_ok c" and "returned (B_RAW i r) c \<le> used c"
  shows "chunks c = take (returned (B_RAW i r) c) (chunks c) @ chunks c'"
proof (cases r)
  case R_DISCONNECTED
  then show ?thesis using assms(1) by (auto simp: returned_def read_by_def raw_disconnected_def Let_def)
next
  case (R_EVENT ws avail)
  have w: "returned (B_RAW i r) c = length ws" by (simp add: R_EVENT returned_def read_by_def)
  have "\<exists>cs. log c' = log c @ cs" by (rule raw_event_log [OF assms(1) [unfolded R_EVENT] assms(2)])
  then show ?thesis using raw_event_ring [OF assms(1) [unfolded R_EVENT] assms(2)] assms(3) w by auto
qed

lemma bridge_handler_ledger:
  assumes "bridge_handler s e = Inr t" and "rings_ok s" and "event_fits e"
    and "concerns i e \<longrightarrow> returned e (contexts s ! i) \<le> used (contexts s ! i)"
  shows "ring_at i s @ (if concerns i e then taken_in e (contexts s ! i) else [])
    = (if concerns i e then take (returned e (contexts s ! i)) (chunks (contexts s ! i)) else []) @ ring_at i t"
proof (cases "concerns i e")
  case True
  let ?c = "contexts s ! i"
  have u: "returned e ?c \<le> used ?c" using assms(4) True by simp
  obtain c' where i: "i < length (contexts s)" and t: "t = s\<lparr>contexts := (contexts s)[i := c']\<rparr>"
      and c': "chunks ?c @ taken_in e ?c = take (returned e ?c) (chunks ?c) @ chunks c'"
  proof (cases e)
    case (B_AMQP j a)
    then obtain c' where "i < length (contexts s)" "amqp_event_handler s ?c a = Inr c'"
        "t = s\<lparr>contexts := (contexts s)[i := c']\<rparr>"
      using assms(1) True by (auto simp: on_context_def bnd_eq_Inr split: if_splits)
    moreover from this have "ring_ok ?c" using assms(2) by (simp add: rings_ok_def)
    ultimately show ?thesis using context_event_ledger assms(3) u True B_AMQP that by auto
  next
    case (B_RAW j r)
    then obtain c' where "i < length (contexts s)" "raw_event_handler ?c r = Inr c'"
        "t = s\<lparr>contexts := (contexts s)[i := c']\<rparr>"
      using assms(1) True by (auto simp: on_context_def bnd_eq_Inr split: if_splits)
    moreover from this have "ring_ok ?c" using assms(2) by (simp add: rings_ok_def)
    moreover have "taken_in e ?c = []" by (simp add: B_RAW taken_in_def read_by_def)
    ultimately show ?thesis using raw_event_ledger u True B_RAW that by auto
  qed (use True in simp_all)
  then show ?thesis using True by (simp add: ring_at_def)
next
  case False
  have "ring_at i t = ring_at i s"
    using assms(1) False new_context_ok(2)
    by (cases e) (auto simp: on_context_def bnd_eq_Inr ring_at_def listener_event_handler_def br_signal_handler_def Let_def
        nth_append split: if_splits listener_event.splits)
  then show ?thesis using False by simp
qed

lemma ledger_cons: "a @ x = r @ b \<Longrightarrow> b @ y = q @ c \<Longrightarrow> a @ x @ y = (r @ q) @ c"
  by (metis append.assoc)

lemma bridge_run_ledger:
  assumes "run bridge_handler s es = Inr t" and "rings_ok s" and "\<forall>e \<in> set es. event_fits e" and "gives_back i s es"
  shows "rings_ok t \<and> ring_at i s @ run_received i s es = run_released i s es @ ring_at i t"
  using assms
proof (induction es arbitrary: s)
  case (Cons e es)
  then obtain u where u: "bridge_handler s e = Inr u" "run bridge_handler u es = Inr t" by (auto simp: bnd_eq_Inr)
  have "rings_ok t \<and> ring_at i u @ run_received i u es = run_released i u es @ ring_at i t"
    using Cons.IH [OF u(2) bridge_handler_ok [OF u(1)]] Cons.prems u(1) by simp
  moreover have "ring_at i s @ (if concerns i e then taken_in e (contexts s ! i) else [])
    = (if concerns i e then take (returned e (contexts s ! i)) (chunks (contexts s ! i)) else []) @ ring_at i u"
    using bridge_handler_ledger [OF u(1)] Cons.prems by simp
  ultimately show ?case using u(1) ledger_cons by (simp only: run_received.simps run_released.simps sum.case) blast
qed simp

section \<open>Properties\<close>

text \<open>C15: the rings of a program lose nothing, whatever the peers do: over every run of the program, what
  the ring of a connection received is, in order, what it released followed by what it still holds, in
  at most 127 of its 128 slots; both indices lie in the array and no slot claims more bytes than its
  buffer has. This asks of Proton that \<open>pn_link_recv()\<close> keeps to the size it is given and that TCP gives
  back no more slots than are in use.\<close>

theorem bridge_rings_stay_sound:
  assumes "bridge_main opts ess = Inr (d, s)" and "parse_opts br_option opts bridge_globals = Inr g"
    and "\<forall>e \<in> set (concat ess). event_fits e" and "gives_back i g (handled g ess)"
    and "i < length (contexts s)" and "c = contexts s ! i"
  shows "run_received i g (handled g ess) = run_released i g (handled g ess) @ chunks c
    \<and> producer_slot c < SLOT_COUNT \<and> consumer_slot c < SLOT_COUNT
    \<and> (\<forall>b \<in> set (buffers c). size_of b \<le> BUF_SIZE \<and> length (data_of b) = BUF_SIZE)"
proof -
  have l: "bridge_loop g ess = Inr (d, s)" using assms(1,2) by (simp add: bridge_main_def)
  have "contexts g = []"
    by (rule parse_opts_preserves [where P = "\<lambda>s. contexts s = []", OF _ _ assms(2)])
      (auto simp: br_option_def usage_def bridge_globals_def split: prod.splits if_splits)
  then have "rings_ok g" "ring_at i g = []" by (simp_all add: rings_ok_def ring_at_def)
  moreover have "\<forall>e \<in> set (handled g ess). event_fits e" using handled_events assms(3) by blast
  ultimately have "rings_ok s" "run_received i g (handled g ess) = run_released i g (handled g ess) @ ring_at i s"
    using bridge_run_ledger [OF handled_run [OF l] _ _ assms(4)] by simp_all
  moreover from this have "ring_ok c" using assms(5,6) by (simp add: rings_ok_def)
  ultimately show ?thesis using assms(5,6) by (auto simp: ring_at_def ring_ok_def SLOT_COUNT_def word_less_nat_alt)
qed

text \<open>A context with its TCP connection, for the examples.\<close>

definition open_context :: context_t where
  "open_context = new_context\<lparr>raw_conn := True, amqp_link := Some 0\<rparr>"

lemma open_context:
  "ring_ok open_context" "chunks open_context = []" "used open_context = 0" "log open_context = []" "raw_conn open_context"
  "amqp_link open_context = Some 0" "\<not> slots_full open_context" "consumer_slot open_context = 0"
proof -
  show "ring_ok open_context" using new_context_ok(1) by (simp add: open_context_def)
  show u: "used open_context = 0" by (simp add: used_def open_context_def new_context_def)
  then show "chunks open_context = []" by (simp add: chunks_def)
  show "log open_context = []" "raw_conn open_context" "amqp_link open_context = Some 0"
    "consumer_slot open_context = 0" by (simp_all add: open_context_def new_context_def)
  show "\<not> slots_full open_context" using u \<open>ring_ok open_context\<close> by (simp add: slots_full_used)
qed

lemma open_context_receive:
  assumes "length bs \<le> BUF_SIZE" and "bs \<noteq> []"
  shows "link_receive 1 [(Inr bs, 0)] open_context = Inr (1, put_slot bs open_context)"
    and "ring_ok (put_slot bs open_context)" and "chunks (put_slot bs open_context) = [bs]"
    and "log (put_slot bs open_context) = []" and "raw_conn (put_slot bs open_context)"
    and "amqp_link (put_slot bs open_context) = Some 0" and "consumer_slot (put_slot bs open_context) = 0"
  using assms open_context ring_ok_put [OF open_context(1)] chunks_put [OF open_context(1,7)]
  by (auto simp: link_receive.simps put_slot_def Let_def connected_def new_context_def)

text \<open>A program that accepts one connection, whose link opens a TCP connection and brings one chunk.\<close>

definition linked_context :: context_t where
  "linked_context = amqp_link_remote_open bridge_globals 0 ''a'' (add_calls [ListenerAccept] (new_context\<lparr>amqp_conn := True\<rparr>))"

definition one_chunk :: current_dlv where
  "one_chunk = \<lparr>pending = 1, written = [], recvs = [(Inr [7], 0)], pending_after = False, partial = True\<rparr>"

definition one_chunk_events :: "bridge_event list" where
  "one_chunk_events = [B_LISTENER L_ACCEPT, B_AMQP 0 (A_LINK_REMOTE_OPEN 0 ''a''), B_AMQP 0 (A_DELIVERY True (Some one_chunk)),
     B_RAW 0 (R_EVENT [] 9), B_RAW 0 (R_EVENT [0] 9)]"

lemma linked_context:
  "ring_ok linked_context" "chunks linked_context = []" "raw_conn linked_context" "amqp_link linked_context = Some 0"
  "\<not> freed linked_context" "consumer_slot linked_context = 0"
  using new_context_ok
  by (simp_all add: linked_context_def amqp_link_remote_open_def connect_raw_def Let_def)
    (simp_all add: new_context_def)

lemma bridge_rings_stay_sound_example:
  obtains s where "bridge_main [] [one_chunk_events] = Inr (False, s)" and "length (contexts s) = 1"
    and "run_received 0 bridge_globals one_chunk_events = [[7]]"
    and "run_released 0 bridge_globals one_chunk_events = [[7]]"
    and "gives_back 0 bridge_globals one_chunk_events"
proof -
  let ?g = "\<lambda>c. bridge_globals\<lparr>contexts := [c]\<rparr>"
  let ?c = "add_calls [ListenerAccept] (new_context\<lparr>amqp_conn := True\<rparr>)"
  let ?p = "put_slot [7] linked_context"
  have "used linked_context = 0" using linked_context(2) by (metis length_chunks list.size(3))
  then have nf: "\<not> slots_full linked_context" using slots_full_used [OF linked_context(1)] by simp
  have p: "ring_ok ?p" "chunks ?p = [[7]]" "raw_conn ?p" "amqp_link ?p = Some 0" "\<not> freed ?p" "consumer_slot ?p = 0"
    subgoal by (rule ring_ok_put [OF linked_context(1)]) (simp add: BUF_SIZE_def)
    subgoal using chunks_put [OF linked_context(1) nf] linked_context(2) by simp
    using linked_context by (simp_all add: put_slot_def Let_def)
  have pf: "used ?p = 1" "\<not> slots_full ?p"
    using p(2) slots_full_used [OF p(1)] length_chunks [of ?p] by simp_all
  have r: "amqp_read one_chunk linked_context = Inr (1, ?p)"
    using nf linked_context(3)
    by (simp add: amqp_read_def one_chunk_def raw_write_drain_def link_receive.simps)
  let ?w = "add_calls [RawWake] ?p"
  have w: "ring_ok ?w" using p(1) by simp
  obtain cs where cs: "raw_send 9 ?w = (min 9 (used ?w), add_calls cs ?w)"
    using raw_send_offers [OF w] by metis
  let ?d = "release (add_calls cs ?w)"
  have d: "ring_ok ?d" "used ?d = 0" using release [of "add_calls cs ?w"] p(1) pf(1) by simp_all
  obtain ds where ds: "raw_send 9 ?d = (min 9 (used ?d), add_calls ds ?d)"
    using raw_send_offers [OF d(1)] by metis
  have l: "amqp_link ?d = Some 0" "raw_conn ?d" using p by (simp_all add: release_def)
  have 1: "bridge_handler bridge_globals (B_LISTENER L_ACCEPT) = Inr (?g ?c)"
    by (simp add: listener_event_handler_def bridge_globals_def)
  have 2: "bridge_handler (?g ?c) (B_AMQP 0 (A_LINK_REMOTE_OPEN 0 ''a'')) = Inr (?g linked_context)"
    by (simp add: on_context_def new_context_def linked_context_def bridge_globals_def amqp_link_remote_open_def)
  have 3: "bridge_handler (?g linked_context) (B_AMQP 0 (A_DELIVERY True (Some one_chunk))) = Inr (?g ?w)"
    using r p linked_context by (simp add: on_context_def amqp_delivery_def one_chunk_def)
  have 4: "bridge_handler (?g ?w) (B_RAW 0 (R_EVENT [] 9)) = Inr (?g (add_calls cs ?w))"
    using cs p pf by (simp add: on_context_def raw_write_drain_def)
  have "raw_write_drain [0] (add_calls cs ?w) = Inr (1, ?d)"
    using p by (simp add: raw_write_drain_def release_def)
  then have "raw_event_handler (add_calls cs ?w) (R_EVENT [0] 9) = Inr (add_calls ds ?d)"
    using ds pf l by simp
  then have 5: "bridge_handler (?g (add_calls cs ?w)) (B_RAW 0 (R_EVENT [0] 9)) = Inr (?g (add_calls ds ?d))"
    using p by (simp add: on_context_def del: raw_event_handler.simps)
  note steps = 1 2 3 4 5
  show ?thesis
  proof (rule that [of "?g (add_calls ds ?d)"])
    show "bridge_main [] [one_chunk_events] = Inr (False, ?g (add_calls ds ?d))"
      by (simp add: bridge_main_def one_chunk_events_def steps del: bridge_handler.simps)
        (simp add: bridge_globals_def)
    show "run_received 0 bridge_globals one_chunk_events = [[7]]"
      using linked_context r p
      by (simp add: one_chunk_events_def steps taken_in_def read_by_def del: bridge_handler.simps)
        (simp add: one_chunk_def payloads_def)
    show "run_released 0 bridge_globals one_chunk_events = [[7]]"
      using linked_context r p pf
      by (simp add: one_chunk_events_def steps returned_def read_by_def given_back_def del: bridge_handler.simps)
    show "gives_back 0 bridge_globals one_chunk_events"
      using linked_context r p pf
      by (simp add: one_chunk_events_def steps returned_def read_by_def given_back_def del: bridge_handler.simps)
        (simp add: one_chunk_def)
  qed simp
qed

theorem bridge_rings_stay_sound_witness:
  "\<exists>s. bridge_main [] [one_chunk_events] = Inr (False, s)
     \<and> run_received 0 bridge_globals (handled bridge_globals [one_chunk_events]) = [[7]]
     \<and> chunks (contexts s ! 0) = []"
proof -
  obtain s where s: "bridge_main [] [one_chunk_events] = Inr (False, s)" "length (contexts s) = 1"
    "run_received 0 bridge_globals one_chunk_events = [[7]]" "run_released 0 bridge_globals one_chunk_events = [[7]]"
    "gives_back 0 bridge_globals one_chunk_events" by (rule bridge_rings_stay_sound_example)
  have h: "handled bridge_globals [one_chunk_events] = one_chunk_events" by (simp split: sum.splits)
  have "\<forall>e \<in> set (concat [one_chunk_events]). event_fits e"
    by (simp add: one_chunk_events_def one_chunk_def fits_def BUF_SIZE_def)
  from bridge_rings_stay_sound [OF s(1) _ this, of bridge_globals 0, unfolded h] s
  show ?thesis unfolding h by simp
qed

text \<open>C2: no chunk is lost, duplicated or reordered between the link and the slots that are released:
  however receiving, offering and draining follow each other, what was in the ring and what was
  received is what was released, then what the ring still holds, which is never more than 127 chunks.\<close>

theorem bridge_ring_is_a_queue:
  assumes "traced ring_step c0 received released c" and "ring_ok c0"
  shows "chunks c0 @ received = released @ chunks c \<and> length (chunks c) < 128"
  using ring.traced_conserves [OF assms] used_less [of c] unfolding length_chunks by blast

theorem bridge_ring_is_a_queue_witness:
  "\<exists>c. traced ring_step open_context [[7]] [] c \<and> chunks c = [[7]]"
proof -
  have "ring_step open_context (payloads (take 1 [(Inr [7], 0)])) [] (put_slot [7] open_context)"
    by (rule ring_step.receive [OF open_context_receive(1)]) (simp_all add: fits_def BUF_SIZE_def)
  then have t: "traced ring_step open_context ([] @ [[7]]) ([] @ []) (put_slot [7] open_context)"
    by (intro traced.more [OF traced.start]) (simp add: payloads_def)
  from bridge_ring_is_a_queue [OF t open_context(1)] t show ?thesis by (auto simp: open_context)
qed

text \<open>C14: when every event of the TCP connection finds all offered slots given back, TCP is offered
  exactly what the link received, in order and once, whatever AMQP events come in between: what was
  received is what was offered, then the chunks of the ring that were not.\<close>

theorem bridge_forwards_stream_when_drained:
  assumes "traced (conn_step g) (c0, 0) received offered (c, k)" and "ring_ok c0" and "chunks c0 = []"
  shows "received = offered @ drop k (chunks c) \<and> k \<le> used c"
  using conn.traced_conserves [OF assms(1)] assms(2,3) by (simp add: offer_inv_def unoffered_def)

theorem bridge_forwards_stream_when_drained_witness:
  "\<exists>c k. traced (conn_step bridge_globals) (open_context, 0) [[7]] [[7]] (c, k) \<and> [[7]] = [[7]] @ drop k (chunks c)"
proof -
  let ?d = "\<lparr>pending = 1, written = [], recvs = [(Inr [7], 0)], pending_after = False, partial = True\<rparr>"
  let ?p = "put_slot [7] open_context"
  have p: "ring_ok ?p" "chunks ?p = [[7]]" "log ?p = []" "raw_conn ?p" "amqp_link ?p = Some 0"
    using open_context_receive [of "[7]"] by (simp_all add: BUF_SIZE_def)
  have r: "amqp_read ?d open_context = Inr (1, ?p)" "given_back ?d open_context = 0"
    using open_context_receive(1) [of "[7]"] open_context
    by (simp_all add: amqp_read_def given_back_def raw_write_drain_def BUF_SIZE_def)
  then have "amqp_event_handler bridge_globals open_context (A_CONNECTION_WAKE (Some ?d)) = Inr (add_calls [RawWake] ?p)"
    using open_context p by (simp add: amqp_delivery_def)
  from conn_step.reads [OF this _ _ r(1), of 0]
  have 1: "conn_step bridge_globals (open_context, 0) [[7]] [] (add_calls [RawWake] ?p, 0)"
    using r(2) open_context by (simp add: payloads_def fits_def BUF_SIZE_def)
  have "ring_ok (add_calls [RawWake] ?p)" using p(1) by simp
  then obtain cs where "raw_send 1 (add_calls [RawWake] ?p) = (min 1 (used (add_calls [RawWake] ?p)), add_calls cs (add_calls [RawWake] ?p))"
      "offers cs = take 1 (chunks (add_calls [RawWake] ?p))"
    by (rule raw_send_offers)
  then have cs: "raw_send 1 (add_calls [RawWake] ?p) = (min 1 (used ?p), add_calls cs (add_calls [RawWake] ?p))"
      "offers cs = [[7]]" using p(2) by simp_all
  let ?c = "add_calls cs (add_calls [RawWake] ?p)"
  have "used ?p = 1" using p(2) length_chunks [of ?p] by simp
  then have "\<not> slots_full ?p" using p(1) by (simp add: slots_full_used)
  then have "raw_event_handler (add_calls [RawWake] ?p) (R_EVENT [] 1) = Inr ?c"
    using cs(1) p by (simp add: raw_write_drain_def)
  from conn_step.tcp [OF this, of 0 cs]
  have 2: "conn_step bridge_globals (add_calls [RawWake] ?p, 0) [] [[7]] (?c, min 1 (used ?c))" using cs(2) by simp
  have "traced (conn_step bridge_globals) (open_context, 0) [[7]] [] (add_calls [RawWake] ?p, 0)"
    using 1 by (rule traced_one)
  then have "traced (conn_step bridge_globals) (open_context, 0) ([[7]] @ []) ([] @ [[7]]) (?c, min 1 (used ?c))"
    using 2 by (rule traced.more)
  then have t: "traced (conn_step bridge_globals) (open_context, 0) [[7]] [[7]] (?c, min 1 (used ?c))" by simp
  from bridge_forwards_stream_when_drained [OF t open_context(1,2)] t show ?thesis by blast
qed

text \<open>C16: the receive loop moves every chunk of a delivery into the ring, up to the slots that are
  free; then it returns.\<close>

theorem bridge_link_receive_takes_what_fits:
  assumes "ring_ok c" and "\<forall>bs \<in> set bss. bs \<noteq> [] \<and> length bs \<le> BUF_SIZE" and "bss \<noteq> []"
    and "length ps = length bss" and "\<forall>p \<in> set (butlast ps). p \<noteq> 0" and "last ps = 0" and "n \<noteq> 0"
  shows "\<exists>c'. link_receive n (zip (map Inr bss) ps) c = Inr (min (127 - used c) (length bss), c')
    \<and> chunks c' = chunks c @ take (127 - used c) bss"
  using assms
proof (induction bss arbitrary: ps n c)
  case (Cons bs bss)
  obtain p qs where ps: "ps = p # qs" using Cons.prems(4) by (cases ps) auto
  show ?case
  proof (cases "slots_full c")
    case True
    then show ?thesis using slots_full_used [OF Cons.prems(1)] by (simp add: link_receive.simps)
  next
    case False
    let ?c = "put_slot bs c"
    have c: "ring_ok ?c" "used ?c = Suc (used c)" "chunks ?c = chunks c @ [bs]" "used c \<noteq> 127"
      using ring_ok_put [OF Cons.prems(1)] chunks_put [OF Cons.prems(1) False] used_put [OF Cons.prems(1) False]
        slots_full_used [OF Cons.prems(1)] Cons.prems(2) False by simp_all
    have "\<exists>c'. link_receive p (zip (map Inr bss) qs) ?c = Inr (min (127 - used ?c) (length bss), c')
        \<and> chunks c' = chunks ?c @ take (127 - used ?c) bss"
    proof (cases "bss = []")
      case True
      then have "p = 0" using Cons.prems(4,6) ps by simp
      then show ?thesis using True by (simp add: link_receive.simps)
    next
      case False
      then have "qs \<noteq> []" using Cons.prems(4) ps by auto
      then show ?thesis using Cons.IH [of ?c qs p] c(1) Cons.prems False ps by auto
    qed
    then obtain c' where c': "link_receive p (zip (map Inr bss) qs) ?c = Inr (min (127 - used ?c) (length bss), c')"
      "chunks c' = chunks ?c @ take (127 - used ?c) bss" by blast
    have "link_receive n (zip (map Inr (bs # bss)) ps) c = Inr (min (127 - used ?c) (length bss) + 1, c')"
      using Cons.prems(2,7) False c'(1) ps by (subst link_receive.simps) simp
    moreover have "127 - used c = Suc (127 - used ?c)" using c(2,4) used_less [of c] by linarith
    ultimately show ?thesis using c'(2) c(3) by (intro exI [of _ c']) simp
  qed
qed simp

theorem bridge_link_receive_takes_what_fits_witness:
  "\<exists>c'. link_receive 5 (zip (map Inr [[1, 2], [3]]) [1, 0]) new_context = Inr (min (127 - 0) 2, c')
     \<and> chunks c' = [[1, 2], [3]]"
  using bridge_link_receive_takes_what_fits [of new_context "[[1, 2], [3]]" "[1, 0]" 5] new_context_ok
  by (simp add: BUF_SIZE_def numeral_2_eq_2)

text \<open>C17: offered slots are offered again: when a second event of the TCP connection arrives before
  anything offered at the first has been given back, the same chunks are handed to TCP twice, so
  the server receives them twice.\<close>

theorem bridge_offers_pending_slots_again:
  assumes "ring_ok c" and "raw_conn c" and "amqp_link c \<noteq> None"
  shows "\<exists>c1 c2. raw_event_handler c (R_EVENT [] n) = Inr c1 \<and> raw_event_handler c1 (R_EVENT [] m) = Inr c2
    \<and> offers (log c2) = offers (log c) @ take n (chunks c) @ take m (chunks c)"
proof -
  have step: "\<exists>cs. raw_event_handler t (R_EVENT [] n) = Inr (add_calls cs t) \<and> offers cs = take n (chunks t)"
    if t: "ring_ok t" "raw_conn t" "amqp_link t \<noteq> None" for t n
  proof -
    obtain cs where cs: "raw_send n t = (min n (used t), add_calls cs t)" "offers cs = take n (chunks t)"
      using raw_send_offers [OF t(1)] by metis
    show ?thesis using t cs by (intro exI [of _ cs]) (auto simp: raw_write_drain_def Let_def)
  qed
  obtain cs where cs: "raw_event_handler c (R_EVENT [] n) = Inr (add_calls cs c)" "offers cs = take n (chunks c)"
    using step [OF assms] by blast
  obtain ds where "raw_event_handler (add_calls cs c) (R_EVENT [] m) = Inr (add_calls ds (add_calls cs c))"
      "offers ds = take m (chunks c)"
    using step [of "add_calls cs c" m] assms by auto
  then show ?thesis using cs by (intro exI [of _ "add_calls cs c"] exI [of _ "add_calls ds (add_calls cs c)"]) simp
qed

theorem bridge_offers_pending_slots_again_witness:
  "\<exists>c1 c2. raw_event_handler (put_slot [7] open_context) (R_EVENT [] 9) = Inr c1
     \<and> raw_event_handler c1 (R_EVENT [] 9) = Inr c2 \<and> offers (log c2) = [[7], [7]]"
  using bridge_offers_pending_slots_again [of "put_slot [7] open_context" 9 9] open_context_receive [of "[7]"]
  by (simp add: BUF_SIZE_def)

text \<open>A second link on a connection is announced as rejected but takes the place of the first: the
  bridge opens a second TCP connection for the same context. When the first one ends and the
  peer closes, the context is freed while the second still refers to it, and its next event uses
  freed memory.\<close>

theorem bridge_extra_link_uses_freed_context:
  "\<exists>s c. bridge_main [] [[B_LISTENER L_ACCEPT],
       [B_AMQP 0 (A_LINK_REMOTE_OPEN 1 ''a''), B_AMQP 0 (A_LINK_REMOTE_OPEN 2 ''b'')],
       [B_RAW 0 R_DISCONNECTED], [B_AMQP 0 A_CONNECTION_REMOTE_CLOSE]] = Inr (False, s)
   \<and> contexts s = [c] \<and> freed c
   \<and> filter (\<lambda>e. e = RawConnect ''localhost:20002'') (log c) = replicate 2 (RawConnect ''localhost:20002'')
   \<and> bridge_handler s (B_RAW 0 (R_EVENT ws avail)) = Inl Abort"
  by (simp add: bridge_main_def bridge_globals_def listener_event_handler_def on_context_def new_context_def
      amqp_link_remote_open_def connect_raw_def raw_disconnected_def amqp_connection_close_def add_calls_def Let_def
      numeral_2_eq_2)

end
