(* ===== verification/ChunkedSender.thy ===== *)
theory ChunkedSender
  imports Sender Proactor
begin

text \<open>
  \<open>benchmarks/clients/src/chunked-sender.c\<close>: sends messages over four links of one session, each
  in chunks of 64 bytes, one chunk for a \<open>PN_LINK_FLOW\<close> event while less than 1024 bytes wait in the
  session. Calls on link \<open>k\<close> are logged with \<open>OnLink k\<close>. \<open>link_offset k\<close> is the context of link
  \<open>k\<close>: \<open>None\<close> before the link is made, then the number of bytes of its current message written.
\<close>

section \<open>State\<close>

definition LINK_COUNT :: nat where "LINK_COUNT = 4"
definition write_size :: u64 where "write_size = 64"
definition max_frame :: u32 where "max_frame = 16 * 1024"
definition CHK_BODY_SIZE_WUMBO :: int where "CHK_BODY_SIZE_WUMBO = 2 * 1024 * 1024"

record chunked = tx +
  start_ts :: u64
  stop_ts :: u64
  link_offset :: "nat \<Rightarrow> u64 option"

definition chk_globals :: chunked where
  "chk_globals = \<lparr>
     clk = 0, out = [], stop = False, limit = 1, count = 0,
     host_address = ''127.0.0.1:5672'', container_name = ''ThroughputSender'',
     g_ssn = False, g_link = False, sig_ign = False,
     acked = 0, accepted = 0, not_accepted = 0, tag = 0,
     use_anonymous = False, body_size = BODY_SIZE_SMALL,
     encode_buffer = None, encode_buffer_size = 0, encoded_data_size = 0,
     target_address = ''test-throughput'',
     start_ts = 0, stop_ts = 0, link_offset = (\<lambda>k. None)\<rparr>"

lemma emit_chunked [simp]:
  "start_ts (emit cs s) = start_ts s" "stop_ts (emit cs s) = stop_ts s"
  "link_offset (emit cs s) = link_offset s"
  by (simp_all add: emit_def)

section \<open>Opening the links\<close>

definition chk_message :: "chunked \<Rightarrow> message" where
  "chk_message s = \<lparr>
     msg_address = Some (target_address s), msg_priority = None, msg_annotations = [],
     msg_body = [DClear, DPutList, DEnter,
                 DPutBinary (zero_block (word_of_int (body_size s))), DExit, DRewind]\<rparr>"

definition chk_generate_message :: "encoder \<Rightarrow> chunked \<Rightarrow> halt + chunked" where
  "chk_generate_message enc s = encode_message enc (chk_message s) s"

definition chk_link_name :: "nat \<Rightarrow> string" where
  "chk_link_name x = ''MySender-'' @ show_nat x"

definition chk_open_link :: "chunked \<Rightarrow> nat \<Rightarrow> pn_call list" where
  "chk_open_link s x =
     [OnLink x (PnSender (chk_link_name x))]
     @ (if use_anonymous s then [] else [OnLink x (PnSetTarget (target_address s))])
     @ [OnLink x PnLinkOpen]"

text \<open>The session is a local of the handler, so the global \<open>pn_ssn\<close> stays null.\<close>

definition chk_open_endpoints :: "chunked \<Rightarrow> chunked" where
  "chk_open_endpoints s =
     emit ([PnConnectionOpen, PnSession, PnSessionOpen]
           @ concat (map (chk_open_link s) [0..<LINK_COUNT]))
       (s\<lparr>link_offset := (\<lambda>k. if k < LINK_COUNT then Some 0 else link_offset s k)\<rparr>)"

definition chk_connection_init :: "encoder \<Rightarrow> chunked \<Rightarrow> halt + chunked" where
  "chk_connection_init enc s = chk_generate_message enc (chk_open_endpoints s)"

section \<open>Writing a chunk\<close>

text \<open>
  What the handler of \<open>PN_LINK_FLOW\<close> asks: the link, whether it has a current delivery, its credit,
  whether \<open>pn_delivery()\<close> makes one, the bytes waiting in the session, and what \<open>pn_link_send()\<close>
  returns for the bytes it is given, a \<open>ssize_t\<close> read as its 64 bits.
\<close>

record chk_flow =
  flow_link :: nat
  has_current :: bool
  flow_credit :: int
  dlv_made :: bool
  outgoing_bytes :: u64
  flow_wr :: "u8 list \<Rightarrow> u64"

text \<open>The first half of the case: whether there is a delivery to write to, and the state.\<close>

definition chk_take_delivery :: "chk_flow \<Rightarrow> chunked \<Rightarrow> halt + bool \<times> chunked" where
  "chk_take_delivery e s =
     (if has_current e then Inr (True, s)
      else if 0 < flow_credit e \<and> (limit s = 0 \<or> count s < limit s) then
        let s = emit [OnLink (flow_link e) (PnDelivery (tag s))] s;
            s = s\<lparr>count := count s + 1\<rparr>;
            s = s\<lparr>tag := tag s + 1\<rparr>
        in (case link_offset s (flow_link e) of
              None \<Rightarrow> Inl Abort
            | Some _ \<Rightarrow> Inr (dlv_made e, s\<lparr>link_offset := (link_offset s)(flow_link e \<mapsto> 0)\<rparr>))
      else Inr (False, s))"

text \<open>
  The second half. The chunk is read from the encoding buffer; \<open>rc != amount\<close> compares as unsigned.
  What \<open>pn_link_send()\<close> took of the chunk is logged.
\<close>

definition chk_write_chunk :: "chk_flow \<Rightarrow> chunked \<Rightarrow> halt + chunked" where
  "chk_write_chunk e s =
     (case link_offset s (flow_link e) of
        None \<Rightarrow> Inl Abort
      | Some off \<Rightarrow>
          let amount = min write_size (encoded_data_size s - off);
              chunk = take (unat amount) (drop (unat off) (payload s));
              rc = flow_wr e chunk;
              s = emit [OnLink (flow_link e) (PnLinkSend (take (nat (sint rc)) chunk))] s
          in if rc \<noteq> amount then Inl (Exit (- 1))
             else let off = off + amount;
                      s = s\<lparr>link_offset := (link_offset s)(flow_link e \<mapsto> off)\<rparr>
                  in Inr (if off = encoded_data_size s
                          then emit [OnLink (flow_link e) PnLinkAdvance] s else s))"

definition chk_link_flow :: "chk_flow \<Rightarrow> chunked \<Rightarrow> halt + chunked" where
  "chk_link_flow e s =
     bnd (chk_take_delivery e s) (\<lambda>(dlv, s).
     if dlv \<and> outgoing_bytes e < 1024 then chk_write_chunk e s else Inr s)"

section \<open>Outcomes and signals\<close>

definition chk_mark_stop :: "clock \<Rightarrow> chunked \<Rightarrow> halt + chunked" where
  "chk_mark_stop clock s =
     (if stop_ts s = 0 then bnd (now_usec_u64 clock s) (\<lambda>(t, s). Inr (s\<lparr>stop_ts := t\<rparr>)) else Inr s)"

definition chk_signal_handler :: "clock \<Rightarrow> signal \<Rightarrow> chunked \<Rightarrow> halt + chunked" where
  "chk_signal_handler clock sig s =
     (if sig_ign s then Inr s
      else let s = s\<lparr>sig_ign := True\<rparr> in
        (case sig of
           SIGOTHER \<Rightarrow> Inr s
         | _ \<Rightarrow> bnd (chk_mark_stop clock (s\<lparr>stop := True\<rparr>)) (\<lambda>s. Inr (emit [PnReactorWakeup] s))))"

definition chk_outcome :: "nat \<Rightarrow> disposition \<Rightarrow> chunked \<Rightarrow> chunked" where
  "chk_outcome k rs s =
     (if rs = PN_RECEIVED then s
      else let s = s\<lparr>acked := acked s + 1\<rparr>;
               s = (if rs = PN_ACCEPTED then s\<lparr>accepted := accepted s + 1\<rparr>
                    else s\<lparr>not_accepted := not_accepted s + 1\<rparr>)
           in emit [OnLink k PnSettle] s)"

definition chk_delivery :: "clock \<Rightarrow> nat \<Rightarrow> bool \<Rightarrow> disposition \<Rightarrow> chunked \<Rightarrow> halt + chunked" where
  "chk_delivery clock k updated rs s =
     (if updated then
        let s = chk_outcome k rs s
        in if limit s \<noteq> 0 \<and> acked s = limit s
           then bnd (chk_mark_stop clock (s\<lparr>stop := True\<rparr>)) (\<lambda>s. Inr (emit [PnReactorWakeup] s))
           else Inr s
      else Inr s)"

section \<open>The event handler and \<open>main\<close>\<close>

datatype chk_event =
    CK_CONNECTION_INIT
  | CK_CONNECTION_BOUND
  | CK_LINK_FLOW chk_flow
  | CK_DELIVERY nat bool disposition
  | CK_SIGNAL signal
  | CK_OTHER

fun chk_event_handler :: "clock \<Rightarrow> encoder \<Rightarrow> chunked \<Rightarrow> chk_event \<Rightarrow> halt + chunked" where
  "chk_event_handler clock enc s CK_CONNECTION_INIT = chk_connection_init enc s"
| "chk_event_handler clock enc s CK_CONNECTION_BOUND = Inr (emit [PnSetMaxFrame max_frame] s)"
| "chk_event_handler clock enc s (CK_LINK_FLOW e) = chk_link_flow e s"
| "chk_event_handler clock enc s (CK_DELIVERY k updated rs) = chk_delivery clock k updated rs s"
| "chk_event_handler clock enc s (CK_SIGNAL sig) = chk_signal_handler clock sig s"
| "chk_event_handler clock enc s CK_OTHER = Inr s"

definition chk_body_size :: "string \<Rightarrow> int option" where
  "chk_body_size optarg =
     (if first_char optarg = CHR ''s'' then Some BODY_SIZE_SMALL
      else if first_char optarg = CHR ''m'' then Some BODY_SIZE_MEDIUM
      else if first_char optarg = CHR ''l'' then Some BODY_SIZE_LARGE
      else if first_char optarg = CHR ''x'' then Some CHK_BODY_SIZE_WUMBO
      else None)"

definition chk_option :: "opt \<Rightarrow> chunked \<Rightarrow> halt + chunked" where
  "chk_option p s =
     (case p of (c, optarg) \<Rightarrow>
      if c = CHR ''h'' then usage
      else if c = CHR ''a'' then Inr (s\<lparr>host_address := optarg\<rparr>)
      else if c = CHR ''c'' then
        (case scan_u64 optarg of None \<Rightarrow> usage | Some n \<Rightarrow> Inr (s\<lparr>limit := n\<rparr>))
      else if c = CHR ''i'' then Inr (s\<lparr>container_name := optarg\<rparr>)
      else if c = CHR ''n'' then Inr (s\<lparr>use_anonymous := True\<rparr>)
      else if c = CHR ''s'' then
        (case chk_body_size optarg of None \<Rightarrow> usage | Some n \<Rightarrow> Inr (s\<lparr>body_size := n\<rparr>))
      else if c = CHR ''t'' then Inr (s\<lparr>target_address := optarg\<rparr>)
      else usage)"

text \<open>The body of the loop closes what it knows of on every round after the stop.\<close>

definition chk_closing :: "chunked \<Rightarrow> pn_call list" where
  "chk_closing s =
     concat (map (\<lambda>x. if link_offset s x = None then [] else [OnLink x PnLinkClose]) [0..<LINK_COUNT])
     @ (if g_ssn s then [PnSessionClose] else []) @ [PnConnectionClose]"

definition chk_loop_body :: "unit \<Rightarrow> chunked \<Rightarrow> halt + unit \<times> chunked" where
  "chk_loop_body u s = Inr ((), if stop s then emit (chk_closing s) s else s)"

definition chk_main :: "clock \<Rightarrow> encoder \<Rightarrow> opt list \<Rightarrow> chk_event list list \<Rightarrow> halt + chunked" where
  "chk_main clock enc opts ess =
     bnd (parse_opts chk_option opts chk_globals) (\<lambda>s.
     bnd (run (main_round (chk_event_handler clock enc) chk_loop_body)
           ((), emit [PnSetContainer (container_name s), PnSetHostname (host_address s)] s) ess) (\<lambda>(loc, s). Inr s))"

text \<open>
  The report: the number sent, what it calls accepted, the number not accepted; the duration in
  microseconds, an unsigned difference, and the rate.
\<close>

definition chk_counts :: "chunked \<Rightarrow> u64 \<times> u64 \<times> u64" where
  "chk_counts s = (count s, acked s, not_accepted s)"

definition chk_report :: "chunked \<Rightarrow> u64 \<times> rat" where
  "chk_report s =
     (let duration = stop_ts s - start_ts s
      in (duration,
          if 0 < duration then of_nat (unat (count s)) / (of_nat (unat duration) / of_int USECS_PER_SECOND)
          else 0))"

section \<open>What one event does\<close>

text \<open>The log of calls on whatever link.\<close>

definition chk_log :: "chunked \<Rightarrow> pn_call list" where
  "chk_log s = map unlinked (out s)"

definition chk_view :: "chunked \<Rightarrow> pn_call list \<times> bool \<times> u64 \<times> u64 \<times> u64 \<times> u64 \<times> u64 \<times> u64" where
  "chk_view s = (chk_log s, stop s, limit s, count s, tag s, acked s, accepted s, not_accepted s)"

lemma chk_log_emit [simp]: "chk_log (emit cs s) = chk_log s @ map unlinked cs"
  by (simp add: chk_log_def)

lemma chk_log_cong: "out s = out t \<Longrightarrow> chk_log s = chk_log t"
  by (simp add: chk_log_def)

lemma chk_mark_stop_Inr:
  "chk_mark_stop clock s = Inr s' \<Longrightarrow> \<exists>c t. s' = s\<lparr>clk := c, stop_ts := t\<rparr>"
  by (rule exI [of _ "clk s'"], rule exI [of _ "stop_ts s'"])
    (auto simp: chk_mark_stop_def bnd_eq_Inr dest!: now_usec_u64_Inr split: if_splits)

text \<open>The step of an event, as the contracts see it.\<close>

definition chk_step :: "chunked \<Rightarrow> chunked \<Rightarrow> bool" where
  "chk_step s s' \<longleftrightarrow> (\<exists>cs n. chk_log s' = chk_log s @ cs
     \<and> tags cs = map (\<lambda>i. tag s + of_nat i) [0..<n]
     \<and> count s' = count s + of_nat n \<and> tag s' = tag s + of_nat n
     \<and> (limit s \<noteq> 0 \<longrightarrow> count s \<le> limit s \<longrightarrow> unat (count s) + n \<le> unat (limit s))
     \<and> limit s' = limit s
     \<and> (stop s \<longrightarrow> stop s') \<and> (stop s' \<longrightarrow> stop s \<or> PnReactorWakeup \<in> set cs)
     \<and> acked s' + accepted s + not_accepted s = acked s + accepted s' + not_accepted s'
     \<and> of_nat (settles cs) + acked s = acked s')"

lemma chk_step_idle:
  assumes "chk_log s' = chk_log s @ cs" and "tags cs = []" and "settles cs = 0"
    and "count s' = count s" and "tag s' = tag s" and "limit s' = limit s"
    and "stop s' = stop s \<or> stop s' \<and> PnReactorWakeup \<in> set cs"
    and "acked s' = acked s" and "accepted s' = accepted s" and "not_accepted s' = not_accepted s"
  shows "chk_step s s'"
  unfolding chk_step_def
  by (rule exI [of _ cs], rule exI [of _ 0]) (use assms in \<open>auto simp: word_le_nat_alt\<close>)

lemma chk_step_refl: "chk_step s s"
  by (rule chk_step_idle [of s s "[]"]) simp_all

lemma chk_connection_init_Inr:
  "chk_connection_init enc s = Inr s' \<Longrightarrow> \<exists>bs sz. s' = (chk_open_endpoints s)
     \<lparr>encode_buffer := Some bs, encode_buffer_size := sz, encoded_data_size := of_nat (length bs)\<rparr>"
  unfolding chk_connection_init_def chk_generate_message_def by (rule encode_message_Inr)

lemma unlinked_open_links:
  "tags (map unlinked (concat (map (chk_open_link s) xs))) = []"
  "settles (map unlinked (concat (map (chk_open_link s) xs))) = 0"
  by (induction xs) (simp_all add: chk_open_link_def)

lemma chk_connection_init_step:
  assumes "chk_connection_init enc s = Inr s'"
  shows "chk_step s s'"
  using chk_connection_init_Inr [OF assms]
  by (intro chk_step_idle [where cs = "map unlinked ([PnConnectionOpen, PnSession, PnSessionOpen]
        @ concat (map (chk_open_link s) [0..<LINK_COUNT]))"])
    (auto simp: chk_open_endpoints_def chk_log_def unlinked_open_links)

text \<open>A flow event either starts a message, in which case the counter moves, or does not.\<close>

lemma chk_take_delivery_Inr:
  assumes "chk_take_delivery e s = Inr (d, t)"
  shows "t = s \<and> d = has_current e \<or>
    \<not> has_current e \<and> 0 < flow_credit e \<and> (limit s = 0 \<or> count s < limit s) \<and> d = dlv_made e
    \<and> t = s\<lparr>out := out s @ [OnLink (flow_link e) (PnDelivery (tag s))], count := count s + 1,
            tag := tag s + 1, link_offset := (link_offset s)(flow_link e \<mapsto> 0)\<rparr>"
  using assms
  by (auto simp: chk_take_delivery_def Let_def emit_def split: if_splits option.splits)

lemma chk_write_chunk_Inr:
  assumes "chk_write_chunk e s = Inr s'"
  obtains off where "link_offset s (flow_link e) = Some off"
    and "flow_wr e (take (unat (min write_size (encoded_data_size s - off)))
            (drop (unat off) (payload s))) = min write_size (encoded_data_size s - off)"
    and "s' = s\<lparr>out := out s @ OnLink (flow_link e) (PnLinkSend
          (take (nat (sint (min write_size (encoded_data_size s - off))))
           (take (unat (min write_size (encoded_data_size s - off))) (drop (unat off) (payload s)))))
        # (if off + min write_size (encoded_data_size s - off) = encoded_data_size s
           then [OnLink (flow_link e) PnLinkAdvance] else []),
        link_offset := (link_offset s)(flow_link e \<mapsto> off + min write_size (encoded_data_size s - off))\<rparr>"
proof (cases "link_offset s (flow_link e)")
  case None
  then show ?thesis using assms by (simp add: chk_write_chunk_def)
next
  case (Some off)
  show ?thesis
    by (rule that [OF Some]) (use assms Some in \<open>auto simp: chk_write_chunk_def Let_def emit_def split: if_splits\<close>)
qed

lemma chk_link_flow_step:
  assumes "chk_link_flow e s = Inr s'"
  shows "chk_step s s'"
proof -
  obtain d t where t: "chk_take_delivery e s = Inr (d, t)"
    and w: "(if d \<and> outgoing_bytes e < 1024 then chk_write_chunk e t else Inr t) = Inr s'"
    using assms by (auto simp: chk_link_flow_def bnd_eq_Inr)
  have "\<exists>cs. chk_log s' = chk_log t @ cs \<and> tags cs = [] \<and> settles cs = 0
      \<and> chk_view s' = (chk_log t @ cs, stop t, limit t, count t, tag t, acked t, accepted t, not_accepted t)"
  proof (cases "d \<and> outgoing_bytes e < 1024")
    case True
    then have "chk_write_chunk e t = Inr s'" using w by simp
    then show ?thesis
      by (rule chk_write_chunk_Inr) (auto simp: chk_view_def chk_log_def)
  qed (use w in \<open>auto intro!: exI [of _ "[]"] simp: chk_view_def\<close>)
  then obtain cs where cs: "chk_log s' = chk_log t @ cs" "tags cs = []" "settles cs = 0"
    "chk_view s' = (chk_log t @ cs, stop t, limit t, count t, tag t, acked t, accepted t, not_accepted t)"
    by blast
  from chk_take_delivery_Inr [OF t] show ?thesis
  proof
    assume "t = s \<and> d = has_current e"
    then show ?thesis using cs by (intro chk_step_idle [where cs = cs]) (simp_all add: chk_view_def)
  next
    assume n: "\<not> has_current e \<and> 0 < flow_credit e \<and> (limit s = 0 \<or> count s < limit s) \<and> d = dlv_made e
      \<and> t = s\<lparr>out := out s @ [OnLink (flow_link e) (PnDelivery (tag s))], count := count s + 1,
              tag := tag s + 1, link_offset := (link_offset s)(flow_link e \<mapsto> 0)\<rparr>"
    then have "limit s \<noteq> 0 \<Longrightarrow> Suc (unat (count s)) \<le> unat (limit s)"
      by (auto simp: word_less_nat_alt)
    then show ?thesis
      unfolding chk_step_def
      by (intro exI [of _ "PnDelivery (tag s) # cs"] exI [of _ 1])
        (use n cs in \<open>simp add: chk_view_def chk_log_def\<close>)
  qed
qed

lemma chk_outcome_step: "chk_step s (chk_outcome k rs s)"
  unfolding chk_step_def
  by (rule exI [of _ "if rs = PN_RECEIVED then [] else [PnSettle]"], rule exI [of _ 0])
    (auto simp: chk_outcome_def Let_def word_le_nat_alt chk_log_def)

text \<open>Marking the stop after a step is part of the step.\<close>

lemma chk_step_stop:
  assumes "chk_step s t" and "chk_log s' = chk_log t @ [PnReactorWakeup]"
    and "stop s'" and "limit s' = limit t" "count s' = count t" "tag s' = tag t"
    and "acked s' = acked t" "accepted s' = accepted t" "not_accepted s' = not_accepted t"
  shows "chk_step s s'"
proof -
  obtain cs n where "chk_log t = chk_log s @ cs" "tags cs = map (\<lambda>i. tag s + of_nat i) [0..<n]"
     "count t = count s + of_nat n \<and> tag t = tag s + of_nat n
     \<and> (limit s \<noteq> 0 \<longrightarrow> count s \<le> limit s \<longrightarrow> unat (count s) + n \<le> unat (limit s))
     \<and> limit t = limit s
     \<and> acked t + accepted s + not_accepted s = acked s + accepted t + not_accepted t
     \<and> of_nat (settles cs) + acked s = acked t"
    using assms(1) by (auto simp: chk_step_def)
  then show ?thesis
    unfolding chk_step_def
    by (intro exI [of _ "cs @ [PnReactorWakeup]"] exI [of _ n]) (use assms(2-) in simp)
qed

lemma chk_stopping_step:
  assumes "chk_step s t" and "bnd (chk_mark_stop clock (t\<lparr>stop := True\<rparr>)) (\<lambda>s. Inr (emit [PnReactorWakeup] s)) = Inr s'"
  shows "chk_step s s'"
proof -
  obtain u where u: "chk_mark_stop clock (t\<lparr>stop := True\<rparr>) = Inr u" "s' = emit [PnReactorWakeup] u"
    using assms(2) by (auto simp: bnd_eq_Inr)
  from chk_mark_stop_Inr [OF u(1)] obtain c x where "u = t\<lparr>stop := True, clk := c, stop_ts := x\<rparr>" by auto
  then show ?thesis using u(2) by (intro chk_step_stop [OF assms(1)]) (simp_all add: chk_log_def)
qed

lemma chk_event_step:
  assumes "chk_event_handler clock enc s e = Inr s'"
  shows "chk_step s s'"
proof (cases e)
  case CK_CONNECTION_INIT
  then show ?thesis using assms by (simp add: chk_connection_init_step)
next
  case CK_CONNECTION_BOUND
  then show ?thesis using assms
    by (intro chk_step_idle [where cs = "[PnSetMaxFrame max_frame]"]) auto
next
  case (CK_LINK_FLOW f)
  then show ?thesis using assms by (simp add: chk_link_flow_step)
next
  case (CK_DELIVERY k u rs)
  then show ?thesis
    using assms chk_outcome_step chk_stopping_step [OF chk_outcome_step]
    by (auto simp: chk_delivery_def Let_def chk_step_refl split: if_splits)
next
  case (CK_SIGNAL sig)
  have i: "chk_step s (s\<lparr>sig_ign := True\<rparr>)"
    by (rule chk_step_idle [where cs = "[]"]) (simp_all add: chk_log_def)
  have r: "sig \<noteq> SIGOTHER \<Longrightarrow> \<not> sig_ign s \<Longrightarrow>
      bnd (chk_mark_stop clock ((s\<lparr>sig_ign := True\<rparr>)\<lparr>stop := True\<rparr>)) (\<lambda>s. Inr (emit [PnReactorWakeup] s)) = Inr s'"
    using assms CK_SIGNAL by (cases sig) (simp_all add: chk_signal_handler_def)
  show ?thesis
  proof (cases "sig_ign s \<or> sig = SIGOTHER")
    case True
    then show ?thesis using assms CK_SIGNAL i by (auto simp: chk_signal_handler_def chk_step_refl split: if_splits)
  next
    case False
    then show ?thesis using chk_stopping_step [OF i r] by simp
  qed
next
  case CK_OTHER
  then show ?thesis using assms by (simp add: chk_step_refl)
qed

section \<open>The contracts\<close>

lemma chk_closing_calls:
  "tags (map unlinked (chk_closing s)) = []" "settles (map unlinked (chk_closing s)) = 0"
proof -
  let ?close = "\<lambda>x. if link_offset s x = None then [] else [OnLink x PnLinkClose]"
  have "tags (map unlinked (concat (map ?close xs))) = []
      \<and> settles (map unlinked (concat (map ?close xs))) = 0" for xs
    by (induction xs) simp_all
  then show "tags (map unlinked (chk_closing s)) = []" "settles (map unlinked (chk_closing s)) = 0"
    by (simp_all add: chk_closing_def)
qed

lemma chk_loop_body_Inr:
  assumes "chk_loop_body l s = Inr (l', s')"
  shows "s' = emit (if stop s then chk_closing s else []) s"
  using assms by (auto simp: chk_loop_body_def emit_def split: if_splits)

interpretation chk: stopping_loop "chk_event_handler clock enc" chk_log stop PnReactorWakeup
    chk_loop_body for clock enc
proof
  fix s s' :: chunked and e
  assume "chk_event_handler clock enc s e = Inr s'"
  then have a: "chk_step s s'" by (rule chk_event_step)
  show "\<exists>cs. chk_log s' = chk_log s @ cs" "stop s \<Longrightarrow> stop s'" using a by (auto simp: chk_step_def)
  show "\<not> stop s \<Longrightarrow> stop s' \<Longrightarrow> PnReactorWakeup \<in> set (chk_log s')" using a by (auto simp: chk_step_def)
next
  fix l l' and s s' :: chunked
  assume "chk_loop_body l s = Inr (l', s')"
  note b = chk_loop_body_Inr [OF this]
  show "\<exists>cs. chk_log s' = chk_log s @ cs" "stop s' = stop s" by (simp_all add: b)
qed

interpretation chk: budgeted_loop "chk_event_handler clock enc" chk_log limit count tag
    chk_loop_body for clock enc
proof
  fix s s' :: chunked and e
  assume "chk_event_handler clock enc s e = Inr s'"
  then obtain cs n where "chk_log s' = chk_log s @ cs" "tags cs = map (\<lambda>i. tag s + of_nat i) [0..<n]"
     "limit s' = limit s" "tag s' = tag s + of_nat n" "count s' = count s + of_nat n"
     "limit s \<noteq> 0 \<longrightarrow> count s \<le> limit s \<longrightarrow> unat (count s) + n \<le> unat (limit s)"
    using chk_event_step unfolding chk_step_def by blast
  then show "limit s' = limit s" "\<exists>n. tags (chk_log s') = tags (chk_log s) @ map (\<lambda>i. tag s + of_nat i) [0..<n]
      \<and> tag s' = tag s + of_nat n \<and> count s' = count s + of_nat n
      \<and> (limit s \<noteq> 0 \<longrightarrow> count s \<le> limit s \<longrightarrow> unat (count s) + n \<le> unat (limit s))"
    by auto
next
  fix l l' and s s' :: chunked
  assume "chk_loop_body l s = Inr (l', s')"
  note b = chk_loop_body_Inr [OF this]
  show "limit s' = limit s \<and> count s' = count s \<and> tag s' = tag s \<and> tags (chk_log s') = tags (chk_log s)"
    by (simp add: b chk_closing_calls)
qed

interpretation chk: ledger_loop "chk_event_handler clock enc" chk_log acked accepted not_accepted
    "\<lambda>e. False" "\<lambda>s. False" chk_loop_body for clock enc
proof
  fix s s' :: chunked and e
  assume "chk_event_handler clock enc s e = Inr s'"
  then have a: "chk_step s s'" by (rule chk_event_step)
  show "acked s' + accepted s + not_accepted s = acked s + accepted s' + not_accepted s'"
    using a by (auto simp: chk_step_def)
  show "of_nat (settles (chk_log s')) + acked s = of_nat (settles (chk_log s)) + acked s'"
    using a by (auto simp: chk_step_def algebra_simps)
next
  fix l l' and s s' :: chunked
  assume "chk_loop_body l s = Inr (l', s')"
  note b = chk_loop_body_Inr [OF this]
  show "acked s' = acked s \<and> accepted s' = accepted s \<and> not_accepted s' = not_accepted s
      \<and> False = False \<and> settles (chk_log s') = settles (chk_log s)"
    by (simp add: b chk_closing_calls)
qed simp

section \<open>Messages in chunks\<close>

text \<open>What the log of every link says when the offsets are right.\<close>

definition chunk_state :: "u8 list \<Rightarrow> u64 option \<Rightarrow> pn_call list \<Rightarrow> bool" where
  "chunk_state msg off cs \<longleftrightarrow>
     unat (case off of None \<Rightarrow> 0 | Some n \<Rightarrow> n) \<le> length msg
   \<and> in_progress [] cs = take (unat (case off of None \<Rightarrow> 0 | Some n \<Rightarrow> n)) msg
   \<and> set (finished [] cs) \<subseteq> {msg}
   \<and> (\<forall>bs. PnLinkSend bs \<in> set cs \<longrightarrow> length bs \<le> 64)"

definition chk_sound :: "u8 list \<Rightarrow> chunked \<Rightarrow> bool" where
  "chk_sound msg s \<longleftrightarrow> payload s = msg \<and> length msg = unat (encoded_data_size s)
     \<and> (\<forall>k. chunk_state msg (link_offset s k) (link_calls k (out s)))"

text \<open>Calls that write nothing leave it as it is.\<close>

lemma chunk_state_silent:
  assumes "list_all silent ds" and "chunk_state msg off cs"
  shows "chunk_state msg off (cs @ ds)"
proof -
  have "PnLinkSend bs \<notin> set ds" for bs
    using assms(1) by (auto simp: list_all_iff silent_def)
  then show ?thesis
    using assms in_progress_silent [OF assms(1)] by (auto simp: chunk_state_def)
qed

lemma chk_sound_quiet:
  assumes "chk_sound msg s" and "out s' = out s @ cs" and "\<forall>k. list_all silent (link_calls k cs)"
    and "payload s' = payload s" and "encoded_data_size s' = encoded_data_size s"
    and "link_offset s' = link_offset s"
  shows "chk_sound msg s'"
  using assms by (simp add: chk_sound_def chunk_state_silent)

lemma chunk_state_start:
  assumes "chunk_state msg off cs"
  shows "chunk_state msg (Some 0) (cs @ [PnDelivery t])"
  using assms by (simp add: chunk_state_def)

text \<open>One chunk: the next 64 bytes, or what is left, and the link advanced if nothing is.\<close>

lemma chunk_amount:
  assumes "off \<le> len"
  shows "unat (min write_size (len - off)) = min 64 (unat len - unat off)"
    and "unat (off + min write_size (len - off)) = unat off + min 64 (unat len - unat off)"
    and "sint (min write_size (len - off)) = int (min 64 (unat len - unat off))"
proof -
  have d: "unat (len - off) = unat len - unat off" using assms by (simp add: unat_sub word_le_nat_alt)
  show a: "unat (min write_size (len - off)) = min 64 (unat len - unat off)"
    by (simp add: min_def word_le_nat_alt d write_size_def)
  have "unat len < 2 ^ LENGTH(64)" by (rule unsigned_less)
  then have "unat off + unat (min write_size (len - off)) < 2 ^ LENGTH(64)"
    using assms a by (simp add: word_le_nat_alt)
  then show "unat (off + min write_size (len - off)) = unat off + min 64 (unat len - unat off)"
    using a by (simp add: unat_word_ariths)
  have "uint (min write_size (len - off)) = int (min 64 (unat len - unat off))"
    using a by (metis uint_nat)
  then show "sint (min write_size (len - off)) = int (min 64 (unat len - unat off))"
    by (simp add: sint_uint signed_take_bit_int_eq_self)
qed

lemma chk_write_chunk_sound:
  assumes "chk_sound msg s" and "chk_write_chunk e s = Inr s'"
  shows "chk_sound msg s'"
proof -
  let ?k = "flow_link e" and ?len = "encoded_data_size s" and ?msg = "payload s"
  obtain off where o: "link_offset s ?k = Some off"
    and s': "s' = s\<lparr>out := out s @ OnLink ?k (PnLinkSend
          (take (nat (sint (min write_size (?len - off))))
           (take (unat (min write_size (?len - off))) (drop (unat off) ?msg))))
        # (if off + min write_size (?len - off) = ?len then [OnLink ?k PnLinkAdvance] else []),
        link_offset := (link_offset s)(?k \<mapsto> off + min write_size (?len - off))\<rparr>"
    using assms(2) by (rule chk_write_chunk_Inr) blast
  have len: "length ?msg = unat ?len"
    and c: "chunk_state ?msg (Some off) (link_calls ?k (out s))"
    using assms(1) o by (auto simp: chk_sound_def dest: spec [of _ ?k])
  then have "off \<le> ?len" by (simp add: chunk_state_def word_le_nat_alt)
  note a = chunk_amount [OF this]
  let ?n = "min 64 (unat ?len - unat off)"
  have p: "payload s' = ?msg" by (rule payload_cong) (simp_all add: s')
  have e: "off + min write_size (?len - off) = ?len \<longleftrightarrow> unat off + ?n = unat ?len"
    by (metis a(2) word_unat_eq_iff)
  have "unat off \<le> unat ?len" using c len by (simp add: chunk_state_def)
  then have le: "unat off + ?n \<le> unat ?len" by linarith
  have "chunk_state ?msg (Some (off + min write_size (?len - off)))
      (link_calls ?k (out s) @ PnLinkSend (take ?n (drop (unat off) ?msg))
        # (if unat off + ?n = unat ?len then [PnLinkAdvance] else []))"
    using c len le unfolding chunk_state_def by (simp add: a take_add [symmetric])
  moreover have "link_calls ?k (out s') = link_calls ?k (out s) @ PnLinkSend (take ?n (drop (unat off) ?msg))
        # (if unat off + ?n = unat ?len then [PnLinkAdvance] else [])"
    unfolding s' by (simp add: a e)
  moreover have "link_calls j (out s') = link_calls j (out s)" if "j \<noteq> ?k" for j
    unfolding s' using that by simp
  moreover have "encoded_data_size s' = ?len" "link_offset s' = (link_offset s)(?k \<mapsto> off + min write_size (?len - off))"
    unfolding s' by simp_all
  ultimately show ?thesis
    using assms(1) by (auto simp: chk_sound_def p)
qed

lemma chk_take_delivery_sound:
  assumes "chk_sound msg s" and "chk_take_delivery e s = Inr (d, t)"
  shows "chk_sound msg t"
proof (cases "t = s")
  case False
  let ?k = "flow_link e"
  from False have t': "t = s\<lparr>out := out s @ [OnLink ?k (PnDelivery (tag s))], count := count s + 1,
          tag := tag s + 1, link_offset := (link_offset s)(?k \<mapsto> 0)\<rparr>"
    using chk_take_delivery_Inr [OF assms(2)] by blast
  have "payload t = payload s" by (rule payload_cong) (simp_all add: t')
  moreover have "chunk_state (payload s) (Some 0) (link_calls ?k (out s) @ [PnDelivery (tag s)])"
    using assms(1) chunk_state_start unfolding chk_sound_def by blast
  ultimately show ?thesis using assms(1) by (auto simp: chk_sound_def t')
qed (use assms(1) in simp)

lemma chk_link_flow_sound:
  assumes "chk_sound msg s" and "chk_link_flow e s = Inr s'"
  shows "chk_sound msg s'"
proof -
  obtain d t where t: "chk_take_delivery e s = Inr (d, t)"
    and w: "(if d \<and> outgoing_bytes e < 1024 then chk_write_chunk e t else Inr t) = Inr s'"
    using assms by (auto simp: chk_link_flow_def bnd_eq_Inr)
  then show ?thesis using chk_take_delivery_sound [OF assms(1) t] chk_write_chunk_sound
    by (cases "d \<and> outgoing_bytes e < 1024") auto
qed

text \<open>All events but the start of a connection, which makes the links anew, keep it.\<close>

lemma chk_stopping_sound:
  assumes "chk_sound msg s" and "bnd (chk_mark_stop clock (s\<lparr>stop := True\<rparr>)) (\<lambda>s. Inr (emit [PnReactorWakeup] s)) = Inr s'"
  shows "chk_sound msg s'"
proof -
  obtain u where u: "chk_mark_stop clock (s\<lparr>stop := True\<rparr>) = Inr u" "s' = emit [PnReactorWakeup] u"
    using assms(2) by (auto simp: bnd_eq_Inr)
  from chk_mark_stop_Inr [OF u(1)] obtain c x where u': "u = s\<lparr>stop := True, clk := c, stop_ts := x\<rparr>" by auto
  show ?thesis
    by (rule chk_sound_quiet [OF assms(1), where cs = "[PnReactorWakeup]"])
      (auto simp: u(2) u' intro!: payload_cong)
qed

lemma chk_outcome_sound:
  assumes "chk_sound msg s"
  shows "chk_sound msg (chk_outcome k rs s)"
proof (cases "rs = PN_RECEIVED")
  case True
  then show ?thesis using assms by (simp add: chk_outcome_def)
next
  case False
  then show ?thesis
    by (intro chk_sound_quiet [OF assms, where cs = "[OnLink k PnSettle]"])
      (auto simp: chk_outcome_def Let_def silent_def intro!: payload_cong)
qed

lemma chk_event_sound:
  assumes "chk_sound msg s" and "e \<noteq> CK_CONNECTION_INIT" and "chk_event_handler clock enc s e = Inr s'"
  shows "chk_sound msg s'"
proof (cases e)
  case CK_CONNECTION_INIT
  then show ?thesis using assms(2) by simp
next
  case CK_CONNECTION_BOUND
  show ?thesis
    by (rule chk_sound_quiet [OF assms(1), where cs = "[PnSetMaxFrame max_frame]"])
      (use assms(3) CK_CONNECTION_BOUND in \<open>auto intro!: payload_cong\<close>)
next
  case (CK_LINK_FLOW f)
  then show ?thesis using assms chk_link_flow_sound by simp
next
  case (CK_DELIVERY k u rs)
  then show ?thesis
    using assms chk_outcome_sound chk_stopping_sound [OF chk_outcome_sound]
    by (auto simp: chk_delivery_def Let_def split: if_splits)
next
  case (CK_SIGNAL sig)
  have i: "chk_sound msg (s\<lparr>sig_ign := True\<rparr>)"
    by (rule chk_sound_quiet [OF assms(1), where cs = "[]"]) (auto intro!: payload_cong)
  have r: "sig \<noteq> SIGOTHER \<Longrightarrow> \<not> sig_ign s \<Longrightarrow>
      bnd (chk_mark_stop clock ((s\<lparr>sig_ign := True\<rparr>)\<lparr>stop := True\<rparr>)) (\<lambda>s. Inr (emit [PnReactorWakeup] s)) = Inr s'"
    using assms CK_SIGNAL by (cases sig) (simp_all add: chk_signal_handler_def)
  show ?thesis
  proof (cases "sig_ign s \<or> sig = SIGOTHER")
    case True
    then show ?thesis using assms CK_SIGNAL i by (auto simp: chk_signal_handler_def split: if_splits)
  next
    case False
    then show ?thesis using chk_stopping_sound [OF i r] by simp
  qed
next
  case CK_OTHER
  then show ?thesis using assms by simp
qed

lemma chk_body_sound:
  assumes "chk_sound msg s" and "chk_loop_body l s = Inr (l', s')"
  shows "chk_sound msg s'"
proof -
  have "list_all silent (link_calls k (concat (map (\<lambda>x. if link_offset s x = None then []
      else [OnLink x PnLinkClose]) xs)))" for k xs
    by (induction xs) (auto simp: silent_def)
  then have "\<forall>k. list_all silent (link_calls k (chk_closing s))" by (simp add: chk_closing_def)
  then show ?thesis
    by (intro chk_sound_quiet [OF assms(1), where cs = "if stop s then chk_closing s else []"])
      (auto simp: chk_loop_body_Inr [OF assms(2)] intro!: payload_cong)
qed

lemma chk_round_sound:
  assumes "chk_sound msg (snd ls)" and "CK_CONNECTION_INIT \<notin> set es"
    and "main_round (chk_event_handler clock enc) chk_loop_body ls es = Inr ls'"
  shows "chk_sound msg (snd ls')"
proof -
  obtain t where t: "run (chk_event_handler clock enc) (snd ls) es = Inr t"
    "chk_loop_body (fst ls) t = Inr (fst ls', snd ls')"
    using assms(3) unfolding main_round_def bnd_eq_Inr by (metis prod.collapse)
  have "chk_sound msg t"
    by (rule run_preserves [where P = "chk_sound msg", OF _ assms(1) t(1)])
      (use assms(2) chk_event_sound in metis)
  then show ?thesis using t(2) by (rule chk_body_sound)
qed

text \<open>The start of the connection establishes it, on a log with nothing of the links in it.\<close>

lemma chk_init_sound:
  assumes "chk_connection_init enc s = Inr s'" and "\<forall>k. link_calls k (out s) = []" and "link_offset s = (\<lambda>k. None)"
  shows "chk_sound (payload s') s'"
proof -
  obtain bs sz where s': "s' = (chk_open_endpoints s)\<lparr>encode_buffer := Some bs,
      encode_buffer_size := sz, encoded_data_size := of_nat (length bs)\<rparr>"
    using chk_connection_init_Inr [OF assms(1)] by blast
  have "take_bit 64 (length bs) \<le> length bs" by (rule take_bit_nat_less_eq_self)
  then have "length (payload s') = unat (encoded_data_size s')"
    by (simp add: s' payload_def unat_of_nat)
  moreover have "list_all silent (link_calls k (concat (map (chk_open_link s) xs)))" for k xs
    by (induction xs) (auto simp: silent_def chk_open_link_def)
  then have l: "list_all silent (link_calls k (out s'))" for k
    using assms(2) by (simp add: s' chk_open_endpoints_def)
  have "chunk_state (payload s') None (link_calls k (out s'))" for k
    using chunk_state_silent [OF l, of "payload s'" None "[]"] by (simp add: chunk_state_def)
  moreover have "chunk_state m (Some 0) cs = chunk_state m None cs" for m cs by (simp add: chunk_state_def)
  ultimately show ?thesis by (auto simp: chk_sound_def s' chk_open_endpoints_def assms(3))
qed

section \<open>Chunks until a message is done\<close>

text \<open>A \<open>pn_link_send()\<close> that takes all it is given, and a flow event of a link with a delivery and room.\<close>

definition taken_whole :: "u8 list \<Rightarrow> u64" where
  "taken_whole bs = of_nat (length bs)"

definition roomy_flow :: "nat \<Rightarrow> chk_flow" where
  "roomy_flow k = \<lparr>flow_link = k, has_current = True, flow_credit = 1, dlv_made = True,
     outgoing_bytes = 0, flow_wr = taken_whole\<rparr>"

lemma chk_write_taken:
  assumes "chk_sound msg s" and "link_offset s (flow_link e) = Some off" and "flow_wr e = taken_whole"
  shows "\<exists>s'. chk_write_chunk e s = Inr s' \<and> chk_sound msg s'
    \<and> (\<exists>off'. link_offset s' = (link_offset s)(flow_link e \<mapsto> off') \<and> unat off' = unat off + min 64 (length msg - unat off))
    \<and> out s' = out s @ OnLink (flow_link e) (PnLinkSend (take 64 (drop (unat off) msg)))
        # (if length msg \<le> unat off + 64 then [OnLink (flow_link e) PnLinkAdvance] else [])"
proof -
  let ?len = "encoded_data_size s" and ?k = "flow_link e"
  have len: "length msg = unat ?len" "payload s = msg"
    using assms(1) by (simp_all add: chk_sound_def)
  have "chunk_state msg (Some off) (link_calls ?k (out s))"
    using assms(1,2) unfolding chk_sound_def by metis
  then have le: "unat off \<le> unat ?len" by (simp add: chunk_state_def len)
  then have "off \<le> ?len" by (simp add: word_le_nat_alt)
  note a = chunk_amount [OF this]
  let ?n = "min 64 (unat ?len - unat off)"
  have "off + min write_size (?len - off) = ?len \<longleftrightarrow> unat off + ?n = unat ?len"
    by (metis a(2) word_unat_eq_iff)
  then have e: "off + min write_size (?len - off) = ?len \<longleftrightarrow> unat ?len \<le> unat off + 64"
    using le by (simp add: min_def) linarith
  have w: "take ?n (drop (unat off) msg) = take 64 (drop (unat off) msg)"
    by (simp add: len(1) [symmetric] min_def)
  have "(of_nat ?n :: u64) = min write_size (?len - off)"
    by (simp add: word_unat_eq_iff a(1) unat_of_nat take_bit_nat_eq_self)
  then have "taken_whole (take ?n (drop (unat off) msg)) = min write_size (?len - off)"
    by (simp add: taken_whole_def len min.assoc)
  then have rc: "taken_whole (take 64 (drop (unat off) msg)) = min write_size (?len - off)"
    by (simp only: w)
  define t where "t = s\<lparr>out := out s @ OnLink ?k (PnLinkSend (take 64 (drop (unat off) msg)))
        # (if unat ?len \<le> unat off + 64 then [OnLink ?k PnLinkAdvance] else []),
        link_offset := (link_offset s)(?k \<mapsto> off + min write_size (?len - off))\<rparr>"
  have c: "chk_write_chunk e s = Inr t"
    using assms(2,3) by (simp add: chk_write_chunk_def Let_def len a w rc e t_def emit_def)
  moreover have "chk_sound msg t" by (rule chk_write_chunk_sound [OF assms(1) c])
  ultimately show ?thesis
    by (intro exI [of _ t] conjI exI [of _ "off + min write_size (?len - off)"])
      (simp_all add: t_def a len)
qed

lemma chunks_left:
  assumes "n < len"
  shows "len \<le> n + 64 \<Longrightarrow> (len - n + 63) div 64 = 1"
    and "n + 64 < len \<Longrightarrow> (len - n + 63) div 64 = Suc ((len - (n + 64) + 63) div 64)"
proof -
  obtain d where d: "len = n + d" "0 < d" using assms less_imp_add_positive by blast
  show "len \<le> n + 64 \<Longrightarrow> (len - n + 63) div 64 = 1" using d by (simp add: div_nat_eqI)
  assume "n + 64 < len"
  then obtain r where "d = 64 + r" using d less_imp_add_positive [of 64 d] by auto
  then have "len - n + 63 = 64 + (len - (n + 64) + 63)" using d by simp
  then show "(len - n + 63) div 64 = Suc ((len - (n + 64) + 63) div 64)" by (simp only: div_add_self1)
qed

text \<open>
  \<open>rooms\<close> counts the flow events of link \<open>k\<close> that find room in the session. \<open>orderly\<close> events do not open the
  connection again, belong to links that were opened, and come from a Proton that takes the chunks and
  keeps the delivery of link \<open>k\<close> current.
\<close>

fun roomy :: "nat \<Rightarrow> chk_event \<Rightarrow> bool" where
  "roomy k (CK_LINK_FLOW e) \<longleftrightarrow> flow_link e = k \<and> outgoing_bytes e < 1024"
| "roomy k e \<longleftrightarrow> False"

definition rooms :: "nat \<Rightarrow> chk_event list \<Rightarrow> nat" where
  "rooms k es = length (filter (roomy k) es)"

fun orderly :: "nat \<Rightarrow> chk_event \<Rightarrow> bool" where
  "orderly k CK_CONNECTION_INIT \<longleftrightarrow> False"
| "orderly k (CK_LINK_FLOW e) \<longleftrightarrow> flow_wr e = taken_whole \<and> flow_link e < LINK_COUNT \<and> (flow_link e = k \<longrightarrow> has_current e)"
| "orderly k e \<longleftrightarrow> True"

definition opened :: "chunked \<Rightarrow> bool" where
  "opened s \<longleftrightarrow> (\<forall>j < LINK_COUNT. link_offset s j \<noteq> None)"

text \<open>An event other than a flow event of \<open>k\<close> with room, as link \<open>k\<close> sees it: nothing is written.\<close>

definition chk_other :: "nat \<Rightarrow> chunked \<Rightarrow> chunked \<Rightarrow> bool" where
  "chk_other k s s' \<longleftrightarrow> (opened s \<longrightarrow> opened s') \<and> link_offset s' k = link_offset s k
     \<and> sent_bytes (link_calls k (out s')) = sent_bytes (link_calls k (out s))
     \<and> advances (link_calls k (out s')) = advances (link_calls k (out s))"

lemma chk_other_quiet:
  assumes "out s' = out s @ cs" and "list_all silent (link_calls k cs)" and "link_offset s' = link_offset s"
  shows "chk_other k s s'"
  using assms silent_calls [OF assms(2)] by (simp add: chk_other_def opened_def)

lemma chk_stopping_other:
  assumes "clock_works clock" and "out s = out t @ cs" and "list_all silent (link_calls k cs)"
    and "link_offset s = link_offset t"
  shows "\<exists>s'. bnd (chk_mark_stop clock (s\<lparr>stop := True\<rparr>)) (\<lambda>s. Inr (emit [PnReactorWakeup] s)) = Inr s' \<and> chk_other k t s'"
proof -
  obtain x where "now_usec_u64 clock (s\<lparr>stop := True\<rparr>) = Inr (x, s\<lparr>stop := True, clk := Suc (clk s)\<rparr>)"
    using now_works(2) [OF assms(1), of "s\<lparr>stop := True\<rparr>"] by auto
  then have "\<exists>u. chk_mark_stop clock (s\<lparr>stop := True\<rparr>) = Inr u" by (simp add: chk_mark_stop_def)
  then obtain u where u: "chk_mark_stop clock (s\<lparr>stop := True\<rparr>) = Inr u" by blast
  from chk_mark_stop_Inr [OF u] obtain c y where "u = s\<lparr>stop := True, clk := c, stop_ts := y\<rparr>" by auto
  then have "chk_other k t (emit [PnReactorWakeup] u)"
    using assms(2-4) by (intro chk_other_quiet [where cs = "cs @ [PnReactorWakeup]"]) simp_all
  then show ?thesis using u by simp
qed

lemma chk_other_flow:
  assumes "chk_sound msg s" and "opened s" and "orderly k (CK_LINK_FLOW e)" and "\<not> roomy k (CK_LINK_FLOW e)"
  shows "\<exists>s'. chk_link_flow e s = Inr s' \<and> chk_other k s s'"
proof (cases "flow_link e = k")
  case True
  then have "chk_link_flow e s = Inr s" using assms(3,4) by (simp add: chk_link_flow_def chk_take_delivery_def)
  then show ?thesis by (simp add: chk_other_def)
next
  case False
  let ?j = "flow_link e"
  have j: "?j < LINK_COUNT" "flow_wr e = taken_whole" using assms(3) by simp_all
  then obtain off where off: "link_offset s ?j = Some off" using assms(2) by (auto simp: opened_def)
  then have "isl (chk_take_delivery e s) = False" by (auto simp: chk_take_delivery_def Let_def)
  then obtain d t where t: "chk_take_delivery e s = Inr (d, t)" by (cases "chk_take_delivery e s") auto
  have w: "chk_link_flow e s = (if d \<and> outgoing_bytes e < 1024 then chk_write_chunk e t else Inr t)"
    using t by (simp add: chk_link_flow_def)
  have t': "chk_sound msg t" by (rule chk_take_delivery_sound [OF assms(1) t])
  have o: "chk_other k s t" "\<exists>off'. link_offset t ?j = Some off'"
    using chk_take_delivery_Inr [OF t] off False by (auto simp: chk_other_def opened_def)
  then obtain off' where off': "link_offset t ?j = Some off'" by blast
  show ?thesis
  proof (cases "d \<and> outgoing_bytes e < 1024")
    case True
    obtain u where u: "chk_write_chunk e t = Inr u" "\<exists>o'. link_offset u = (link_offset t)(?j \<mapsto> o')"
        "\<exists>bs. out u = out t @ OnLink ?j (PnLinkSend bs) # (if length msg \<le> unat off' + 64 then [OnLink ?j PnLinkAdvance] else [])"
      using chk_write_taken [OF t' off' j(2)] by blast
    then have "chk_other k s u" using o(1) False by (auto simp: chk_other_def opened_def)
    then show ?thesis using u(1) w True by simp
  next
    case False
    then show ?thesis using w o(1) by auto
  qed
qed

lemma chk_other_event:
  assumes "clock_works clock" and "chk_sound msg s" and "opened s" and "orderly k e" and "\<not> roomy k e"
  shows "\<exists>s'. chk_event_handler clock enc s e = Inr s' \<and> chk_sound msg s' \<and> chk_other k s s'"
proof -
  have "\<exists>s'. chk_event_handler clock enc s e = Inr s' \<and> chk_other k s s'"
  proof (cases e)
    case CK_CONNECTION_BOUND
    have "chk_other k s (emit [PnSetMaxFrame max_frame] s)"
      by (rule chk_other_quiet [where cs = "[PnSetMaxFrame max_frame]"]) simp_all
    then show ?thesis using CK_CONNECTION_BOUND by simp
  next
    case (CK_LINK_FLOW f)
    then show ?thesis using chk_other_flow assms(2-5) by simp
  next
    case (CK_DELIVERY j u rs)
    obtain cs where cs: "out (chk_outcome j rs s) = out s @ cs" "list_all silent (link_calls k cs)"
        "link_offset (chk_outcome j rs s) = link_offset s"
      by (rule that [of "if rs = PN_RECEIVED then [] else [OnLink j PnSettle]"])
        (auto simp: chk_outcome_def Let_def silent_def)
    have "chk_other k s (chk_outcome j rs s)" by (rule chk_other_quiet [OF cs])
    moreover have "chk_other k s s" by (simp add: chk_other_def)
    ultimately show ?thesis
      using CK_DELIVERY chk_stopping_other [OF assms(1) cs] by (simp add: chk_delivery_def Let_def)
  next
    case (CK_SIGNAL sig)
    have s: "\<exists>s'. bnd (chk_mark_stop clock ((s\<lparr>sig_ign := True\<rparr>)\<lparr>stop := True\<rparr>)) (\<lambda>s. Inr (emit [PnReactorWakeup] s))
        = Inr s' \<and> chk_other k s s'"
      by (rule chk_stopping_other [OF assms(1), where cs = "[]"]) simp_all
    moreover have "chk_other k s s" "chk_other k s (s\<lparr>sig_ign := True\<rparr>)" by (simp_all add: chk_other_def opened_def)
    ultimately show ?thesis using CK_SIGNAL by (cases sig) (auto simp: chk_signal_handler_def)
  next
    case CK_OTHER
    then show ?thesis by (simp add: chk_other_def)
  qed (use assms(4) in simp)
  moreover have "e \<noteq> CK_CONNECTION_INIT" using assms(4) by auto
  ultimately show ?thesis using chk_event_sound [OF assms(2)] by blast
qed

lemma chk_chunks_written:
  assumes "clock_works clock" and "chk_sound msg s" and "opened s" and "link_offset s k = Some off"
    and "\<forall>e \<in> set es. orderly k e" and "rooms k es \<le> (length msg - unat off + 63) div 64"
  shows "\<exists>s'. run (chk_event_handler clock enc) s es = Inr s'
    \<and> sent_bytes (link_calls k (out s')) = sent_bytes (link_calls k (out s)) @ take (64 * rooms k es) (drop (unat off) msg)
    \<and> advances (link_calls k (out s')) = advances (link_calls k (out s))
        + of_bool (unat off < length msg \<and> rooms k es = (length msg - unat off + 63) div 64)"
  using assms(2-)
proof (induction es arbitrary: s off)
  case Nil
  then show ?case by (auto simp: rooms_def)
next
  case (Cons e es)
  let ?left = "\<lambda>off. (length msg - unat (off :: u64) + 63) div 64"
  show ?case
  proof (cases "roomy k e")
    case False
    have "orderly k e" using Cons.prems(4) by simp
    from chk_other_event [OF assms(1) Cons.prems(1,2) this False, of enc]
    obtain t where t: "chk_event_handler clock enc s e = Inr t" "chk_sound msg t" "chk_other k s t" by blast
    have r: "rooms k (e # es) = rooms k es" using False by (simp add: rooms_def)
    have o: "opened t" "link_offset t k = Some off" using t(3) Cons.prems(2,3) by (simp_all add: chk_other_def)
    have "\<exists>s'. run (chk_event_handler clock enc) t es = Inr s'
      \<and> sent_bytes (link_calls k (out s')) = sent_bytes (link_calls k (out t)) @ take (64 * rooms k es) (drop (unat off) msg)
      \<and> advances (link_calls k (out s')) = advances (link_calls k (out t)) + of_bool (unat off < length msg \<and> rooms k es = ?left off)"
      by (rule Cons.IH [OF t(2) o]) (use Cons.prems(4,5) r in simp_all)
    then show ?thesis using t(1,3) r by (simp add: chk_other_def)
  next
    case True
    then obtain f where f: "e = CK_LINK_FLOW f" "flow_link f = k" "outgoing_bytes f < 1024" "has_current f" "flow_wr f = taken_whole"
      using Cons.prems(4) by (cases e) auto
    have r: "rooms k (e # es) = Suc (rooms k es)" using True by (simp add: rooms_def)
    then have lt: "unat off < length msg" using Cons.prems(5) by (cases "unat off < length msg") simp_all
    obtain t off' where t: "chk_write_chunk f s = Inr t" "chk_sound msg t" "link_offset t = (link_offset s)(k \<mapsto> off')"
      "unat off' = unat off + min 64 (length msg - unat off)"
      "out t = out s @ OnLink k (PnLinkSend (take 64 (drop (unat off) msg)))
        # (if length msg \<le> unat off + 64 then [OnLink k PnLinkAdvance] else [])"
      using chk_write_taken [OF Cons.prems(1) _ f(5)] Cons.prems(3) f(2) by metis
    have h: "chk_event_handler clock enc s e = Inr t"
      using f t(1) by (simp add: chk_link_flow_def chk_take_delivery_def)
    have o: "opened t" "link_offset t k = Some off'" using t(3) Cons.prems(2) by (simp_all add: opened_def)
    have left: "?left off = Suc (?left off')"
      using chunks_left [OF lt] t(4) by (cases "length msg \<le> unat off + 64") simp_all
    have "\<exists>s'. run (chk_event_handler clock enc) t es = Inr s'
      \<and> sent_bytes (link_calls k (out s')) = sent_bytes (link_calls k (out t)) @ take (64 * rooms k es) (drop (unat off') msg)
      \<and> advances (link_calls k (out s')) = advances (link_calls k (out t)) + of_bool (unat off' < length msg \<and> rooms k es = ?left off')"
      by (rule Cons.IH [OF t(2) o]) (use Cons.prems(4,5) r left in simp_all)
    then obtain s' where s': "run (chk_event_handler clock enc) t es = Inr s'"
      "sent_bytes (link_calls k (out s')) = sent_bytes (link_calls k (out t)) @ take (64 * rooms k es) (drop (unat off') msg)"
      "advances (link_calls k (out s')) = advances (link_calls k (out t)) + of_bool (unat off' < length msg \<and> rooms k es = ?left off')"
      by blast
    have "take 64 (drop (unat off) msg) @ take (64 * rooms k es) (drop (unat off') msg)
        = take (64 * Suc (rooms k es)) (drop (unat off) msg)"
    proof (cases "length msg \<le> unat off + 64")
      case True
      then show ?thesis using t(4) by simp
    next
      case False
      then have "unat off' = 64 + unat off" using t(4) by simp
      then show ?thesis by (simp add: take_add add.commute)
    qed
    moreover have "advances (link_calls k (out t)) = advances (link_calls k (out s)) + of_bool (length msg \<le> unat off + 64)"
      using t(5) by simp
    moreover have "rooms k es = ?left off'" if "length msg \<le> unat off + 64"
      using Cons.prems(5) r left that t(4) by simp
    ultimately show ?thesis using h s' r left lt t(4,5)
      by (cases "length msg \<le> unat off + 64") simp_all
  qed
qed

section \<open>Whole programs\<close>

lemma chk_main_rounds:
  assumes "chk_main clock enc opts ess = Inr s"
  obtains g l where "parse_opts chk_option opts chk_globals = Inr g"
    and "run (main_round (chk_event_handler clock enc) chk_loop_body)
        ((), emit [PnSetContainer (container_name g), PnSetHostname (host_address g)] g) ess = Inr (l, s)"
  using assms by (auto simp: chk_main_def bnd_eq_Inr)

text \<open>What parsing the options leaves alone.\<close>

definition chk_sizes :: "int set" where
  "chk_sizes = {BODY_SIZE_SMALL, BODY_SIZE_MEDIUM, BODY_SIZE_LARGE, CHK_BODY_SIZE_WUMBO}"

definition chk_fresh :: "chunked \<Rightarrow> bool" where
  "chk_fresh s \<longleftrightarrow> out s = [] \<and> \<not> stop s \<and> count s = 0 \<and> tag s = 0 \<and> acked s = 0 \<and> accepted s = 0
     \<and> not_accepted s = 0 \<and> start_ts s = 0 \<and> stop_ts s = 0 \<and> \<not> g_ssn s \<and> encode_buffer s = None
     \<and> link_offset s = (\<lambda>k. None) \<and> body_size s \<in> chk_sizes"

lemma chk_fresh_options [simp]:
  "chk_fresh (s\<lparr>host_address := a\<rparr>) = chk_fresh s" "chk_fresh (s\<lparr>limit := l\<rparr>) = chk_fresh s"
  "chk_fresh (s\<lparr>container_name := a\<rparr>) = chk_fresh s" "chk_fresh (s\<lparr>use_anonymous := b\<rparr>) = chk_fresh s"
  "chk_fresh (s\<lparr>target_address := a\<rparr>) = chk_fresh s"
  "n \<in> chk_sizes \<Longrightarrow> chk_fresh s \<Longrightarrow> chk_fresh (s\<lparr>body_size := n\<rparr>)"
  by (simp_all add: chk_fresh_def)

lemma chk_body_size_range: "chk_body_size a = Some n \<Longrightarrow> n \<in> chk_sizes"
  by (auto simp: chk_body_size_def chk_sizes_def split: if_splits)

lemma chk_parse_fresh:
  assumes "parse_opts chk_option opts chk_globals = Inr g"
  shows "chk_fresh g"
proof (rule parse_opts_preserves [OF _ _ assms])
  show "chk_fresh chk_globals" by (simp add: chk_fresh_def chk_globals_def chk_sizes_def)
next
  fix p s s'
  assume "chk_option p s = Inr s'" "chk_fresh s"
  then show "chk_fresh s'"
    by (cases p) (auto simp: chk_option_def usage_def chk_body_size_range split: if_split_asm option.split_asm)
qed

text \<open>
  The start of the session is never marked, and \<open>main()\<close> never learns of the session: the
  assignment in the handler is to a local of the same name.
\<close>

definition chk_unmarked :: "chunked \<Rightarrow> bool" where
  "chk_unmarked s \<longleftrightarrow> start_ts s = 0 \<and> \<not> g_ssn s \<and> PnSessionClose \<notin> set (out s)"

lemma chk_unmarked_mark:
  assumes "bnd (chk_mark_stop clock (s\<lparr>stop := True\<rparr>)) (\<lambda>s. Inr (emit [PnReactorWakeup] s)) = Inr s'"
    and "chk_unmarked s"
  shows "chk_unmarked s'"
proof -
  obtain u where u: "chk_mark_stop clock (s\<lparr>stop := True\<rparr>) = Inr u" "s' = emit [PnReactorWakeup] u"
    using assms(1) by (auto simp: bnd_eq_Inr)
  from chk_mark_stop_Inr [OF u(1)] obtain c x where "u = s\<lparr>stop := True, clk := c, stop_ts := x\<rparr>" by auto
  then show ?thesis using u(2) assms(2) by (simp add: chk_unmarked_def)
qed

lemma chk_unmarked_init:
  assumes "chk_connection_init enc s = Inr s'" and "chk_unmarked s"
  shows "chk_unmarked s'"
proof -
  have "PnSessionClose \<notin> set (concat (map (chk_open_link s) xs))" for xs
    by (induction xs) (simp_all add: chk_open_link_def)
  then show ?thesis using assms(2) chk_connection_init_Inr [OF assms(1)]
    by (auto simp: chk_unmarked_def chk_open_endpoints_def simp del: set_concat)
qed

lemma chk_unmarked_flow:
  assumes "chk_link_flow e s = Inr s'" and "chk_unmarked s"
  shows "chk_unmarked s'"
proof -
  obtain d t where t: "chk_take_delivery e s = Inr (d, t)"
    and w: "(if d \<and> outgoing_bytes e < 1024 then chk_write_chunk e t else Inr t) = Inr s'"
    using assms by (auto simp: chk_link_flow_def bnd_eq_Inr)
  have t': "chk_unmarked t" using chk_take_delivery_Inr [OF t] assms(2) by (auto simp: chk_unmarked_def)
  show ?thesis
  proof (cases "d \<and> outgoing_bytes e < 1024")
    case True
    then have "chk_write_chunk e t = Inr s'" using w by simp
    then show ?thesis by (rule chk_write_chunk_Inr) (use t' in \<open>auto simp: chk_unmarked_def\<close>)
  qed (use w t' in auto)
qed

lemma chk_unmarked_event:
  assumes "chk_event_handler clock enc s e = Inr s'" and "chk_unmarked s"
  shows "chk_unmarked s'"
proof (cases e)
  case (CK_DELIVERY k u rs)
  have "chk_unmarked (chk_outcome k rs s)"
    using assms(2) by (auto simp: chk_outcome_def chk_unmarked_def Let_def)
  then show ?thesis
    using assms CK_DELIVERY chk_unmarked_mark by (auto simp: chk_delivery_def Let_def split: if_splits)
next
  case (CK_SIGNAL sig)
  have i: "chk_unmarked (s\<lparr>sig_ign := True\<rparr>)" using assms(2) by (simp add: chk_unmarked_def)
  have "sig \<noteq> SIGOTHER \<Longrightarrow> \<not> sig_ign s \<Longrightarrow>
      bnd (chk_mark_stop clock ((s\<lparr>sig_ign := True\<rparr>)\<lparr>stop := True\<rparr>)) (\<lambda>s. Inr (emit [PnReactorWakeup] s)) = Inr s'"
    using assms CK_SIGNAL by (cases sig) (simp_all add: chk_signal_handler_def)
  then show ?thesis
    using assms CK_SIGNAL i chk_unmarked_mark [OF _ i]
    by (cases "sig_ign s \<or> sig = SIGOTHER") (auto simp: chk_signal_handler_def split: if_splits)
qed (use assms chk_unmarked_init chk_unmarked_flow in \<open>auto simp: chk_unmarked_def\<close>)

lemma chk_unmarked_body:
  assumes "chk_loop_body l s = Inr (l', s')" and "chk_unmarked s"
  shows "chk_unmarked s'"
proof -
  have "PnSessionClose \<notin> set (concat (map (\<lambda>x. if link_offset s x = None then []
      else [OnLink x PnLinkClose]) xs))" for xs
    by (induction xs) auto
  then show ?thesis using assms(2) chk_loop_body_Inr [OF assms(1)]
    by (auto simp: chk_unmarked_def chk_closing_def simp del: set_concat split: if_splits)
qed

lemma chk_unmarked_round:
  assumes "chk_unmarked (snd ls)" and "main_round (chk_event_handler clock enc) chk_loop_body ls es = Inr ls'"
  shows "chk_unmarked (snd ls')"
proof -
  obtain t where t: "run (chk_event_handler clock enc) (snd ls) es = Inr t"
    "chk_loop_body (fst ls) t = Inr (fst ls', snd ls')"
    using assms(2) unfolding main_round_def bnd_eq_Inr by (metis prod.collapse)
  have "chk_unmarked t"
    by (rule run_preserves [where P = chk_unmarked, OF _ assms(1) t(1)]) (rule chk_unmarked_event)
  then show ?thesis by (rule chk_unmarked_body [OF t(2)])
qed

section \<open>Properties\<close>

text \<open>C34: the chunked sender interleaves its links, but on each link the chunks of a message
  follow each other: whenever a link is advanced, the bytes written since its delivery was made are
  exactly the encoded message, the bytes of the delivery in progress are a prefix of it, and no
  chunk is longer than 64 bytes; whatever the credit, the backlog and the answers of Proton.\<close>

theorem chk_links_carry_whole_messages:
  assumes "parse_opts chk_option opts chk_globals = Inr g"
    and "encodes_as enc (chk_message g) msg" and "length msg \<le> 2 ^ 63"
    and "chk_main clock enc opts ((CK_CONNECTION_INIT # es) # ess) = Inr s"
    and "CK_CONNECTION_INIT \<notin> set es \<union> \<Union> (set (map set ess))"
  shows "set (finished [] (link_calls k (out s))) \<subseteq> {msg}
    \<and> in_progress [] (link_calls k (out s)) = take (length (in_progress [] (link_calls k (out s)))) msg
    \<and> (\<forall>bs. PnLinkSend bs \<in> set (link_calls k (out s)) \<longrightarrow> length bs \<le> 64)"
proof -
  have f: "chk_fresh g" by (rule chk_parse_fresh [OF assms(1)])
  let ?g = "emit [PnSetContainer (container_name g), PnSetHostname (host_address g)] g"
  let ?u = "chk_open_endpoints ?g"
  obtain l where r: "run (main_round (chk_event_handler clock enc) chk_loop_body) ((), ?g)
      ((CK_CONNECTION_INIT # es) # ess) = Inr (l, s)"
    using chk_main_rounds [OF assms(4)] assms(1) by (metis Inr_inject)
  then obtain i where i: "chk_connection_init enc ?g = Inr i"
    and r': "run (main_round (chk_event_handler clock enc) chk_loop_body) ((), i) (es # ess) = Inr (l, s)"
    by (auto simp: main_round_def bnd_eq_Inr)
  have m: "chk_message ?u = chk_message g" by (simp add: chk_message_def chk_open_endpoints_def)
  have b: "0 \<le> body_size ?u" "body_size ?u < 2 ^ 31" "encode_buffer ?u = None"
    using f by (auto simp: chk_fresh_def chk_sizes_def BODY_SIZE_SMALL_def BODY_SIZE_MEDIUM_def
        BODY_SIZE_LARGE_def CHK_BODY_SIZE_WUMBO_def chk_open_endpoints_def)
  have "encode_message enc (chk_message g) ?u = Inr i"
    using i by (simp add: chk_connection_init_def chk_generate_message_def m)
  moreover obtain i' where "encode_message enc (chk_message g) ?u = Inr i'" "payload i' = msg"
    using encode_message_encodes [OF assms(2,3) b(1,2)] b(3) by blast
  ultimately have p: "payload i = msg" by simp
  have "chk_sound (payload i) i"
    by (rule chk_init_sound [OF i]) (use f in \<open>simp_all add: chk_fresh_def\<close>)
  then have s0: "chk_sound msg (snd ((), i))" by (simp add: p)
  have "chk_sound msg (snd (l, s))"
    by (rule run_preserves [where P = "\<lambda>ls. chk_sound msg (snd ls)", OF _ s0 r'])
      (use assms(5) in \<open>auto intro: chk_round_sound\<close>)
  then have "chunk_state msg (link_offset s k) (link_calls k (out s))" by (simp add: chk_sound_def)
  then show ?thesis by (auto simp: chunk_state_def min_def)
qed

text \<open>C35: a message is finished by as many flow events with room in the session as it has chunks of 64
  bytes left. Whatever other events come in between, flow events of this link without room and flow
  events of the other links among them, each event with room writes the next 64 bytes of the message,
  or what is left of it, nothing else is written on the link, and the link is advanced by the last of
  them and not before. This asks that the clock answers, that Proton takes the chunks it is given and
  keeps the delivery current, and that the connection is not opened again.\<close>

theorem chk_message_finishes_in_chunks:
  assumes "clock_works clock" and "chk_sound msg s" and "opened s" and "link_offset s k = Some off"
    and "unat off < length msg" and "\<forall>e \<in> set es. orderly k e" and "rooms k es \<le> (length msg - unat off + 63) div 64"
  shows "\<exists>s'. run (chk_event_handler clock enc) s es = Inr s'
    \<and> sent_bytes (link_calls k (out s')) = sent_bytes (link_calls k (out s)) @ take (64 * rooms k es) (drop (unat off) msg)
    \<and> advances (link_calls k (out s')) = advances (link_calls k (out s))
        + of_bool (rooms k es = (length msg - unat off + 63) div 64)"
  using chk_chunks_written [OF assms(1-4,6,7), of enc] by (simp only: assms(5) simp_thms)

text \<open>A run of the chunked sender numbers its deliveries 0, 1, 2, ... across its four links,
  never makes more of them than the limit, settles each outcome once and splits the outcomes exactly
  into accepted and not accepted; it stops only after waking the reactor.\<close>

theorem chk_program_invariant:
  assumes "chk_main clock enc opts ess = Inr s"
  shows "\<exists>n. tags (chk_log s) = map of_nat [0..<n] \<and> count s = of_nat n
     \<and> (limit s = 0 \<or> n \<le> unat (limit s))
     \<and> of_nat (settles (chk_log s)) = acked s \<and> acked s = accepted s + not_accepted s
     \<and> (stop s \<longrightarrow> PnReactorWakeup \<in> set (chk_log s))"
proof -
  obtain g l where g: "parse_opts chk_option opts chk_globals = Inr g"
    and r: "run (main_round (chk_event_handler clock enc) chk_loop_body)
        ((), emit [PnSetContainer (container_name g), PnSetHostname (host_address g)] g) ess = Inr (l, s)"
    using assms by (rule chk_main_rounds)
  have f: "chk_fresh g" by (rule chk_parse_fresh [OF g])
  have e: "chk_log g = []" using f by (simp add: chk_fresh_def chk_log_def)
  have "limit s = limit g" using chk.round.run_lim [OF r] by simp
  moreover have "of_nat (settles (chk_log s)) = acked s" "acked s = accepted s + not_accepted s"
    using chk.loop_settled [OF r] chk.loop_ledger [OF r] f e by (simp_all add: chk_fresh_def)
  moreover have "stop s \<longrightarrow> PnReactorWakeup \<in> set (chk_log s)"
    using chk.round.run_stop_wakes [OF r] f by (auto simp: chk_fresh_def)
  moreover obtain n where "tags (chk_log s) = map of_nat [0..<n]" "count s = of_nat n"
      "limit g = 0 \<or> n \<le> unat (limit g)"
    using chk.round.run_sent [OF r] f e by (auto simp: chk_fresh_def word_le_nat_alt)
  ultimately show ?thesis by auto
qed

text \<open>The throughput the chunked sender reports is not that of the run: the start is never
  marked, so the duration is the wall-clock time of the stop, counted from the epoch; and the session
  is never closed, because \<open>main()\<close> looks at a global the handler does not set.\<close>

theorem chk_report_measures_from_the_epoch:
  assumes "chk_main clock enc opts ess = Inr s"
  shows "fst (chk_report s) = stop_ts s \<and> PnSessionClose \<notin> set (out s)"
proof -
  obtain g l where g: "parse_opts chk_option opts chk_globals = Inr g"
    and r: "run (main_round (chk_event_handler clock enc) chk_loop_body)
        ((), emit [PnSetContainer (container_name g), PnSetHostname (host_address g)] g) ess = Inr (l, s)"
    using assms by (rule chk_main_rounds)
  have u0: "chk_unmarked (snd ((), emit [PnSetContainer (container_name g), PnSetHostname (host_address g)] g))"
    using chk_parse_fresh [OF g] by (simp add: chk_unmarked_def chk_fresh_def)
  have "chk_unmarked (snd (l, s))"
    by (rule run_preserves [where P = "\<lambda>ls. chk_unmarked (snd ls)", OF _ u0 r]) (rule chk_unmarked_round)
  then show ?thesis by (simp add: chk_unmarked_def chk_report_def Let_def)
qed

theorem chk_links_carry_whole_messages_witness:
  "\<exists>s. chk_main steady_clock (fixed_encoder [1, 2, 3]) []
       [[CK_CONNECTION_INIT, CK_LINK_FLOW (roomy_flow 2\<lparr>has_current := False\<rparr>)]] = Inr s
     \<and> set (finished [] (link_calls 2 (out s))) \<subseteq> {[1, 2, 3]}"
proof -
  note encode_loop_fixed [of "[1, 2, 3]" 612, simplified]
  then obtain s where s: "chk_main steady_clock (fixed_encoder [1, 2, 3]) []
       [[CK_CONNECTION_INIT, CK_LINK_FLOW (roomy_flow 2\<lparr>has_current := False\<rparr>)]] = Inr s"
    by (simp add: chk_main_def main_round_def chk_globals_def chk_connection_init_def chk_generate_message_def
        encode_message_def BODY_SIZE_SMALL_def chk_open_endpoints_def chk_link_flow_def chk_take_delivery_def
        chk_write_chunk_def roomy_flow_def Let_def emit_def payload_def LINK_COUNT_def write_size_def
        taken_whole_def chk_loop_body_def)
  have "parse_opts chk_option [] chk_globals = Inr chk_globals" by simp
  from chk_links_carry_whole_messages [OF this fixed_encoder _ s, of 2] s show ?thesis by auto
qed

theorem chk_message_finishes_in_chunks_witness:
  "\<exists>s'. run (chk_event_handler steady_clock (fixed_encoder [])) (chk_globals\<lparr>encode_buffer := Some (replicate 100 7),
        encoded_data_size := 100, link_offset := (\<lambda>k. Some 0)\<rparr>)
        [CK_LINK_FLOW (roomy_flow 0), CK_LINK_FLOW (roomy_flow 3), CK_LINK_FLOW (roomy_flow 0\<lparr>outgoing_bytes := 2000\<rparr>),
         CK_LINK_FLOW (roomy_flow 0)] = Inr s'
    \<and> sent_bytes (link_calls 0 (out s')) = replicate 100 7 \<and> advances (link_calls 0 (out s')) = 1"
proof -
  let ?s = "chk_globals\<lparr>encode_buffer := Some (replicate 100 7), encoded_data_size := 100,
    link_offset := (\<lambda>k. Some 0)\<rparr>"
  let ?es = "[CK_LINK_FLOW (roomy_flow 0), CK_LINK_FLOW (roomy_flow 3), CK_LINK_FLOW (roomy_flow 0\<lparr>outgoing_bytes := 2000\<rparr>),
         CK_LINK_FLOW (roomy_flow 0)]"
  have "chk_sound (replicate 100 7) ?s"
    by (simp add: chk_sound_def payload_def chunk_state_def chk_globals_def)
  moreover have "opened ?s" "rooms 0 ?es = 2" "\<forall>e \<in> set ?es. orderly 0 e"
    by (simp_all add: opened_def rooms_def roomy_flow_def LINK_COUNT_def)
  ultimately show ?thesis
    using chk_message_finishes_in_chunks [OF steady_clock_works, of "replicate 100 7" ?s 0 0 ?es "fixed_encoder []"]
    by (auto simp: chk_globals_def)
qed

theorem chk_program_invariant_witness:
  "\<exists>s n. chk_main steady_clock (fixed_encoder []) []
       [[CK_CONNECTION_INIT, CK_DELIVERY 1 True PN_ACCEPTED], []] = Inr s
     \<and> tags (chk_log s) = map of_nat [0..<n] \<and> acked s = accepted s + not_accepted s"
proof -
  note encode_loop_fixed [of "[]" 612, simplified]
  then obtain s where s: "chk_main steady_clock (fixed_encoder []) []
       [[CK_CONNECTION_INIT, CK_DELIVERY 1 True PN_ACCEPTED], []] = Inr s"
    by (simp add: chk_main_def main_round_def chk_globals_def chk_connection_init_def chk_generate_message_def
        encode_message_def BODY_SIZE_SMALL_def chk_open_endpoints_def chk_delivery_def chk_outcome_def
        chk_mark_stop_def Let_def emit_def LINK_COUNT_def chk_loop_body_def)
  from chk_program_invariant [OF s] s show ?thesis by blast
qed

theorem chk_report_measures_from_the_epoch_witness:
  "\<exists>s. chk_main steady_clock (fixed_encoder []) [] [[CK_CONNECTION_INIT, CK_DELIVERY 1 True PN_ACCEPTED]] = Inr s
     \<and> fst (chk_report s) = stop_ts s"
proof -
  note encode_loop_fixed [of "[]" 612, simplified]
  then obtain s where s: "chk_main steady_clock (fixed_encoder []) []
       [[CK_CONNECTION_INIT, CK_DELIVERY 1 True PN_ACCEPTED]] = Inr s"
    by (simp add: chk_main_def main_round_def chk_globals_def chk_connection_init_def chk_generate_message_def
        encode_message_def BODY_SIZE_SMALL_def chk_open_endpoints_def chk_delivery_def chk_outcome_def
        chk_mark_stop_def Let_def emit_def LINK_COUNT_def chk_loop_body_def)
  from chk_report_measures_from_the_epoch [OF s] s show ?thesis by blast
qed

end
