(* ===== verification/RpcServer.thy ===== *)
theory RpcServer
  imports Proactor
begin

text \<open>
  \<open>benchmarks/clients/src/server.c\<close>: a server that listens for connections, sends one encoded message
  for every credit on the links that ask for messages and accepts every message on the others.
  Connections, sessions and links are numbered by the environment; the calls on them are logged
  with \<open>OnConnection\<close>, \<open>OnSession\<close> and \<open>OnLink\<close>.
\<close>

section \<open>State\<close>

record rpc_server = world +
  stop :: bool
  server_address :: string
  container_name :: string
  presettle :: bool
  credit_window :: int
  rx_count :: u64
  tag :: u64
  body_size :: int
  encode_buffer :: "u8 list option"
  encode_buffer_size :: u64
  encoded_data_size :: u64
  sig_ign :: bool

definition SRV_BODY_SIZE_SMALL :: int where "SRV_BODY_SIZE_SMALL = 100"
definition SRV_BODY_SIZE_MEDIUM :: int where "SRV_BODY_SIZE_MEDIUM = 2000"
definition SRV_BODY_SIZE_LARGE :: int where "SRV_BODY_SIZE_LARGE = 60000"

definition srv_globals :: rpc_server where
  "srv_globals = \<lparr>clk = 0, out = [], stop = False, server_address = ''0.0.0.0:9999'',
     container_name = ''BenchServer'', presettle = False, credit_window = 1000, rx_count = 0, tag = 0,
     body_size = SRV_BODY_SIZE_SMALL, encode_buffer = None, encode_buffer_size = 0,
     encoded_data_size = 0, sig_ign = False\<rparr>"

lemma emit_rpc_server [simp]:
  "stop (emit cs s) = stop s" "server_address (emit cs s) = server_address s"
  "container_name (emit cs s) = container_name s" "presettle (emit cs s) = presettle s"
  "credit_window (emit cs s) = credit_window s" "rx_count (emit cs s) = rx_count s"
  "tag (emit cs s) = tag s" "body_size (emit cs s) = body_size s"
  "encode_buffer (emit cs s) = encode_buffer s" "encode_buffer_size (emit cs s) = encode_buffer_size s"
  "encoded_data_size (emit cs s) = encoded_data_size s" "sig_ign (emit cs s) = sig_ign s"
  by (simp_all add: emit_def)

definition srv_signal_handler :: "signal \<Rightarrow> rpc_server \<Rightarrow> rpc_server" where
  "srv_signal_handler sig s =
     (if sig_ign s then s
      else let s = s\<lparr>sig_ign := True\<rparr> in
        if sig = SIGOTHER then s else emit [PnProactorInterrupt] (s\<lparr>stop := True\<rparr>))"

section \<open>The message\<close>

definition srv_message :: "rpc_server \<Rightarrow> message" where
  "srv_message s = \<lparr>msg_address = None, msg_priority = None, msg_annotations = [],
     msg_body = [DClear, DPutList, DEnter,
                 DPutBinary (zero_block (word_of_int (body_size s))), DExit, DRewind]\<rparr>"

definition srv_generate_message :: "encoder \<Rightarrow> rpc_server \<Rightarrow> halt + rpc_server" where
  "srv_generate_message enc s =
     (let s = (if encode_buffer s = None
               then s\<lparr>encode_buffer_size := word_of_int (body_size s + 512), encode_buffer := Some []\<rparr>
               else s)
      in case encode_loop (enc (srv_message s)) (encode_buffer_size s) of
           None \<Rightarrow> Inl Hang
         | Some (sz, Encoded bs) \<Rightarrow>
             Inr (s\<lparr>encode_buffer := Some bs, encode_buffer_size := sz,
                    encoded_data_size := of_nat (length bs)\<rparr>)
         | Some (sz, rc) \<Rightarrow> Inl (Exit (- 1)))"

definition srv_payload :: "rpc_server \<Rightarrow> u8 list" where
  "srv_payload s =
     (case encode_buffer s of None \<Rightarrow> [] | Some bs \<Rightarrow> take (unat (encoded_data_size s)) bs)"

section \<open>Sending\<close>

text \<open>The bytes logged are those \<open>pn_link_send()\<close> is given: its result is not looked at.\<close>

fun srv_link_send :: "nat \<Rightarrow> nat \<Rightarrow> rpc_server \<Rightarrow> rpc_server" where
  "srv_link_send k 0 s = s"
| "srv_link_send k (Suc credit) s =
     (let s = s\<lparr>tag := tag s + 1\<rparr>;
          s = emit [OnLink k (PnDelivery (tag s))] s;
          s = emit [OnLink k (PnLinkSend (srv_payload s))] s;
          s = emit [OnLink k PnLinkAdvance] s;
          s = (if presettle s then emit [OnLink k PnSettle] s else s)
      in srv_link_send k credit s)"

section \<open>Receiving\<close>

text \<open>
  What the handler of \<open>PN_DELIVERY\<close> asks: the link, whether the delivery is readable and partial,
  the bytes pending, the answers of \<open>pn_link_recv()\<close>, each with what is pending after it, the credit
  of the link afterwards, whether the delivery was updated and its remote state.
\<close>

record srv_dlv =
  dlv_link :: nat
  readable :: bool
  partial :: bool
  avail :: nat
  recvs :: "(int \<times> nat) list"
  link_credit :: int
  updated :: bool
  remote_state :: disposition

text \<open>\<open>PN_EOS\<close> of Proton's \<open>error.h\<close>.\<close>

definition PN_EOS :: int where "PN_EOS = - 1"

text \<open>
  \<open>while (pn_delivery_pending(dlv) > 0)\<close>: only \<open>PN_EOS\<close> leaves the loop early. One that the answers
  of the event do not bring to an end is left hanging.
\<close>

fun srv_drain :: "nat \<Rightarrow> (int \<times> nat) list \<Rightarrow> halt + unit" where
  "srv_drain pending rs =
     (if pending = 0 then Inr ()
      else case rs of
             [] \<Rightarrow> Inl Hang
           | (rc, pending) # rs \<Rightarrow> if rc = PN_EOS then Inr () else srv_drain pending rs)"

declare srv_drain.simps [simp del]

definition srv_link_receive :: "srv_dlv \<Rightarrow> rpc_server \<Rightarrow> halt + rpc_server" where
  "srv_link_receive d s =
     (if readable d then
        bnd (srv_drain (avail d) (recvs d)) (\<lambda>_.
        let s = (if \<not> partial d
                 then (emit [OnLink (dlv_link d) (PnUpdate PN_ACCEPTED), OnLink (dlv_link d) PnSettle] s)
                        \<lparr>rx_count := rx_count s + 1\<rparr>
                 else s)
        in Inr (if link_credit d \<le> credit_window s sdiv 2
                then emit [OnLink (dlv_link d) (PnLinkFlow (credit_window s - link_credit d))] s
                else s))
      else Inr s)"

definition srv_delivery_updated :: "nat \<Rightarrow> disposition \<Rightarrow> rpc_server \<Rightarrow> rpc_server" where
  "srv_delivery_updated k rs s = (if rs = PN_RECEIVED then s else emit [OnLink k PnSettle] s)"

definition srv_delivery :: "srv_dlv \<Rightarrow> rpc_server \<Rightarrow> halt + rpc_server" where
  "srv_delivery d s =
     bnd (if readable d \<and> \<not> partial d then srv_link_receive d s else Inr s) (\<lambda>s.
     Inr (if updated d then srv_delivery_updated (dlv_link d) (remote_state d) s else s))"

section \<open>The event handler\<close>

text \<open>\<open>SV_LINK_REMOTE_OPEN k True a\<close> is a link that receives from the server, with source \<open>a\<close>.\<close>

datatype srv_event =
    SV_LISTENER_OPEN
  | SV_LISTENER_ACCEPT
  | SV_CONNECTION_INIT nat
  | SV_CONNECTION_REMOTE_OPEN nat
  | SV_SESSION_REMOTE_OPEN nat
  | SV_LINK_REMOTE_OPEN nat bool string
  | SV_CONNECTION_REMOTE_CLOSE nat
  | SV_SESSION_REMOTE_CLOSE nat
  | SV_LINK_REMOTE_CLOSE nat
  | SV_LINK_FLOW nat int
  | SV_DELIVERY srv_dlv
  | SV_SIGNAL signal
  | SV_OTHER

definition srv_link_remote_open :: "nat \<Rightarrow> bool \<Rightarrow> string \<Rightarrow> rpc_server \<Rightarrow> rpc_server" where
  "srv_link_remote_open k is_sender address s =
     emit (map (OnLink k)
       ((if is_sender then [PnSetSource address] else [PnSetTarget address, PnLinkFlow (credit_window s)])
        @ [PnLinkOpen])) s"

fun srv_handle :: "rpc_server \<Rightarrow> srv_event \<Rightarrow> halt + rpc_server" where
  "srv_handle s SV_LISTENER_OPEN = Inr s"
| "srv_handle s SV_LISTENER_ACCEPT = Inr (emit [PnListenerAccept] s)"
| "srv_handle s (SV_CONNECTION_INIT c) = Inr (emit [OnConnection c (PnSetContainer (container_name s))] s)"
| "srv_handle s (SV_CONNECTION_REMOTE_OPEN c) = Inr (emit [OnConnection c PnConnectionOpen] s)"
| "srv_handle s (SV_SESSION_REMOTE_OPEN n) = Inr (emit [OnSession n PnSessionOpen] s)"
| "srv_handle s (SV_LINK_REMOTE_OPEN k is_sender a) = Inr (srv_link_remote_open k is_sender a s)"
| "srv_handle s (SV_CONNECTION_REMOTE_CLOSE c) = Inr (emit [OnConnection c PnConnectionClose] s)"
| "srv_handle s (SV_SESSION_REMOTE_CLOSE n) = Inr (emit [OnSession n PnSessionClose, OnSession n PnSessionFree] s)"
| "srv_handle s (SV_LINK_REMOTE_CLOSE k) = Inr (emit [OnLink k PnLinkClose, OnLink k PnLinkFree] s)"
| "srv_handle s (SV_LINK_FLOW k credit) = Inr (srv_link_send k (nat credit) s)"
| "srv_handle s (SV_DELIVERY d) = srv_delivery d s"
| "srv_handle s (SV_SIGNAL sig) = Inr (srv_signal_handler sig s)"
| "srv_handle s SV_OTHER = Inr s"

section \<open>\<open>main\<close>\<close>

definition srv_body_size :: "string \<Rightarrow> int option" where
  "srv_body_size optarg =
     (if first_char optarg = CHR ''s'' then Some SRV_BODY_SIZE_SMALL
      else if first_char optarg = CHR ''m'' then Some SRV_BODY_SIZE_MEDIUM
      else if first_char optarg = CHR ''l'' then Some SRV_BODY_SIZE_LARGE
      else None)"

definition srv_option :: "opt \<Rightarrow> rpc_server \<Rightarrow> halt + rpc_server" where
  "srv_option p s =
     (case p of (c, optarg) \<Rightarrow>
      if c = CHR ''h'' then usage
      else if c = CHR ''a'' then Inr (s\<lparr>server_address := optarg\<rparr>)
      else if c = CHR ''i'' then Inr (s\<lparr>container_name := optarg\<rparr>)
      else if c = CHR ''s'' then
        (case srv_body_size optarg of None \<Rightarrow> usage | Some n \<Rightarrow> Inr (s\<lparr>body_size := n\<rparr>))
      else if c = CHR ''u'' then Inr (s\<lparr>presettle := True\<rparr>)
      else if c = CHR ''w'' then
        (case scan_int optarg of None \<Rightarrow> usage
         | Some n \<Rightarrow> if n \<le> 0 then usage else Inr (s\<lparr>credit_window := n\<rparr>))
      else usage)"

text \<open>\<open>do { ... } while(!stop)\<close>: a batch at a time until a batch leaves the program stopped.\<close>

fun srv_loop :: "rpc_server \<Rightarrow> srv_event list list \<Rightarrow> halt + bool \<times> rpc_server" where
  "srv_loop s [] = Inr (False, s)"
| "srv_loop s (es # ess) =
     bnd (run srv_handle s es) (\<lambda>s. if stop s then Inr (True, s) else srv_loop s ess)"

definition srv_main :: "encoder \<Rightarrow> opt list \<Rightarrow> srv_event list list \<Rightarrow> halt + bool \<times> rpc_server" where
  "srv_main enc opts ess =
     bnd (parse_opts srv_option opts srv_globals) (\<lambda>s.
     bnd (srv_generate_message enc s) (\<lambda>s.
     srv_loop (emit [PnProactorListen (server_address s)] s) ess))"


section \<open>What is written on a link\<close>

lemma srv_payload_cong:
  "encode_buffer s = encode_buffer t \<Longrightarrow> encoded_data_size s = encoded_data_size t \<Longrightarrow>
     srv_payload s = srv_payload t"
  unfolding srv_payload_def by presburger

lemma srv_payload_emit [simp]: "srv_payload (emit cs s) = srv_payload s"
  by (intro srv_payload_cong) simp_all

lemma srv_link_send_eq:
  "srv_link_send k n s = s\<lparr>tag := tag s + of_nat n,
     out := out s @ map (OnLink k) (message_blocks (presettle s) (tag s + 1) (replicate n (srv_payload s)))\<rparr>"
proof (induction n arbitrary: s)
  case 0
  then show ?case by simp
next
  case (Suc n)
  have "srv_payload (s\<lparr>tag := t\<rparr>) = srv_payload s" for t by (intro srv_payload_cong) simp_all
  moreover have "srv_payload (s\<lparr>tag := t, out := l\<rparr>) = srv_payload s" for t l by (intro srv_payload_cong) simp_all
  ultimately show ?case
    by (simp add: Suc.IH Let_def emit_def message_block_def algebra_simps)
qed

text \<open>
  What is on the wire: whole messages on every link, with tags that count up from 1.
\<close>

definition srv_whole :: "u8 list \<Rightarrow> rpc_server \<Rightarrow> bool" where
  "srv_whole msg s \<longleftrightarrow> srv_payload s = msg
     \<and> (\<exists>n. tag s = of_nat n \<and> tags (map unlinked (out s)) = map (\<lambda>i. of_nat (Suc i)) [0..<n])
     \<and> (\<forall>k. sent_bytes (link_calls k (out s)) = concat (replicate (deliveries (link_calls k (out s))) msg)
          \<and> advances (link_calls k (out s)) = deliveries (link_calls k (out s)))"

lemma srv_whole_silent:
  assumes "srv_whole msg s" and "out s' = out s @ cs" and "silent_all cs"
    and "srv_payload s' = srv_payload s" and "tag s' = tag s"
  shows "srv_whole msg s'"
  using assms silent_calls [OF silent_all_calls(1) [OF assms(3)]] silent_calls [OF silent_all_calls(2) [OF assms(3)]]
  by (simp add: srv_whole_def)

lemma advances_message_blocks: "advances (message_blocks b t ps) = length ps"
  by (induction ps arbitrary: t) (simp_all add: message_block_def)

lemma deliveries_message_blocks: "deliveries (message_blocks b t ps) = length ps"
  by (simp add: deliveries_tags)

lemma unlinked_OnLink: "map unlinked (map (OnLink k) cs) = cs"
  by (induction cs) simp_all

lemma srv_whole_flow:
  assumes "srv_whole msg s"
  shows "srv_whole msg (srv_link_send k n s)"
proof -
  let ?s = "srv_link_send k n s" and ?b = "message_blocks (presettle s) (tag s + 1) (replicate n msg)"
  obtain m where m: "tag s = of_nat m" "tags (map unlinked (out s)) = map (\<lambda>i. of_nat (Suc i)) [0..<m]"
    and p: "srv_payload s = msg"
    using assms by (auto simp: srv_whole_def)
  have o: "out ?s = out s @ map (OnLink k) ?b" "tag ?s = tag s + of_nat n"
    by (simp_all add: srv_link_send_eq p)
  have "srv_payload ?s = msg"
    unfolding p [symmetric] by (intro srv_payload_cong) (simp_all add: srv_link_send_eq)
  moreover have "tags (map unlinked (out ?s)) = map (\<lambda>i. of_nat (Suc i)) [0..<m + n]"
    unfolding o map_append unlinked_OnLink tags_append map_upt_split m
    by (simp add: m(1) algebra_simps)
  moreover have "sent_bytes (link_calls j (out ?s)) = concat (replicate (deliveries (link_calls j (out ?s))) msg)
      \<and> advances (link_calls j (out ?s)) = deliveries (link_calls j (out ?s))" for j
    using assms by (simp add: o srv_whole_def advances_message_blocks deliveries_message_blocks replicate_add)
  ultimately show ?thesis using o m unfolding srv_whole_def by (metis of_nat_add)
qed

text \<open>What an event writes when it is not a grant of credit: nothing.\<close>

lemma srv_receive_Inr:
  assumes "srv_delivery d s = Inr s'"
  shows "s' = emit
     ((if readable d \<and> \<not> partial d
       then [OnLink (dlv_link d) (PnUpdate PN_ACCEPTED), OnLink (dlv_link d) PnSettle]
            @ (if link_credit d \<le> credit_window s sdiv 2
               then [OnLink (dlv_link d) (PnLinkFlow (credit_window s - link_credit d))] else [])
       else [])
      @ (if updated d \<and> remote_state d \<noteq> PN_RECEIVED then [OnLink (dlv_link d) PnSettle] else []))
     (s\<lparr>rx_count := rx_count s + (if readable d \<and> \<not> partial d then 1 else 0)\<rparr>)"
proof (cases "readable d \<and> \<not> partial d")
  case True
  then have "srv_drain (avail d) (recvs d) = Inr ()"
    using assms by (auto simp: srv_delivery_def srv_link_receive_def bnd_eq_Inr)
  then show ?thesis
    using assms True by (auto simp: srv_delivery_def srv_link_receive_def srv_delivery_updated_def emit_def Let_def)
next
  case False
  then show ?thesis
    using assms by (auto simp: srv_delivery_def srv_delivery_updated_def emit_def)
qed

lemma srv_handle_whole:
  assumes "srv_handle s e = Inr s'" and "srv_whole msg s"
  shows "srv_whole msg s'"
proof (cases e)
  case (SV_LINK_FLOW k c)
  then show ?thesis using assms srv_whole_flow by auto
next
  case (SV_DELIVERY d)
  then have "srv_delivery d s = Inr s'" using assms(1) by simp
  note r = srv_receive_Inr [OF this]
  have "srv_payload (s\<lparr>rx_count := n\<rparr>) = srv_payload s" for n by (intro srv_payload_cong) simp_all
  then show ?thesis
    by (intro srv_whole_silent [OF assms(2)]) (auto simp: r silent_def simp del: emit_emit)
next
  case (SV_SIGNAL sig)
  have "srv_payload (s\<lparr>sig_ign := True, stop := b\<rparr>) = srv_payload s" "srv_payload (s\<lparr>sig_ign := True\<rparr>) = srv_payload s"
    for b by (intro srv_payload_cong; simp)+
  then show ?thesis using assms(1) SV_SIGNAL
    by (intro srv_whole_silent [OF assms(2), where cs = "if sig_ign s \<or> sig = SIGOTHER then [] else [PnProactorInterrupt]"])
      (auto simp: srv_signal_handler_def Let_def silent_def)
next
  case (SV_LINK_REMOTE_OPEN k b a)
  then show ?thesis using assms(1)
    by (intro srv_whole_silent [OF assms(2), where cs = "map (OnLink k)
       ((if b then [PnSetSource a] else [PnSetTarget a, PnLinkFlow (credit_window s)]) @ [PnLinkOpen])"])
      (auto simp: srv_link_remote_open_def silent_def)
next
  case SV_LISTENER_ACCEPT
  then show ?thesis using assms(1)
    by (intro srv_whole_silent [OF assms(2), where cs = "[PnListenerAccept]"]) (auto simp: silent_def)
next
  case (SV_CONNECTION_INIT c)
  then show ?thesis using assms(1)
    by (intro srv_whole_silent [OF assms(2), where cs = "[OnConnection c (PnSetContainer (container_name s))]"])
      (auto simp: silent_def)
next
  case (SV_CONNECTION_REMOTE_OPEN c)
  then show ?thesis using assms(1)
    by (intro srv_whole_silent [OF assms(2), where cs = "[OnConnection c PnConnectionOpen]"])
      (auto simp: silent_def)
next
  case (SV_SESSION_REMOTE_OPEN c)
  then show ?thesis using assms(1)
    by (intro srv_whole_silent [OF assms(2), where cs = "[OnSession c PnSessionOpen]"])
      (auto simp: silent_def)
next
  case (SV_CONNECTION_REMOTE_CLOSE c)
  then show ?thesis using assms(1)
    by (intro srv_whole_silent [OF assms(2), where cs = "[OnConnection c PnConnectionClose]"])
      (auto simp: silent_def)
next
  case (SV_SESSION_REMOTE_CLOSE c)
  then show ?thesis using assms(1)
    by (intro srv_whole_silent [OF assms(2), where cs = "[OnSession c PnSessionClose, OnSession c PnSessionFree]"])
      (auto simp: silent_def)
next
  case (SV_LINK_REMOTE_CLOSE k)
  then show ?thesis using assms(1)
    by (intro srv_whole_silent [OF assms(2), where cs = "[OnLink k PnLinkClose, OnLink k PnLinkFree]"])
      (auto simp: silent_def)
qed (use assms in simp_all)



lemma srv_loop_whole:
  assumes "srv_loop s ess = Inr (b, s')" and "srv_whole msg s"
  shows "srv_whole msg s'"
  using assms
proof (induction ess arbitrary: s)
  case (Cons es ess)
  then obtain t where t: "run srv_handle s es = Inr t"
    "(if stop t then Inr (True, t) else srv_loop t ess) = Inr (b, s')"
    by (auto simp: bnd_eq_Inr)
  have "srv_whole msg t"
    by (rule run_preserves [where P = "srv_whole msg", OF _ Cons.prems(2) t(1)]) (rule srv_handle_whole)
  then show ?case using t(2) Cons.IH by (auto split: if_splits)
qed simp

lemma srv_loop_stops: "srv_loop s ess = Inr (b, s') \<Longrightarrow> b \<Longrightarrow> stop s'"
  by (induction ess arbitrary: s) (auto simp: bnd_eq_Inr split: if_splits)

text \<open>The message is made before the loop, whatever the options.\<close>

definition srv_fresh :: "rpc_server \<Rightarrow> bool" where
  "srv_fresh s \<longleftrightarrow> out s = [] \<and> tag s = 0 \<and> \<not> stop s \<and> encode_buffer s = None
     \<and> body_size s \<in> {100, 2000, 60000} \<and> 0 < credit_window s"

lemma srv_fresh_options [simp]:
  "srv_fresh (s\<lparr>server_address := a\<rparr>) = srv_fresh s" "srv_fresh (s\<lparr>container_name := a\<rparr>) = srv_fresh s"
  "srv_fresh (s\<lparr>presettle := b\<rparr>) = srv_fresh s"
  "srv_body_size a = Some n \<Longrightarrow> srv_fresh s \<Longrightarrow> srv_fresh (s\<lparr>body_size := n\<rparr>)"
  "0 < w \<Longrightarrow> srv_fresh s \<Longrightarrow> srv_fresh (s\<lparr>credit_window := w\<rparr>)"
  by (auto simp: srv_fresh_def srv_body_size_def SRV_BODY_SIZE_SMALL_def SRV_BODY_SIZE_MEDIUM_def
      SRV_BODY_SIZE_LARGE_def split: if_splits)

lemma srv_parse_fresh:
  assumes "parse_opts srv_option opts srv_globals = Inr g"
  shows "srv_fresh g"
proof (rule parse_opts_preserves [OF _ _ assms])
  show "srv_fresh srv_globals" by (simp add: srv_fresh_def srv_globals_def SRV_BODY_SIZE_SMALL_def)
next
  fix p s s'
  assume "srv_option p s = Inr s'" "srv_fresh s"
  then show "srv_fresh s'"
    by (cases p) (auto simp: srv_option_def usage_def split: if_split_asm option.split_asm)
qed

lemma srv_generate_encodes:
  assumes "srv_fresh s" and "encodes_as enc (srv_message s) msg" and "length msg \<le> 2 ^ 63"
  shows "\<exists>s'. srv_generate_message enc s = Inr s' \<and> srv_payload s' = msg \<and> out s' = out s \<and> tag s' = tag s
    \<and> stop s' = stop s \<and> credit_window s' = credit_window s \<and> presettle s' = presettle s
    \<and> server_address s' = server_address s"
proof -
  define n :: u64 where "n = word_of_int (body_size s + 512)"
  have "0 < unat n"
    using assms(1) by (auto simp: n_def srv_fresh_def)
  from encode_loop_returns [OF assms(2) this assms(3)] obtain sz where
    sz: "encode_loop (enc (srv_message s)) n = Some (sz, Encoded msg)" by blast
  let ?s = "s\<lparr>encode_buffer := Some msg, encode_buffer_size := sz, encoded_data_size := of_nat (length msg)\<rparr>"
  have "encode_buffer s = None" using assms(1) by (simp add: srv_fresh_def)
  then have "srv_generate_message enc s = Inr ?s"
    using sz by (simp add: srv_generate_message_def n_def Let_def srv_message_def)
  moreover have "srv_payload ?s = msg"
    using assms(3) by (simp add: srv_payload_def unat_of_nat take_bit_nat_eq_self)
  ultimately show ?thesis by auto
qed

section \<open>Credit\<close>

text \<open>
  The credit outstanding on a link the server receives on is what was granted less the messages
  accepted. \<open>accept_view\<close> is the log in which a message counts when it is accepted, whatever is settled:
  an update of a delivery settles it again, and a flow event makes the server send on any link.
\<close>

definition accepts :: "pn_call list \<Rightarrow> nat" where
  "accepts cs = calls (\<lambda>c. c = PnUpdate PN_ACCEPTED) cs"

fun accept_view :: "pn_call list \<Rightarrow> pn_call list" where
  "accept_view [] = []"
| "accept_view (PnUpdate rs # cs) = (if rs = PN_ACCEPTED then PnSettle # accept_view cs else accept_view cs)"
| "accept_view (PnSettle # cs) = accept_view cs"
| "accept_view (c # cs) = c # accept_view cs"

lemma accept_view_balance: "credit_balance (accept_view cs) = flows cs - int (accepts cs)"
  by (induction cs rule: accept_view.induct) (simp_all add: credit_balance_def accepts_def)

lemma accepts_simps [simp]:
  "accepts [] = 0" "accepts (c # cs) = (if c = PnUpdate PN_ACCEPTED then Suc (accepts cs) else accepts cs)"
  "accepts (cs @ ds) = accepts cs + accepts ds"
  by (simp_all add: accepts_def)

lemma accepts_message_blocks [simp]: "accepts (message_blocks b t ps) = 0" "flows (message_blocks b t ps) = 0"
  by (induction ps arbitrary: t) (simp_all add: message_block_def)

definition srv_outstanding :: "nat \<Rightarrow> rpc_server \<Rightarrow> int" where
  "srv_outstanding k s = flows (link_calls k (out s)) - int (accepts (link_calls k (out s)))"

text \<open>The link is opened, and granted its window, once.\<close>

definition srv_opens :: "nat \<Rightarrow> srv_event \<Rightarrow> bool" where
  "srv_opens k e \<longleftrightarrow> (\<exists>b a. e = SV_LINK_REMOTE_OPEN k b a)"

definition srv_arrival :: "nat \<Rightarrow> srv_event \<Rightarrow> int option" where
  "srv_arrival k e =
     (case e of SV_DELIVERY d \<Rightarrow>
        if dlv_link d = k \<and> readable d \<and> \<not> partial d then Some (link_credit d) else None
      | _ \<Rightarrow> None)"

lemma srv_handle_window:
  assumes "srv_handle s e = Inr s'"
  shows "credit_window s' = credit_window s"
proof (cases e)
  case (SV_DELIVERY d)
  then have "srv_delivery d s = Inr s'" using assms by simp
  from srv_receive_Inr [OF this] show ?thesis by simp
qed (use assms in \<open>auto simp: srv_link_send_eq srv_link_remote_open_def srv_signal_handler_def Let_def\<close>)

lemma srv_handle_balance:
  assumes "srv_handle s e = Inr s'" and "\<not> srv_opens k e"
  shows "srv_outstanding k s' = srv_outstanding k s
        + (case srv_arrival k e of None \<Rightarrow> 0
           | Some c \<Rightarrow> (if c \<le> credit_window s sdiv 2 then credit_window s - c else 0) - 1)"
proof (cases e)
  case (SV_LINK_FLOW j c)
  then show ?thesis using assms
    by (auto simp: srv_outstanding_def srv_arrival_def srv_link_send_eq)
next
  case (SV_DELIVERY d)
  then have "srv_delivery d s = Inr s'" using assms(1) by simp
  note r = srv_receive_Inr [OF this]
  show ?thesis using SV_DELIVERY
    by (auto simp: r srv_arrival_def srv_outstanding_def simp del: emit_emit)
next
  case (SV_LINK_REMOTE_OPEN j b a)
  then show ?thesis using assms
    by (auto simp: srv_opens_def srv_arrival_def srv_link_remote_open_def srv_outstanding_def)
next
  case (SV_SIGNAL sig)
  then show ?thesis using assms
    by (auto simp: srv_arrival_def srv_signal_handler_def srv_outstanding_def Let_def)
qed (use assms in \<open>auto simp: srv_arrival_def srv_outstanding_def\<close>)

abbreviation srv_accept_log :: "nat \<Rightarrow> rpc_server \<Rightarrow> pn_call list" where
  "srv_accept_log k s \<equiv> accept_view (link_calls k (out s))"

interpretation srv: crediting_receiver srv_handle "srv_accept_log k" credit_window "\<lambda>s. False"
    "srv_opens k" "srv_arrival k" for k
proof
  fix s e s' c
  assume a: "srv_handle s e = Inr s'"
  show "\<not> srv_opens k e \<Longrightarrow> srv_arrival k e = None \<or> False \<Longrightarrow>
      credit_balance (srv_accept_log k s') = credit_balance (srv_accept_log k s) \<and> (False \<longrightarrow> False)"
    using srv_handle_balance [OF a] by (auto simp: accept_view_balance srv_outstanding_def)
  show "\<not> srv_opens k e \<Longrightarrow> srv_arrival k e = Some c \<Longrightarrow> \<not> False \<Longrightarrow> 0 \<le> c \<Longrightarrow>
      credit_balance (srv_accept_log k s') = credit_balance (srv_accept_log k s) - 1
        + (if False \<or> credit_window s sdiv 2 < c then 0 else credit_window s - c)"
    using srv_handle_balance [OF a] by (auto simp: accept_view_balance srv_outstanding_def)
  show "credit_window s' = credit_window s" by (rule srv_handle_window [OF a])
qed

section \<open>Draining\<close>

text \<open>The answers of \<open>pn_link_recv()\<close> that takes \<open>ns\<close> bytes, call by call, of \<open>p\<close> pending.\<close>

fun recv_answers :: "nat \<Rightarrow> nat list \<Rightarrow> (int \<times> nat) list" where
  "recv_answers p [] = []"
| "recv_answers p (n # ns) = (int n, p - n) # recv_answers (p - n) ns"

lemma srv_drain_answers: "sum_list ns = p \<Longrightarrow> srv_drain p (recv_answers p ns) = Inr ()"
proof (induction ns arbitrary: p)
  case Nil
  then show ?case by (subst srv_drain.simps) simp
next
  case (Cons n ns)
  then have "srv_drain (p - n) (recv_answers (p - n) ns) = Inr ()" by auto
  then show ?case by (subst srv_drain.simps) (simp add: PN_EOS_def)
qed

lemma srv_drain_stuck: "rc \<noteq> PN_EOS \<Longrightarrow> srv_drain (Suc p) (replicate n (rc, Suc p)) = Inl Hang"
  by (induction n) (subst srv_drain.simps, simp)+

section \<open>Properties\<close>

text \<open>C36: the server answers credit with whole messages: on every link the bytes it writes are its
  encoded message once for each delivery it makes, each delivery is advanced, the tags count up from
  1 across all links and connections, and the loop is left only when the server was stopped.\<close>

theorem srv_sends_whole_messages:
  assumes "parse_opts srv_option opts srv_globals = Inr g"
    and "encodes_as enc (srv_message g) msg" and "length msg \<le> 2 ^ 63"
    and "srv_main enc opts ess = Inr (b, s)"
  shows "sent_bytes (link_calls k (out s)) = concat (replicate (deliveries (link_calls k (out s))) msg)
    \<and> advances (link_calls k (out s)) = deliveries (link_calls k (out s))
    \<and> (\<exists>n. tags (map unlinked (out s)) = map (\<lambda>i. of_nat (Suc i)) [0..<n])
    \<and> (b \<longrightarrow> stop s)"
proof -
  have f: "srv_fresh g" by (rule srv_parse_fresh [OF assms(1)])
  obtain i where i: "srv_generate_message enc g = Inr i" "srv_payload i = msg" "out i = out g" "tag i = tag g"
    using srv_generate_encodes [OF f assms(2,3)] by blast
  let ?i = "emit [PnProactorListen (server_address i)] i"
  have r: "srv_loop ?i ess = Inr (b, s)"
    using assms(1,4) i(1) by (simp add: srv_main_def)
  have "srv_whole msg ?i"
    using i f by (auto simp: srv_whole_def srv_fresh_def intro!: exI [of _ 0])
  from srv_loop_whole [OF r this] srv_loop_stops [OF r] show ?thesis
    unfolding srv_whole_def by blast
qed

theorem srv_sends_whole_messages_witness:
  "\<exists>s. srv_main (fixed_encoder [1, 2]) [] [[SV_LINK_FLOW 4 2], [SV_SIGNAL SIGINT]] = Inr (True, s)
     \<and> sent_bytes (link_calls 4 (out s)) = [1, 2, 1, 2]"
proof -
  note encode_loop_fixed [of "[1, 2]" 612, simplified]
  then obtain s where s: "srv_main (fixed_encoder [1, 2]) [] [[SV_LINK_FLOW 4 2], [SV_SIGNAL SIGINT]] = Inr (True, s)"
    "deliveries (link_calls 4 (out s)) = 2"
    by (simp add: srv_main_def srv_generate_message_def srv_globals_def SRV_BODY_SIZE_SMALL_def Let_def
        srv_signal_handler_def srv_link_send_eq deliveries_message_blocks)
  have "parse_opts srv_option [] srv_globals = Inr srv_globals" by simp
  from srv_sends_whole_messages [OF this fixed_encoder _ s(1), where k = 4]
  have "sent_bytes (link_calls 4 (out s)) = concat (replicate 2 [1, 2])" by (simp add: s(2))
  then have "sent_bytes (link_calls 4 (out s)) = [1, 2, 1, 2]" by (simp add: numeral_2_eq_2)
  with s(1) show ?thesis by blast
qed

text \<open>C37: on a link it receives on, the credit the server has outstanding, what it granted on the link
  less the messages it accepted there, is never more than its window and never falls to half of it,
  over any events, updates of deliveries and flow events of the link included. This holds as long as the
  link is not opened again and the credit Proton reports with each message is that balance, less the
  message itself.\<close>

theorem srv_keeps_credit_window:
  assumes "run srv_handle s (SV_LINK_REMOTE_OPEN k False a # es) = Inr s'"
    and "link_calls k (out s) = []" and "0 < credit_window s" and "credit_window s < 2 ^ 31"
    and "\<forall>e\<in>set es. \<not> srv_opens k e"
    and "honest srv_handle (srv_accept_log k) (\<lambda>s. False) (srv_arrival k) (srv_link_remote_open k False a s) es"
  shows "srv_outstanding k s' \<le> credit_window s \<and> credit_window s div 2 < srv_outstanding k s'"
proof -
  let ?s = "srv_link_remote_open k False a s"
  have b: "credit_balance (srv_accept_log k t) = srv_outstanding k t" for t
    by (simp add: accept_view_balance srv_outstanding_def)
  have w: "credit_window ?s = credit_window s" "srv_outstanding k ?s = credit_window s"
    using assms(2) by (simp_all add: srv_link_remote_open_def srv_outstanding_def)
  have "in_window (credit_window ?s) False (credit_balance (srv_accept_log k ?s))"
    using assms(3) w b by (simp add: in_window_def signed_divide_int_def)
  then have "in_window (credit_window s') False (credit_balance (srv_accept_log k s')) \<and> credit_window s' = credit_window ?s"
    using assms(1,3,4,5,6) w by (intro srv.run_in_window) simp_all
  then show ?thesis using w(1) assms(3) b by (auto simp: in_window_def signed_divide_int_def)
qed

theorem srv_keeps_credit_window_witness:
  "\<exists>s'. run srv_handle srv_globals [SV_LINK_REMOTE_OPEN 3 False ''q'', SV_DELIVERY \<lparr>dlv_link = 3,
        readable = True, partial = False, avail = 10, recvs = [(10, 0)], link_credit = 999, updated = True,
        remote_state = PN_ACCEPTED\<rparr>, SV_LINK_FLOW 3 2] = Inr s'
     \<and> srv_outstanding 3 s' \<le> 1000 \<and> 500 < srv_outstanding 3 s'"
proof -
  let ?d = "SV_DELIVERY \<lparr>dlv_link = 3, readable = True, partial = False, avail = 10, recvs = [(10, 0)],
    link_credit = 999, updated = True, remote_state = PN_ACCEPTED\<rparr>"
  have d: "srv_drain 10 [(10, 0)] = Inr ()"
    using srv_drain_answers [of "[10]" 10] by simp
  then obtain s' where r: "run srv_handle srv_globals [SV_LINK_REMOTE_OPEN 3 False ''q'', ?d, SV_LINK_FLOW 3 2] = Inr s'"
    by (simp add: srv_delivery_def srv_link_receive_def Let_def)
  have "honest srv_handle (srv_accept_log 3) (\<lambda>s. False) (srv_arrival 3)
           (srv_link_remote_open 3 False ''q'' srv_globals) [?d, SV_LINK_FLOW 3 2]"
    using d by (simp add: srv_arrival_def srv_delivery_def srv_link_receive_def srv_link_remote_open_def
        srv_globals_def credit_balance_def Let_def)
  from srv_keeps_credit_window [OF r _ _ _ _ this] r show ?thesis
    by (simp add: srv_globals_def srv_opens_def)
qed

text \<open>A message that has arrived whole is drained, however Proton cuts it, counted, accepted and
  settled; credit is granted back up to the window when it has fallen to half of it.\<close>

theorem srv_accepts_what_it_drains:
  assumes "readable d" and "\<not> partial d" and "recvs d = recv_answers (avail d) ns"
    and "sum_list ns = avail d" and "\<not> updated d"
  shows "srv_handle s (SV_DELIVERY d) = Inr (emit
     ([OnLink (dlv_link d) (PnUpdate PN_ACCEPTED), OnLink (dlv_link d) PnSettle]
      @ (if link_credit d \<le> credit_window s sdiv 2
         then [OnLink (dlv_link d) (PnLinkFlow (credit_window s - link_credit d))] else []))
     (s\<lparr>rx_count := rx_count s + 1\<rparr>))"
  using assms srv_drain_answers [OF assms(4)]
  by (simp add: srv_delivery_def srv_link_receive_def Let_def emit_def)

theorem srv_accepts_what_it_drains_witness:
  "srv_handle srv_globals (SV_DELIVERY \<lparr>dlv_link = 1, readable = True, partial = False, avail = 70000,
      recvs = [(65536, 4464), (4464, 0)], link_credit = 500, updated = False, remote_state = PN_RECEIVED\<rparr>)
   = Inr (emit [OnLink 1 (PnUpdate PN_ACCEPTED), OnLink 1 PnSettle, OnLink 1 (PnLinkFlow 500)]
       (srv_globals\<lparr>rx_count := 1\<rparr>))"
  using srv_accepts_what_it_drains [of "\<lparr>dlv_link = 1, readable = True, partial = False, avail = 70000,
      recvs = [(65536, 4464), (4464, 0)], link_credit = 500, updated = False, remote_state = PN_RECEIVED\<rparr>"
      "[65536, 4464]" srv_globals]
  by (simp add: srv_globals_def signed_divide_int_def)

text \<open>The receive loop of the server ends on an empty delivery or on \<open>PN_EOS\<close> only: while
  \<open>pn_link_recv()\<close> fails with another error and bytes stay pending, it never ends.\<close>

theorem srv_receive_hangs_on_errors:
  assumes "readable d" and "\<not> partial d" and "avail d = Suc p" and "recvs d = replicate n (rc, Suc p)"
    and "rc \<noteq> PN_EOS"
  shows "srv_handle s (SV_DELIVERY d) = Inl Hang"
  using assms srv_drain_stuck [OF assms(5)] by (simp add: srv_delivery_def srv_link_receive_def)

theorem srv_receive_hangs_on_errors_witness:
  "srv_handle srv_globals (SV_DELIVERY \<lparr>dlv_link = 1, readable = True, partial = False, avail = 5,
      recvs = [(- 5, 5), (- 5, 5)], link_credit = 500, updated = False, remote_state = PN_RECEIVED\<rparr>) = Inl Hang"
  by (rule srv_receive_hangs_on_errors [where p = 4 and n = 2 and rc = "- 5"])
    (simp_all add: PN_EOS_def numeral_eq_Suc)

end
