(* ===== verification/Wire.thy ===== *)
theory Wire
  imports Proactor
begin

text \<open>
  A reference reader of the messages that \<open>clogger.c\<close>, \<open>link-sender.c\<close> and \<open>oom-sender.c\<close> write by
  hand. It follows the AMQP 1.0 encoding as far as these messages use it: a message is a sequence
  of sections, the last one its body; a section is the descriptor \<open>00 53\<close>, a code and a value; a
  value is the empty list (\<open>45\<close>) or a binary with its length in four bytes (\<open>b0\<close>).
\<close>

section \<open>Reading\<close>

datatype wire_value = WList0 | WBinary "u8 list"

type_synonym wire_section = "u8 \<times> wire_value"

definition binary_length :: "u8 list \<Rightarrow> nat" where
  "binary_length bs = nat (read_be32 bs)"

fun read_value :: "u8 list \<Rightarrow> (wire_value \<times> u8 list) option" where
  "read_value [] = None"
| "read_value (c # bs) =
     (if c = 0x45 then Some (WList0, bs)
      else if c = 0xb0 \<and> 4 \<le> length bs \<and> binary_length bs \<le> length (drop 4 bs)
      then Some (WBinary (take (binary_length bs) (drop 4 bs)), drop (binary_length bs) (drop 4 bs))
      else None)"

fun read_section :: "u8 list \<Rightarrow> (wire_section \<times> u8 list) option" where
  "read_section (a # b # code # bs) =
     (if a = 0x00 \<and> b = 0x53 then map_option (\<lambda>(v, rest). ((code, v), rest)) (read_value bs) else None)"
| "read_section bs = None"

lemma read_value_shorter: "read_value bs = Some (v, rest) \<Longrightarrow> length rest < length bs"
  by (cases bs) (auto split: if_splits)

lemma read_section_shorter: "read_section bs = Some (sec, rest) \<Longrightarrow> length rest < length bs"
  by (induction bs rule: read_section.induct) (auto split: if_splits dest: read_value_shorter)

text \<open>The section with code \<open>77\<close> is the body and ends the message.\<close>

function read_message :: "u8 list \<Rightarrow> (wire_section list \<times> u8 list) option" where
  "read_message bs =
     (case read_section bs of
        None \<Rightarrow> None
      | Some (sec, rest) \<Rightarrow>
          if fst sec = 0x77 then Some ([sec], rest)
          else map_option (\<lambda>(secs, rest). (sec # secs, rest)) (read_message rest))"
  by pat_completeness auto
termination
  by (relation "measure length") (auto dest: read_section_shorter)

declare read_message.simps [simp del]

lemma read_message_shorter: "read_message bs = Some (secs, rest) \<Longrightarrow> length rest < length bs"
proof (induction bs arbitrary: secs rule: read_message.induct)
  case (1 bs)
  from "1.prems" obtain sec r where r: "read_section bs = Some (sec, r)"
    by (subst (asm) read_message.simps) (auto split: option.splits)
  show ?case
  proof (cases "fst sec = 0x77")
    case True
    then have "rest = r" using "1.prems" r by (subst (asm) read_message.simps) simp
    then show ?thesis using read_section_shorter [OF r] by simp
  next
    case False
    then obtain ss where "read_message r = Some (ss, rest)"
      using "1.prems" r by (subst (asm) read_message.simps) auto
    then have "length rest < length r" using "1.IH" r False by blast
    then show ?thesis using read_section_shorter [OF r] by simp
  qed
qed

text \<open>All the messages of a stream, and the bytes after the last whole one.\<close>

function read_stream :: "u8 list \<Rightarrow> wire_section list list \<times> u8 list" where
  "read_stream bs =
     (case read_message bs of
        None \<Rightarrow> ([], bs)
      | Some (m, rest) \<Rightarrow> (let (ms, left) = read_stream rest in (m # ms, left)))"
  by pat_completeness auto
termination
  by (relation "measure length") (auto dest: read_message_shorter)

declare read_stream.simps [simp del]

section \<open>Bytes that arrive later do not change what was read\<close>

lemma read_be32_append: "4 \<le> length bs \<Longrightarrow> read_be32 (bs @ xs) = read_be32 bs"
  by (auto simp: read_be32_def nth_append)

lemma read_value_append: "read_value bs = Some (v, rest) \<Longrightarrow> read_value (bs @ xs) = Some (v, rest @ xs)"
  by (cases bs) (auto simp: binary_length_def read_be32_append split: if_splits)

lemma read_section_append:
  "read_section bs = Some (sec, rest) \<Longrightarrow> read_section (bs @ xs) = Some (sec, rest @ xs)"
  by (induction bs rule: read_section.induct) (auto split: if_splits dest: read_value_append)

lemma read_message_append:
  "read_message bs = Some (secs, rest) \<Longrightarrow> read_message (bs @ xs) = Some (secs, rest @ xs)"
proof (induction bs arbitrary: secs rule: read_message.induct)
  case (1 bs)
  from "1.prems" obtain sec r where r: "read_section bs = Some (sec, r)"
    by (subst (asm) read_message.simps) (auto split: option.splits)
  note r' = read_section_append [OF r, of xs]
  show ?case
  proof (cases "fst sec = 0x77")
    case True
    then show ?thesis using "1.prems" r
      by (subst (asm) read_message.simps) (subst read_message.simps, simp add: r')
  next
    case False
    then obtain ss where ss: "read_message r = Some (ss, rest)" "secs = sec # ss"
      using "1.prems" r by (subst (asm) read_message.simps) auto
    then have "read_message (r @ xs) = Some (ss, rest @ xs)" using "1.IH" r False by blast
    then show ?thesis using False ss(2) by (subst read_message.simps) (simp add: r')
  qed
qed

text \<open>So no beginning of a message reads as a message.\<close>

lemma read_message_prefix:
  assumes "read_message bs = Some (m, [])" and "k < length bs"
  shows "read_message (take k bs) = None"
proof (rule ccontr)
  assume "read_message (take k bs) \<noteq> None"
  then obtain m' r where "read_message (take k bs) = Some (m', r)" by auto
  then have "read_message (take k bs @ drop k bs) = Some (m', r @ drop k bs)" by (rule read_message_append)
  with assms show False by simp
qed

lemma read_stream_message:
  assumes "read_message bs = Some (m, [])"
  shows "read_stream (concat (replicate n bs) @ take k bs)
    = (if k < length bs then (replicate n m, take k bs) else (replicate (Suc n) m, []))"
proof (induction n)
  case 0
  have "read_message [] = None" by (subst read_message.simps) simp
  then have e: "read_stream [] = ([], [])" by (subst read_stream.simps) simp
  show ?case
  proof (cases "k < length bs")
    case True
    then show ?thesis using read_message_prefix [OF assms True]
      by (subst read_stream.simps) simp
  next
    case False
    then show ?thesis using assms e by (subst read_stream.simps) simp
  qed
next
  case (Suc n)
  have "read_message (bs @ concat (replicate n bs) @ take k bs) = Some (m, concat (replicate n bs) @ take k bs)"
    using read_message_append [OF assms] by simp
  then show ?case using Suc.IH by (subst read_stream.simps) simp
qed

section \<open>The messages the programs write\<close>

text \<open>A message with an empty header, empty properties and one binary as its body.\<close>

definition binary_message :: "u8 list \<Rightarrow> wire_section list" where
  "binary_message body = [(0x70, WList0), (0x73, WList0), (0x77, WBinary body)]"

lemma read_binary_value:
  assumes "length body = unat len"
  shows "read_value (0xb0 # be32 len @ body) = Some (WBinary body, [])"
proof -
  have "binary_length (be32 len @ body) = length body"
    using assms by (simp add: binary_length_def read_be32_append)
  then show ?thesis by simp
qed

lemma read_binary_message:
  assumes "length body = unat len"
  shows "read_message ([0x00, 0x53, 0x70, 0x45, 0x00, 0x53, 0x73, 0x45, 0x00, 0x53, 0x77, 0xb0]
    @ be32 len @ body) = Some (binary_message body, [])"
proof -
  note v = read_binary_value [OF assms]
  have "read_message (0x00 # 0x53 # 0x77 # 0xb0 # be32 len @ body) = Some ([(0x77, WBinary body)], [])"
    by (subst read_message.simps) (simp add: v del: read_value.simps)
  then have "read_message (0x00 # 0x53 # 0x73 # 0x45 # 0x00 # 0x53 # 0x77 # 0xb0 # be32 len @ body)
      = Some ([(0x73, WList0), (0x77, WBinary body)], [])"
    by (subst read_message.simps) simp
  then show ?thesis by (subst read_message.simps) (simp add: binary_message_def)
qed

end
