(* ===== verification/WirePeers.thy ===== *)
theory WirePeers
  imports Wire Clogger LinkSender
begin

text \<open>
  What a peer that follows the AMQP encoding reads of the bytes the clogger and the link sender
  write by hand: round trips through the reference reader of \<open>Wire\<close>.
\<close>

section \<open>The hand-written messages are messages\<close>

lemma clg_wire_reads: "read_message (clg_wire len) = Some (binary_message (replicate (unat len) 0), [])"
  using read_binary_message [of "replicate (unat len) 0" len]
  by (simp add: clg_wire_def clg_prefix_def msg_header_def)

lemma lks_prefix_reads:
  assumes "n \<le> unat len"
  shows "read_message (lks_prefix len n)
    = (if n = unat len then Some (binary_message (replicate (unat len) 0), []) else None)"
proof -
  have whole: "read_message (lks_prefix len (unat len)) = Some (binary_message (replicate (unat len) 0), [])"
    using read_binary_message [of "replicate (unat len) 0" len] by (simp add: lks_prefix_def msg_fragment_def)
  have l: "length (msg_fragment @ be32 len) = 16" by (simp add: msg_fragment_def)
  then have "take (16 + n) ((msg_fragment @ be32 len) @ replicate (unat len) 0)
      = (msg_fragment @ be32 len) @ replicate n (0 :: u8)"
    using assms by (simp only: take_append) (simp add: min_def)
  then have "lks_prefix len n = take (16 + n) (lks_prefix len (unat len))" by (simp add: lks_prefix_def)
  moreover have "length (lks_prefix len (unat len)) = 16 + unat len" by (simp add: lks_prefix_def msg_fragment_def)
  ultimately show ?thesis using whole read_message_prefix [OF whole, of "16 + n"] assms by auto
qed

section \<open>Properties\<close>

text \<open>C7: whatever the link accepts of each chunk, a peer that reads the clogger's stream finds
  whole messages only, each with empty header and properties and a binary body of as many zeros as
  asked for: one for each delivery completed, and at most the one in flight besides; what is left is
  the beginning of a message, and nothing when none is in flight.\<close>

theorem clg_peer_reads_messages:
  assumes "writes_at_most wr" and "clg_main wr opts ess = Inr (d, s)"
  shows "\<exists>n left. read_stream (sent_bytes (out s))
      = (replicate n (binary_message (replicate (unat (clogger.body_length s)) 0)), left)
    \<and> (n = advances (out s) \<or> dlv s \<and> n = Suc (advances (out s)))
    \<and> length left < 16 + unat (clogger.body_length s) \<and> (dlv s \<or> left = [])"
proof -
  have st: "clg_stream s" by (rule clg_main_stream [OF assms])
  let ?len = "clogger.body_length s"
  define k where "k = (if dlv s then 16 + unat (bytes_sent s) else 0)"
  have b: "sent_bytes (out s) = concat (replicate (advances (out s)) (clg_wire ?len)) @ take k (clg_wire ?len)"
    using st by (auto simp: clg_stream_def k_def clg_prefix_take word_le_nat_alt)
  have l: "length (clg_wire ?len) = 16 + unat ?len" by (simp add: clg_wire_def clg_prefix_def msg_header_def)
  note r = read_stream_message [OF clg_wire_reads, of "advances (out s)" ?len k]
  show ?thesis
  proof (cases "k < 16 + unat ?len")
    case True
    then show ?thesis using r b l
      by (intro exI [of _ "advances (out s)"] exI [of _ "take k (clg_wire ?len)"]) (simp add: k_def)
  next
    case False
    then have "dlv s" by (simp add: k_def split: if_splits)
    then show ?thesis using r b l False
      by (intro exI [of _ "Suc (advances (out s))"] exI [of _ "[]"]) simp
  qed
qed

theorem clg_peer_reads_messages_witness:
  "\<exists>d s n left. clg_main (\<lambda>bs. int (length bs)) [(CHR ''s'', ''3'')]
       [[CG_CONNECTION_INIT, CG_LINK_FLOW 1], [CG_CONNECTION_WAKE 0]] = Inr (d, s)
     \<and> read_stream (sent_bytes (out s))
        = (replicate n (binary_message (replicate (unat (clogger.body_length s)) 0)), left)
     \<and> advances (out s) = 1 \<and> 1 \<le> n"
proof -
  define wr :: "u8 list \<Rightarrow> int" where "wr = (\<lambda>bs. int (length bs))"
  have w: "writes_at_most wr" by (simp add: writes_at_most_def wr_def)
  obtain d s where m: "clg_main wr [(CHR ''s'', ''3'')]
       [[CG_CONNECTION_INIT, CG_LINK_FLOW 1], [CG_CONNECTION_WAKE 0]] = Inr (d, s)" "advances (out s) = 1"
    using clg_sample_run unfolding wr_def by blast
  from clg_peer_reads_messages [OF w m(1)] obtain n left where
    "read_stream (sent_bytes (out s)) = (replicate n (binary_message (replicate (unat (clogger.body_length s)) 0)), left)"
    "n = advances (out s) \<or> n = Suc (advances (out s))" by blast
  moreover from this(2) have "1 \<le> n" using m(2) by auto
  ultimately show ?thesis using m unfolding wr_def by blast
qed

text \<open>C19: on each link of the link sender a peer reads exactly one message, with a binary body of
  as many zeros as asked for, when the delivery has been completed, and no message before that.\<close>

theorem lks_peer_reads_one_message:
  assumes "lks_main wr opts ess = Inr (d, s)"
  shows "read_message (sent_bytes (link_calls k (out s)))
    = (if advances (link_calls k (out s)) = 0 then None
       else Some (binary_message (replicate (unat (link_sender.body_length s)) 0), []))
    \<and> advances (link_calls k (out s)) \<le> 1"
proof (cases "link_sender.link_context s k")
  case None
  have "read_message [] = None" by (subst read_message.simps) simp
  then show ?thesis using lks_main_shape [OF assms, of k] None by (simp add: lks_shape_def)
next
  case (Some sent)
  then show ?thesis using lks_main_shape [OF assms, of k]
    by (simp add: lks_shape_def lks_prefix_reads)
qed

theorem lks_peer_reads_one_message_witness:
  "\<exists>s. lks_main (\<lambda>bs. int (length bs)) [(CHR ''l'', ''1''), (CHR ''s'', ''3'')] lks_sample = Inr (True, s)
     \<and> read_message (sent_bytes (link_calls 0 (out s)))
         = Some (binary_message (replicate (unat (link_sender.body_length s)) 0), [])"
proof -
  obtain s where s: "lks_main (\<lambda>bs. int (length bs)) [(CHR ''l'', ''1''), (CHR ''s'', ''3'')] lks_sample = Inr (True, s)"
    "advances (link_calls 0 (out s)) = 1" using lks_sample_run(1) by blast
  from lks_peer_reads_one_message [OF s(1), of 0] s show ?thesis by auto
qed

end
