(* ===== verification/CommandLine.thy ===== *)
theory CommandLine
  imports Clogger ScaleSender Punisher ScaleReceiver LinkSender LinkReceiver OomSender OomReceiver
    LinkLoader SessionLoader TcpPerf Bridge
begin

text \<open>
  The text that \<open>usage()\<close> of each program prints, line by line and without the newlines, and the
  option string the program gives to \<open>getopt()\<close>, compared with the options the program acts on. The
  text shows the current values of the globals, so it depends on the options read before.
\<close>

section \<open>Printing values\<close>

definition show_int :: "int \<Rightarrow> string" where
  "show_int n = (if n < 0 then CHR ''-'' # show_nat (nat (- n)) else show_nat (nat n))"

text \<open>\<open>BOOL2STR\<close>\<close>

definition show_bool :: "bool \<Rightarrow> string" where
  "show_bool b = (if b then ''true'' else ''false'')"

definition tab :: string where "tab = [CHR 0x09]"

section \<open>The texts\<close>

definition clg_usage :: "string \<Rightarrow> clogger \<Rightarrow> string list" where
  "clg_usage prog s =
     [''Usage: '' @ prog @ '' <options>'',
      ''-a      '' @ tab @ ''The host address ['' @ client.host_address s @ '']'',
      ''-c      '' @ tab @ ''# of messages to send, 0 == nonstop ['' @ show_nat (unat (client.limit s)) @ '']'',
      ''-i      '' @ tab @ ''Container name ['' @ client.container_name s @ '']'',
      ''-n      '' @ tab @ ''Use an anonymous link ['' @ show_bool (clogger.use_anonymous s) @ '']'',
      ''-s      '' @ tab @ ''Body size in bytes ['' @ show_int (sint (clogger.body_length s)) @ '']'',
      ''-t      '' @ tab @ ''Target address ['' @ clogger.target_address s @ '']'',
      ''-u      '' @ tab @ ''Send all messages presettled ['' @ show_bool (clogger.presettle s) @ '']'',
      ''-D      '' @ tab @ ''Print debug info [off]'',
      ''-P      '' @ tab @ ''Pause between sending frames ['' @ show_nat (unat (pause_msec s)) @ '']'']"

definition ssn_usage :: "string list" where
  "ssn_usage =
     [''Usage: send <options> <message>'',
      ''-a      '' @ tab @ ''The host address [localhost:5672]'',
      ''-c      '' @ tab @ ''# of messages to send [1]'',
      ''-t      '' @ tab @ ''Target address [examples]'',
      ''-n      '' @ tab @ ''Use an anonymous link [off]'',
      ''-i      '' @ tab @ ''Container name [SendExample]'',
      ''-q      '' @ tab @ ''Quiet - turn off stdout'',
      ''-p      '' @ tab @ ''Send all messages presettled [off]'',
      ''message '' @ tab @ ''A text string to send.'']"

definition pun_usage :: "string list" where
  "pun_usage =
     [''Usage: punisher <options> <message>'',
      ''-a      '' @ tab @ ''The host address [localhost:5672]'',
      ''-c      '' @ tab @ ''# of messages to send, 0=forever [1] '',
      ''-t      '' @ tab @ ''Target address [examples]'',
      ''-i      '' @ tab @ ''Container name [SendExample]'',
      ''-p      '' @ tab @ ''Send all messages pre-settled [off]'',
      ''-n      '' @ tab @ ''Use anonymous link [off]'',
      ''message '' @ tab @ ''A text string to send.'']"

definition srx_usage :: "string list" where
  "srx_usage =
     [''Usage: receiver <options>'',
      ''-a      '' @ tab @ ''The host address [localhost:5672]'',
      ''-c      '' @ tab @ ''# of messages to receive, 0=receive forever [1]'',
      ''-s      '' @ tab @ ''Source address [examples]'',
      ''-i      '' @ tab @ ''Container name [ReceiveExample]'',
      ''-q      '' @ tab @ ''Quiet - turn off stdout'',
      ''-f      '' @ tab @ ''Credit window [100]'']"

definition lks_usage :: "string \<Rightarrow> link_sender \<Rightarrow> string list" where
  "lks_usage prog s =
     [''Usage: '' @ prog @ '' <options>'',
      ''-a  '' @ tab @ ''The host address ['' @ link_sender.host_address s @ '']'',
      ''-i  '' @ tab @ ''Container name ['' @ link_sender.container_name s @ '']'',
      ''-t  '' @ tab @ ''Target address ['' @ link_sender.target_address s @ '']'',
      ''-l  '' @ tab @ ''# of links to create ['' @ show_int (link_sender.max_links s) @ '']'',
      ''-s  '' @ tab @ ''Size of the message ['' @ show_nat (unat (link_sender.body_length s)) @ '' bytes]'',
      ''-D  '' @ tab @ ''Print debug info [off]'']"

definition lkr_usage :: "link_receiver \<Rightarrow> string list" where
  "lkr_usage s =
     [''Usage: receiver <options>'',
      ''-a '' @ tab @ ''The address:port of the server ['' @ link_receiver.host_address s @ '']'',
      ''-l '' @ tab @ ''Total receive links to open ['' @ show_int (link_receiver.max_links s) @ '']'',
      ''-i '' @ tab @ ''Container name ['' @ link_receiver.container_name s @ '']'',
      ''-s '' @ tab @ ''Source address ['' @ link_receiver.source_address s @ '']'',
      ''-D '' @ tab @ ''Print debug info [off]'']"

definition oom_usage :: "string \<Rightarrow> oom_sender \<Rightarrow> string list" where
  "oom_usage progname s =
     [''Usage: '' @ progname @ '' <options>'',
      ''-a '' @ tab @ ''The address:port of the router ['' @ oom_sender.host_address s @ '']'',
      ''-l '' @ tab @ ''# of sending links to create ['' @ show_int (oom_sender.links s) @ '']'',
      ''-i '' @ tab @ ''Container name ['' @ oom_sender.container_name s @ '']'',
      ''-t '' @ tab @ ''Target address ['' @ oom_sender.target_address s @ '']'',
      ''-D '' @ tab @ ''Print debug info [off]'',
      ''-v '' @ tab @ ''Print total bytes sent [off]'',
      [],
      ''Sends continually until ^C hit (SIGQUIT)'']"

definition oor_usage :: "string \<Rightarrow> oom_receiver \<Rightarrow> string list" where
  "oor_usage progname s =
     [''Usage: '' @ progname @ '' <options>'',
      ''-a '' @ tab @ ''The address:port of the server ['' @ oom_receiver.host_address s @ '']'',
      ''-l '' @ tab @ ''Open N stalled receiver links ['' @ show_nat (unat (oom_receiver.links s)) @ '']'',
      ''-i '' @ tab @ ''Container name ['' @ oom_receiver.container_name s @ '']'',
      ''-s '' @ tab @ ''Source address ['' @ oom_receiver.source_address s @ '']'',
      ''-w '' @ tab @ ''Credit window ['' @ show_int (oom_receiver.credit_window s) @ '']'',
      ''-F '' @ tab @ ''Set Incoming Max Frame (minimum 512) ['' @ show_nat (unat (oom_receiver.in_max_frame s)) @ '' bytes]'',
      ''-W '' @ tab @ ''Set total allowed incoming frames per link (minimum 2 per link) ['' @ show_nat (unat (oom_receiver.per_link_session_frames s)) @ '' frames]'',
      ''-D '' @ tab @ ''Print debug info [off]'',
      [],
      ''Runs until ^C hit (SIGQUIT)'']"

definition ldr_usage :: "string \<Rightarrow> link_loader \<Rightarrow> string list" where
  "ldr_usage prog s =
     [''Usage: '' @ prog @ '' <options>'',
      ''-a  '' @ tab @ ''The host address ['' @ link_loader.host_address s @ '']'',
      ''-i  '' @ tab @ ''Container name ['' @ link_loader.container_name s @ '']'',
      ''-t  '' @ tab @ ''Target address ['' @ link_loader.target_address s @ '']'',
      ''-c  '' @ tab @ ''# of link open/close cycles ['' @ show_nat (unat (link_loader.repeat_count s)) @ '']'',
      ''-l  '' @ tab @ ''# of links per cycle to create ['' @ show_nat (unat (link_loader.link_limit s)) @ '']'',
      ''-D  '' @ tab @ ''Print debug info [off]'']"

definition sld_usage :: "string \<Rightarrow> session_loader \<Rightarrow> string list" where
  "sld_usage prog s =
     [''Usage: '' @ prog @ '' <options>'',
      ''-a  '' @ tab @ ''The host address ['' @ session_loader.host_address s @ '']'',
      ''-i  '' @ tab @ ''Container name ['' @ session_loader.container_name s @ '']'',
      ''-t  '' @ tab @ ''Target address ['' @ session_loader.target_address s @ '']'',
      ''-c  '' @ tab @ ''# of sessions to create ['' @ show_nat (unat (session_loader.session_limit s)) @ '']'',
      ''-l  '' @ tab @ ''# of links per session to create ['' @ show_nat (unat (session_loader.link_limit s)) @ '']'',
      ''-D  '' @ tab @ ''Print debug info [off]'']"

definition br_usage :: "string \<Rightarrow> bridge \<Rightarrow> string list" where
  "br_usage prog s =
     [''Usage: '' @ prog @ '' <options>'',
      ''-a '' @ tab @ ''The address to listen on ['' @ bridge.listener_address s @ '']'',
      ''-s '' @ tab @ ''The address of the server to connect to ['' @ bridge.server_address s @ '']'',
      ''-i '' @ tab @ ''Container name ['' @ bridge.container_name s @ '']'']"

definition spout_usage :: "string \<Rightarrow> string list" where
  "spout_usage prog =
     [''Usage: '' @ prog @ '' <options>'',
      ''-p '' @ tab @ ''The TCP port to connect to ['' @ show_nat (unat DEFAULT_PORT) @ '']'',
      ''-c '' @ tab @ ''# of octets to transfer ['' @ show_nat (unat (amount spout_defaults)) @ '' (K|M|G)]'',
      ''-H '' @ tab @ ''Use half-close transfer [off]'']"

definition drain_usage :: "string \<Rightarrow> string list" where
  "drain_usage prog =
     [''Usage: '' @ prog @ '' <options>'',
      ''-p '' @ tab @ ''The TCP port to listen on ['' @ show_nat (unat DEFAULT_PORT) @ '']'',
      ''-H '' @ tab @ ''Use half-close transfer [off]'']"

section \<open>The option strings\<close>

definition clg_optstring :: string where "clg_optstring = ''ha:c:i:ns:t:uDP:''"

definition ssn_optstring :: string where "ssn_optstring = ''i:a:c:t:nhqp''"

definition pun_optstring :: string where "pun_optstring = ''i:a:c:t:nhp''"

definition srx_optstring :: string where "srx_optstring = ''i:a:c:s:qhf:''"

definition lks_optstring :: string where "lks_optstring = ''hDa:i:t:l:s:''"

definition lkr_optstring :: string where "lkr_optstring = ''hDi:a:s:l:''"

definition oom_optstring :: string where "oom_optstring = ''ha:l:i:t:Dv''"

definition oor_optstring :: string where "oor_optstring = ''i:a:s:hDw:l:F:W:''"

definition ldr_optstring :: string where "ldr_optstring = ''ha:i:t:c:l:D''"

definition sld_optstring :: string where "sld_optstring = ''ha:i:t:c:l:D''"

definition br_optstring :: string where "br_optstring = ''ha:i:s:''"

definition spout_optstring :: string where "spout_optstring = ''p:c:Hh''"

definition drain_optstring :: string where "drain_optstring = ''p:Hh''"

section \<open>The options of a text and of an option string\<close>

definition listed_options :: "string list \<Rightarrow> string" where
  "listed_options ls =
     concat (map (\<lambda>l. case l of a # c # rest \<Rightarrow> if a = CHR ''-'' then [c] else [] | _ \<Rightarrow> []) ls)"

definition option_letters :: "string \<Rightarrow> string" where
  "option_letters spec = filter (\<lambda>c. c \<noteq> CHR '':'') spec"

lemmas text_defs = clg_usage_def ssn_usage_def pun_usage_def srx_usage_def lks_usage_def lkr_usage_def oom_usage_def oor_usage_def ldr_usage_def sld_usage_def br_usage_def spout_usage_def drain_usage_def

lemma listed:
  "listed_options (clg_usage prog s) = ''acinstuDP''"
  "listed_options ssn_usage = ''actniqp''"
  "listed_options pun_usage = ''actipn''"
  "listed_options srx_usage = ''acsiqf''"
  "listed_options (lks_usage prog s1) = ''aitlsD''"
  "listed_options (lkr_usage s2) = ''alisD''"
  "listed_options (oom_usage progname s3) = ''alitDv''"
  "listed_options (oor_usage progname s4) = ''aliswFWD''"
  "listed_options (ldr_usage prog s5) = ''aitclD''"
  "listed_options (sld_usage prog s6) = ''aitclD''"
  "listed_options (br_usage prog s7) = ''asi''"
  "listed_options (spout_usage prog) = ''pcH''"
  "listed_options (drain_usage prog) = ''pH''"
  by (simp_all add: text_defs listed_options_def tab_def)

text \<open>
  What a text promises: it lists the options of the option string but \<open>-h\<close>, and the program refuses
  every other one, \<open>-h\<close> and what \<open>getopt()\<close> returns for an unknown option included, with status 1.
\<close>

definition documents :: "string list \<Rightarrow> string \<Rightarrow> (opt \<Rightarrow> 's \<Rightarrow> halt + 's) \<Rightarrow> bool" where
  "documents ls spec handler \<longleftrightarrow> set (listed_options ls) = set (option_letters spec) - {CHR ''h''}
     \<and> (\<forall>c a s. c \<notin> set (listed_options ls) \<longrightarrow> handler (c, a) s = Inl (Exit 1))"

lemma documentsI:
  assumes "listed_options ls = letters" and "set letters = set (option_letters spec) - {CHR ''h''}"
    and "\<And>c a s. c \<notin> set letters \<Longrightarrow> handler (c, a) s = usage"
  shows "documents ls spec handler"
  using assms by (simp add: documents_def usage_def)

section \<open>Properties\<close>

text \<open>The usage text of every program tells the truth about its options: it lists exactly the
  letters the program gives to \<open>getopt()\<close>, but for \<open>-h\<close>, and every option it does not list ends the
  program with status 1.\<close>

theorem usage_documents_the_options:
  "documents (clg_usage prog s) clg_optstring clg_option
   \<and> documents ssn_usage ssn_optstring ssn_option
   \<and> documents pun_usage pun_optstring pun_option
   \<and> documents srx_usage srx_optstring srx_option
   \<and> documents (lks_usage prog s1) lks_optstring lks_option
   \<and> documents (lkr_usage s2) lkr_optstring lkr_option
   \<and> documents (oom_usage progname s3) oom_optstring oom_option
   \<and> documents (oor_usage progname s4) oor_optstring oor_option
   \<and> documents (ldr_usage prog s5) ldr_optstring ldr_option
   \<and> documents (sld_usage prog s6) sld_optstring sld_option
   \<and> documents (br_usage prog s7) br_optstring br_option
   \<and> documents (spout_usage prog) spout_optstring spout_option
   \<and> documents (drain_usage prog) drain_optstring drain_option"
proof (intro conjI)
  show "documents (clg_usage prog s) clg_optstring clg_option"
    by (rule documentsI [OF listed(1)]) (auto simp: option_letters_def clg_optstring_def clg_option_def)
  show "documents ssn_usage ssn_optstring ssn_option"
    by (rule documentsI [OF listed(2)]) (auto simp: option_letters_def ssn_optstring_def ssn_option_def)
  show "documents pun_usage pun_optstring pun_option"
    by (rule documentsI [OF listed(3)]) (auto simp: option_letters_def pun_optstring_def pun_option_def)
  show "documents srx_usage srx_optstring srx_option"
    by (rule documentsI [OF listed(4)]) (auto simp: option_letters_def srx_optstring_def srx_option_def)
  show "documents (lks_usage prog s1) lks_optstring lks_option"
    by (rule documentsI [OF listed(5)]) (auto simp: option_letters_def lks_optstring_def lks_option_def)
  show "documents (lkr_usage s2) lkr_optstring lkr_option"
    by (rule documentsI [OF listed(6)]) (auto simp: option_letters_def lkr_optstring_def lkr_option_def)
  show "documents (oom_usage progname s3) oom_optstring oom_option"
    by (rule documentsI [OF listed(7)]) (auto simp: option_letters_def oom_optstring_def oom_option_def)
  show "documents (oor_usage progname s4) oor_optstring oor_option"
    by (rule documentsI [OF listed(8)]) (auto simp: option_letters_def oor_optstring_def oor_option_def)
  show "documents (ldr_usage prog s5) ldr_optstring ldr_option"
    by (rule documentsI [OF listed(9)]) (auto simp: option_letters_def ldr_optstring_def ldr_option_def)
  show "documents (sld_usage prog s6) sld_optstring sld_option"
    by (rule documentsI [OF listed(10)]) (auto simp: option_letters_def sld_optstring_def sld_option_def)
  show "documents (br_usage prog s7) br_optstring br_option"
    by (rule documentsI [OF listed(11)]) (auto simp: option_letters_def br_optstring_def br_option_def)
  show "documents (spout_usage prog) spout_optstring spout_option"
    by (rule documentsI [OF listed(12)]) (auto simp: option_letters_def spout_optstring_def spout_option_def)
  show "documents (drain_usage prog) drain_optstring drain_option"
    by (rule documentsI [OF listed(13)]) (auto simp: option_letters_def drain_optstring_def drain_option_def)
qed

text \<open>The defaults of the texts that are fixed: those of the punisher are its initial values, the
  scale sender and the scale receiver show a port their initial address does not have.\<close>

theorem scale_usage_shows_other_address:
  "pun_usage ! 1 = ''-a      '' @ tab @ ''The host address ['' @ pun_data.address pun_app_data @ '']''
   \<and> ssn_usage ! 1 \<noteq> ''-a      '' @ tab @ ''The host address ['' @ app_data.address ssn_app_data @ '']''
   \<and> srx_usage ! 1 \<noteq> ''-a      '' @ tab @ ''The host address ['' @ srx_data.address srx_app_data @ '']''"
  by (simp add: text_defs pun_app_data_def ssn_app_data_def srx_app_data_def tab_def)

end
