(* ===== verification/ScaleSystem.thy ===== *)
theory ScaleSystem
  imports ScaleSender ScaleReceiver
begin

text \<open>
  The scale sender and the scale receiver at the two ends of one AMQP link. The peer of each program
  is the other one; what lies between them (Proton, the router) is described by what it may tell
  the programs: a sender is told of credit that has been granted and not used, a receiver of messages
  that were sent, in turn, with the credit the link has left, and a sender of an outcome for each
  message the receiver has accepted and settled. The credit left may be counted after the message in
  hand, or after all that have arrived, or anything between.
\<close>

section \<open>The two programs and the link\<close>

text \<open>\<open>arrived\<close> is the number of messages that have reached the receiving end.\<close>

record scale_net =
  sender :: app_data
  receiver :: srx_data
  arrived :: nat

abbreviation sent_count :: "scale_net \<Rightarrow> nat" where
  "sent_count st \<equiv> deliveries (out (sender st))"

abbreviation granted :: "scale_net \<Rightarrow> int" where
  "granted st \<equiv> flows (out (receiver st))"

abbreviation taken :: "scale_net \<Rightarrow> nat" where
  "taken st \<equiv> settles (out (receiver st))"

abbreviation confirmed :: "scale_net \<Rightarrow> nat" where
  "confirmed st \<equiv> settles (out (sender st))"

inductive net_step :: "scale_net \<Rightarrow> scale_net \<Rightarrow> bool" where
  Flow: "0 \<le> c \<Longrightarrow> c \<le> granted st - int (sent_count st)
     \<Longrightarrow> ssn_event_handler (sender st) (PN_LINK_FLOW c) = Inr s
     \<Longrightarrow> net_step st (st\<lparr>sender := s\<rparr>)"
| Arrive: "arrived st < sent_count st \<Longrightarrow> net_step st (st\<lparr>arrived := arrived st + 1\<rparr>)"
| Handle: "taken st < arrived st \<Longrightarrow> PnConnectionClose \<notin> set (out (receiver st))
     \<Longrightarrow> readable d \<Longrightarrow> \<not> partial d \<Longrightarrow> \<not> settled d
     \<Longrightarrow> taken st < k \<Longrightarrow> k \<le> arrived st \<Longrightarrow> link_credit d = granted st - int k
     \<Longrightarrow> srx_event_handler (receiver st) (SR_DELIVERY d) = Inr r
     \<Longrightarrow> net_step st (st\<lparr>receiver := r\<rparr>)"
| Outcome: "confirmed st < taken st
     \<Longrightarrow> ssn_event_handler (sender st) (PN_DELIVERY True PN_ACCEPTED i) = Inr s
     \<Longrightarrow> net_step st (st\<lparr>sender := s\<rparr>)"

definition sender_closed :: "scale_net \<Rightarrow> bool" where
  "sender_closed st \<longleftrightarrow> PnConnectionClose \<in> set (out (sender st))"

section \<open>The invariant\<close>

text \<open>
  \<open>N\<close> messages \<open>bs\<close> to send, a window of \<open>w\<close>, \<open>M\<close> messages to receive (0 for no end). Everything
  that was confirmed has been taken, has arrived, was sent and was granted; the credit beyond what
  has arrived is within the window and, when nothing waits to be handled, at least half of it.
\<close>

definition receiver_ok :: "int \<Rightarrow> int \<Rightarrow> srx_data \<Rightarrow> bool" where
  "receiver_ok w M r \<longleftrightarrow> srx_data.credit r = w
     \<and> srx_data.count r = (if M = 0 then 0 else max 0 (M - int (settles (out r))))
     \<and> (PnConnectionClose \<in> set (out r) \<longleftrightarrow> M \<noteq> 0 \<and> M \<le> int (settles (out r)))"

definition net_inv :: "int \<Rightarrow> u8 list \<Rightarrow> int \<Rightarrow> int \<Rightarrow> scale_net \<Rightarrow> bool" where
  "net_inv N bs w M st \<longleftrightarrow>
     ssn_state N N False bs (sent_count st) (confirmed st) (sender st) \<and> receiver_ok w M (receiver st)
     \<and> confirmed st \<le> taken st \<and> taken st \<le> arrived st \<and> arrived st \<le> sent_count st
     \<and> int (sent_count st) \<le> granted st \<and> granted st - int (arrived st) \<le> w
     \<and> (taken st = arrived st \<longrightarrow> w div 2 \<le> granted st - int (arrived st))"

lemma ssn_state_counts:
  assumes "ssn_state N N False bs n k s"
  shows "deliveries (out s) = n" and "settles (out s) = k" and "PnConnectionClose \<in> set (out s) \<longleftrightarrow> N \<le> int k"
    and "int n \<le> N" and "app_data.count s = N - int n"
  using assms by (simp_all add: ssn_state_def deliveries_tags del: upt_Suc)

text \<open>What the receiver does with a message, as the link sees it.\<close>

lemma receiver_handles:
  assumes "receiver_ok w M r" and "0 \<le> M" and "0 < w" and "PnConnectionClose \<notin> set (out r)"
    and "readable d" "\<not> partial d" "\<not> settled d" and "srx_event_handler r (SR_DELIVERY d) = Inr r'"
  shows "receiver_ok w M r'" and "settles (out r') = Suc (settles (out r))"
    and "flows (out r') = flows (out r) + (if link_credit d < w div 2 then w - link_credit d else 0)"
proof -
  have r': "r' = emit
     ([PnUpdate PN_ACCEPTED, PnLinkAdvance, PnSettle]
      @ (if link_credit d < srx_data.credit r sdiv 2 then [PnLinkFlow (srx_data.credit r - link_credit d)] else [])
      @ (if srx_data.count r = 1 then [PnLinkClose, PnSessionClose, PnConnectionClose] else []))
     (r\<lparr>printed := printed (srx_print d r), srx_data.count := (if srx_data.count r = 0 then 0 else srx_data.count r - 1)\<rparr>)"
    using assms(5-8) srx_delivery_eq [OF assms(5,6), of r] by simp
  have w: "srx_data.credit r = w" "w sdiv 2 = w div 2"
    using assms(1,3) by (simp_all add: receiver_ok_def signed_divide_int_def)
  show "flows (out r') = flows (out r) + (if link_credit d < w div 2 then w - link_credit d else 0)"
    "settles (out r') = Suc (settles (out r))"
    by (simp_all add: r' w)
  then show "receiver_ok w M r'"
    using assms(1,2,4) by (auto simp: receiver_ok_def r')
qed

lemma net_step_inv:
  assumes "net_step st st'" and "net_inv N bs w M st" and "1 \<le> N" and "0 < w" and "0 \<le> M"
  shows "net_inv N bs w M st'"
  using assms(1)
proof cases
  case (Flow c s)
  have i: "ssn_state N N False bs (sent_count st) (confirmed st) (sender st)"
    using assms(2) by (simp add: net_inv_def)
  define n where "n = sent_count st + nat (min c (app_data.count (sender st)))"
  have s: "s = ssn_link_flow c (sender st)" using Flow(4) by simp
  have st: "ssn_state N N False bs n (confirmed st) s"
    unfolding s n_def by (rule ssn_flow_state [OF i assms(3)])
  note c = ssn_state_counts [OF st]
  have "int n \<le> granted st" using Flow(2,3) unfolding n_def by linarith
  moreover have "sent_count st \<le> n" by (simp add: n_def)
  ultimately show ?thesis using assms(2) st c unfolding Flow(1) net_inv_def by simp
next
  case Arrive
  then show ?thesis using assms(2) by (auto simp: net_inv_def)
next
  case (Handle d k r)
  have ok: "receiver_ok w M (receiver st)" using assms(2) by (simp add: net_inv_def)
  note h = receiver_handles [OF ok assms(5,4) Handle(3-6,10)]
  have "w div 2 \<le> w" using assms(4) by linarith
  then show ?thesis using assms(2) Handle(2,7-9) h unfolding Handle(1) net_inv_def by auto
next
  case (Outcome i s)
  have i: "ssn_state N N False bs (sent_count st) (confirmed st) (sender st)"
    using assms(2) by (simp add: net_inv_def)
  have s: "s = ssn_delivery True PN_ACCEPTED (sender st)" using Outcome(3) by simp
  have st: "ssn_state N N False bs (sent_count st) (Suc (confirmed st)) s"
    unfolding s using ssn_delivery_state [OF i assms(3), of True PN_ACCEPTED] by (simp add: has_state_def)
  note c = ssn_state_counts [OF st]
  show ?thesis using assms(2) Outcome(2) st c unfolding Outcome(1) net_inv_def by simp
qed

lemma net_steps_inv:
  assumes "net_step\<^sup>*\<^sup>* st st'" and "net_inv N bs w M st" and "1 \<le> N" and "0 < w" and "0 \<le> M"
  shows "net_inv N bs w M st'"
  using assms(1,2) by (induction rule: rtranclp_induct) (auto intro: net_step_inv [OF _ _ assms(3-5)])

section \<open>Progress\<close>

text \<open>The work done, at most \<open>4 * N\<close>.\<close>

definition progress :: "scale_net \<Rightarrow> nat" where
  "progress st = sent_count st + arrived st + taken st + confirmed st"

lemma net_inv_progress: "net_inv N bs w M st \<Longrightarrow> progress st \<le> 4 * nat N"
  unfolding net_inv_def progress_def by (auto dest!: ssn_state_counts(4))

text \<open>Until the sender closes, something that makes progress can happen, if the window is two or more.\<close>

lemma net_step_progress:
  assumes "net_inv N bs w M st" and "1 \<le> N" and "2 \<le> w" and "M = 0 \<or> N \<le> M" and "\<not> sender_closed st"
  shows "\<exists>st'. net_step st st' \<and> progress st < progress st'"
proof -
  have i: "ssn_state N N False bs (sent_count st) (confirmed st) (sender st)"
    and ok: "receiver_ok w M (receiver st)"
    and ord: "confirmed st \<le> taken st" "taken st \<le> arrived st" "arrived st \<le> sent_count st"
    using assms(1) by (simp_all add: net_inv_def)
  note c = ssn_state_counts(3-5) [OF i]
  have nc: "int (confirmed st) < N" using c(1) assms(5) by (simp add: sender_closed_def)
  consider (confirm) "confirmed st < taken st" | (handle) "confirmed st = taken st" "taken st < arrived st"
    | (arrive) "arrived st < sent_count st"
    | (flow) "confirmed st = sent_count st" "taken st = arrived st" "arrived st = sent_count st"
    using ord by linarith
  then show ?thesis
  proof cases
    case confirm
    define s where "s = ssn_delivery True PN_ACCEPTED (sender st)"
    have "net_step st (st\<lparr>sender := s\<rparr>)"
      by (rule net_step.Outcome [OF confirm, of 0]) (simp add: s_def)
    moreover have "ssn_state N N False bs (sent_count st) (Suc (confirmed st)) s"
      unfolding s_def using ssn_delivery_state [OF i assms(2), of True PN_ACCEPTED] by (simp add: has_state_def)
    ultimately show ?thesis
      using ssn_state_counts(1,2) by (intro exI [of _ "st\<lparr>sender := s\<rparr>"]) (simp add: progress_def)
  next
    case handle
    define d where "d = \<lparr>readable = True, partial = False, pending = 0, settled = False, decoded = None,
      link_credit = granted st - int (arrived st)\<rparr>"
    define r where "r = srx_delivery d (receiver st)"
    have o: "PnConnectionClose \<notin> set (out (receiver st))"
      using ok handle(1) nc assms(4) by (auto simp: receiver_ok_def)
    have e: "srx_event_handler (receiver st) (SR_DELIVERY d) = Inr r" by (simp add: r_def)
    have "net_step st (st\<lparr>receiver := r\<rparr>)"
      by (rule net_step.Handle [where k = "arrived st", OF handle(2) o _ _ _ handle(2) _ _ e]) (simp_all add: d_def)
    moreover have "settles (out r) = Suc (taken st)"
      by (rule receiver_handles(2) [OF ok _ _ o _ _ _ e]) (use assms(2-4) in \<open>auto simp: d_def\<close>)
    ultimately show ?thesis by (intro exI [of _ "st\<lparr>receiver := r\<rparr>"]) (simp add: progress_def)
  next
    case arrive
    then have "net_step st (st\<lparr>arrived := arrived st + 1\<rparr>)" by (rule net_step.Arrive)
    then show ?thesis by (intro exI [of _ "st\<lparr>arrived := arrived st + 1\<rparr>"]) (simp add: progress_def)
  next
    case flow
    define c where "c = granted st - int (sent_count st)"
    have "1 \<le> w div 2" using assms(3) by linarith
    then have c1: "1 \<le> c" using assms(1) flow unfolding net_inv_def c_def by auto
    define s where "s = ssn_link_flow c (sender st)"
    define n where "n = sent_count st + nat (min c (app_data.count (sender st)))"
    have "ssn_state N N False bs n (confirmed st) s"
      unfolding s_def n_def by (rule ssn_flow_state [OF i assms(2)])
    then have "deliveries (out s) = n" "settles (out s) = confirmed st" by (rule ssn_state_counts)+
    moreover have "1 \<le> app_data.count (sender st)" using c(3) nc flow(1) by simp
    then have "sent_count st < n" using c1 by (simp add: n_def)
    moreover have "net_step st (st\<lparr>sender := s\<rparr>)"
      by (rule net_step.Flow [of c]) (use c1 in \<open>simp_all add: c_def s_def\<close>)
    ultimately show ?thesis by (intro exI [of _ "st\<lparr>sender := s\<rparr>"]) (simp add: progress_def)
  qed
qed

lemma net_completes:
  assumes "net_inv N bs w M st" and "1 \<le> N" and "2 \<le> w" and "M = 0 \<or> N \<le> M"
  shows "\<exists>st'. net_step\<^sup>*\<^sup>* st st' \<and> sender_closed st'"
  using assms(1)
proof (induction "4 * nat N - progress st" arbitrary: st rule: less_induct)
  case less
  show ?case
  proof (cases "sender_closed st")
    case False
    then obtain t where t: "net_step st t" "progress st < progress t"
      using net_step_progress [OF less.prems assms(2-4)] by blast
    have inv: "net_inv N bs w M t"
      by (rule net_step_inv [OF t(1) less.prems assms(2)]) (use assms(2-4) in auto)
    then have "4 * nat N - progress t < 4 * nat N - progress st"
      using t(2) net_inv_progress [OF inv] by linarith
    from less.hyps [OF this inv] show ?thesis using t(1) by (meson converse_rtranclp_into_rtranclp)
  qed blast
qed

section \<open>The start\<close>

text \<open>Both programs have opened their ends of the link and nothing was sent.\<close>

definition net_start :: "app_data \<Rightarrow> srx_data \<Rightarrow> scale_net" where
  "net_start s r = \<lparr>sender = s, receiver = r, arrived = 0\<rparr>"

lemma ssn_start:
  assumes "ssn_main fill mem enc opts msgtext [PN_CONNECTION_INIT] = Inr s"
    and "parse_opts ssn_option opts ssn_app_data = Inr g" and "\<not> presettled g"
  obtains bs where "ssn_state (app_data.count g) (app_data.count g) False bs 0 0 s" and "1 \<le> app_data.count g"
proof -
  obtain n bs where n: "1 \<le> app_data.count g"
    "ssn_state (app_data.count g) (if presettled g then 1 else app_data.count g) (presettled g) bs n
       (length (filter outcome [PN_CONNECTION_INIT])) s"
    by (rule ssn_main_state [OF assms(1,2)])
  have "app_data.count s = app_data.count g"
    using assms by (auto simp: ssn_main_def ssn_connection_init_def bnd_eq_Inr Let_def)
  then have "n = 0" using n(2) by (simp add: ssn_state_def)
  then show ?thesis using that n assms(3) by simp
qed

lemma srx_option_fresh:
  "srx_option p s = Inr s' \<Longrightarrow> out s = [] \<and> 0 < srx_data.credit s \<and> 0 \<le> srx_data.count s
     \<Longrightarrow> out s' = [] \<and> 0 < srx_data.credit s' \<and> 0 \<le> srx_data.count s'"
  by (auto simp: srx_option_def usage_def Let_def split: prod.splits if_splits)

lemma srx_start:
  assumes "srx_main ropts [SR_CONNECTION_INIT] = Inr r" and "parse_opts srx_option ropts srx_app_data = Inr h"
  shows "receiver_ok (srx_data.credit h) (srx_data.count h) r" and "settles (out r) = 0"
    and "flows (out r) = srx_data.credit h" and "0 < srx_data.credit h" and "0 \<le> srx_data.count h"
proof -
  have f: "out h = [] \<and> 0 < srx_data.credit h \<and> 0 \<le> srx_data.count h"
    by (rule parse_opts_preserves [where P = "\<lambda>s. out s = [] \<and> 0 < srx_data.credit s \<and> 0 \<le> srx_data.count s",
          OF srx_option_fresh _ assms(2)]) (simp_all add: srx_app_data_def)
  have "r = srx_connection_init (emit [PnSetContainer (srx_data.container h), PnSetHostname (srx_data.address h)] h)"
    using assms by (simp add: srx_main_def)
  then show "receiver_ok (srx_data.credit h) (srx_data.count h) r" "settles (out r) = 0"
    "flows (out r) = srx_data.credit h" "0 < srx_data.credit h" "0 \<le> srx_data.count h"
    using f by (simp_all add: srx_connection_init_def receiver_ok_def max_def)
qed

lemma net_start_inv:
  assumes "ssn_main fill mem enc opts msgtext [PN_CONNECTION_INIT] = Inr s"
    and "parse_opts ssn_option opts ssn_app_data = Inr g" and "\<not> presettled g"
    and "srx_main ropts [SR_CONNECTION_INIT] = Inr r" and "parse_opts srx_option ropts srx_app_data = Inr h"
  obtains bs where "net_inv (app_data.count g) bs (srx_data.credit h) (srx_data.count h) (net_start s r)"
    and "1 \<le> app_data.count g" and "0 < srx_data.credit h" and "0 \<le> srx_data.count h"
proof -
  obtain bs where bs: "ssn_state (app_data.count g) (app_data.count g) False bs 0 0 s" "1 \<le> app_data.count g"
    by (rule ssn_start [OF assms(1-3)])
  note r = srx_start [OF assms(4,5)]
  have "srx_data.credit h div 2 \<le> srx_data.credit h" using r(4) by linarith
  then have "net_inv (app_data.count g) bs (srx_data.credit h) (srx_data.count h) (net_start s r)"
    using bs(1) ssn_state_counts(1,2) [OF bs(1)] r by (simp add: net_inv_def net_start_def)
  then show ?thesis using that bs(2) r by blast
qed

text \<open>A window of one is granted once: half of it is 0, and the credit left is never below that.\<close>

lemma net_window_of_one:
  assumes "net_step\<^sup>*\<^sup>* st st'" and "net_inv N bs 1 M st" and "1 \<le> N" and "0 \<le> M" and "granted st = 1"
  shows "granted st' = 1"
  using assms(1)
proof (induction rule: rtranclp_induct)
  case base
  then show ?case by (rule assms(5))
next
  case (step t t')
  have inv: "net_inv N bs 1 M t" by (rule net_steps_inv [OF step.hyps(1) assms(2,3) _ assms(4)]) simp
  from step.hyps(2) show ?case
  proof cases
    case (Handle d k r)
    have ok: "receiver_ok 1 M (receiver t)" using inv by (simp add: net_inv_def)
    have "0 \<le> link_credit d" using inv Handle(8,9) by (simp add: net_inv_def)
    then show ?thesis
      using receiver_handles(3) [OF ok assms(4) _ Handle(3-6,10)] step.IH Handle(1) by simp
  qed (use step.IH in simp_all)
qed

text \<open>Two concrete starts: two messages to send and to receive, under the window of 100 and of 1.\<close>

abbreviation two_sent :: "tx_event list \<Rightarrow> halt + app_data" where
  "two_sent \<equiv> ssn_main (\<lambda>t. 0) (\<lambda>n. []) (fixed_encoder [7]) [(CHR ''c'', ''2'')] None"

lemma two_sent_start: "\<exists>s. two_sent [PN_CONNECTION_INIT] = Inr s"
proof -
  have e: "encode_loop (fixed_encoder [7] m) 128 = Some (128, Encoded [7])" for m
    by (rule encode_loop_fixed) simp
  show ?thesis
    by (simp add: ssn_main_def sample_ssn_run(1) encode_text_def e Let_def del: parse_opts.simps)
qed

lemma two_received_start:
  "parse_opts srx_option [(CHR ''c'', ''2'')] srx_app_data = Inr (srx_app_data\<lparr>srx_data.count := 2\<rparr>)"
  "\<exists>r. srx_main [(CHR ''c'', ''2'')] [SR_CONNECTION_INIT] = Inr r"
  "parse_opts srx_option [(CHR ''f'', ''1'')] srx_app_data = Inr (srx_app_data\<lparr>srx_data.credit := 1\<rparr>)"
  "\<exists>r. srx_main [(CHR ''f'', ''1'')] [SR_CONNECTION_INIT] = Inr r"
proof -
  have a: "atoi ''2'' = 2" "atoi ''1'' = 1"
    by (simp_all add: atoi_def scan_number_def read_sign_def is_space_def is_digit_def strtol_def)
  show p: "parse_opts srx_option [(CHR ''c'', ''2'')] srx_app_data = Inr (srx_app_data\<lparr>srx_data.count := 2\<rparr>)"
    "parse_opts srx_option [(CHR ''f'', ''1'')] srx_app_data = Inr (srx_app_data\<lparr>srx_data.credit := 1\<rparr>)"
    using a by (simp_all add: srx_option_def)
  show "\<exists>r. srx_main [(CHR ''c'', ''2'')] [SR_CONNECTION_INIT] = Inr r"
    "\<exists>r. srx_main [(CHR ''f'', ''1'')] [SR_CONNECTION_INIT] = Inr r"
    by (simp_all add: srx_main_def p del: parse_opts.simps)
qed

section \<open>Properties\<close>

text \<open>C4: at every moment of a run of the two programs over one link, with a sender that does not
  settle its messages in advance: what the sender has seen confirmed the receiver has taken, what it
  has taken has arrived, what has arrived was sent, and no more is sent than was asked for nor than
  the receiver has granted credit for; the credit granted for messages that have not arrived never
  exceeds the receiver's window; and when the sender has closed the connection, the receiver has taken
  every message asked for.\<close>

theorem net_loses_nothing:
  assumes "ssn_main fill mem enc opts msgtext [PN_CONNECTION_INIT] = Inr s"
    and "parse_opts ssn_option opts ssn_app_data = Inr g" and "\<not> presettled g"
    and "srx_main ropts [SR_CONNECTION_INIT] = Inr r" and "parse_opts srx_option ropts srx_app_data = Inr h"
    and "net_step\<^sup>*\<^sup>* (net_start s r) st"
  shows "confirmed st \<le> taken st \<and> taken st \<le> arrived st \<and> arrived st \<le> sent_count st
    \<and> int (sent_count st) \<le> app_data.count g \<and> int (sent_count st) \<le> granted st
    \<and> granted st - int (arrived st) \<le> srx_data.credit h
    \<and> (sender_closed st \<longrightarrow> int (taken st) = app_data.count g)"
proof -
  obtain bs where i: "net_inv (app_data.count g) bs (srx_data.credit h) (srx_data.count h) (net_start s r)"
    "1 \<le> app_data.count g" "0 < srx_data.credit h" "0 \<le> srx_data.count h"
    by (rule net_start_inv [OF assms(1-5)])
  have inv: "net_inv (app_data.count g) bs (srx_data.credit h) (srx_data.count h) st"
    by (rule net_steps_inv [OF assms(6) i])
  then have "ssn_state (app_data.count g) (app_data.count g) False bs (sent_count st) (confirmed st) (sender st)"
    by (simp add: net_inv_def)
  note c = ssn_state_counts(3,4) [OF this]
  show ?thesis using inv c unfolding net_inv_def sender_closed_def by linarith
qed

theorem net_loses_nothing_witness:
  "\<exists>s r st. two_sent [PN_CONNECTION_INIT] = Inr s \<and> srx_main [(CHR ''c'', ''2'')] [SR_CONNECTION_INIT] = Inr r
     \<and> net_step\<^sup>*\<^sup>* (net_start s r) st \<and> sender_closed st \<and> taken st = 2"
proof -
  obtain s r where s: "two_sent [PN_CONNECTION_INIT] = Inr s"
    and r: "srx_main [(CHR ''c'', ''2'')] [SR_CONNECTION_INIT] = Inr r"
    using two_sent_start two_received_start(2) by blast
  obtain bs where "net_inv 2 bs 100 2 (net_start s r)"
    by (rule net_start_inv [OF s sample_ssn_run(1) _ r two_received_start(1)])
      (simp_all add: ssn_app_data_def srx_app_data_def)
  from net_completes [OF this] obtain st where st: "net_step\<^sup>*\<^sup>* (net_start s r) st" "sender_closed st"
    by auto
  have "taken st = 2"
    using net_loses_nothing [OF s sample_ssn_run(1) _ r two_received_start(1) st(1)] st(2)
    by (simp add: ssn_app_data_def)
  then show ?thesis using s r st by blast
qed

text \<open>C5: with a sender that does not settle in advance, a window of at least two, and a receiver that
  asks for no fewer messages than are sent (or for all there are), the two programs never get stuck:
  from whatever moment of their run, there are steps that bring the sender to close the connection.\<close>

theorem net_never_stuck:
  assumes "ssn_main fill mem enc opts msgtext [PN_CONNECTION_INIT] = Inr s"
    and "parse_opts ssn_option opts ssn_app_data = Inr g" and "\<not> presettled g"
    and "srx_main ropts [SR_CONNECTION_INIT] = Inr r" and "parse_opts srx_option ropts srx_app_data = Inr h"
    and "2 \<le> srx_data.credit h" and "srx_data.count h = 0 \<or> app_data.count g \<le> srx_data.count h"
    and "net_step\<^sup>*\<^sup>* (net_start s r) st"
  shows "\<exists>st'. net_step\<^sup>*\<^sup>* st st' \<and> sender_closed st'"
proof -
  obtain bs where i: "net_inv (app_data.count g) bs (srx_data.credit h) (srx_data.count h) (net_start s r)"
    "1 \<le> app_data.count g" "0 < srx_data.credit h" "0 \<le> srx_data.count h"
    by (rule net_start_inv [OF assms(1-5)])
  show ?thesis by (rule net_completes [OF net_steps_inv [OF assms(8) i] i(2) assms(6,7)])
qed

theorem net_never_stuck_witness:
  "\<exists>s r st. two_sent [PN_CONNECTION_INIT] = Inr s \<and> srx_main [(CHR ''c'', ''2'')] [SR_CONNECTION_INIT] = Inr r
     \<and> net_step\<^sup>*\<^sup>* (net_start s r) st \<and> sender_closed st"
proof -
  obtain s r where s: "two_sent [PN_CONNECTION_INIT] = Inr s"
    and r: "srx_main [(CHR ''c'', ''2'')] [SR_CONNECTION_INIT] = Inr r"
    using two_sent_start two_received_start(2) by blast
  have "\<exists>st. net_step\<^sup>*\<^sup>* (net_start s r) st \<and> sender_closed st"
    by (rule net_never_stuck [OF s sample_ssn_run(1) _ r two_received_start(1)])
      (simp_all add: ssn_app_data_def srx_app_data_def)
  then show ?thesis using s r by blast
qed

text \<open>C24: with a window of one the two programs get stuck after the first message: half the window is 0
  and the receiver waits for the credit to fall below that before it grants more, so of two or
  more messages, not settled in advance, the sender never sends the second, and it never closes the
  connection.\<close>

theorem net_window_of_one_stalls:
  assumes "ssn_main fill mem enc opts msgtext [PN_CONNECTION_INIT] = Inr s"
    and "parse_opts ssn_option opts ssn_app_data = Inr g" and "\<not> presettled g"
    and "srx_main ropts [SR_CONNECTION_INIT] = Inr r" and "parse_opts srx_option ropts srx_app_data = Inr h"
    and "srx_data.credit h = 1" and "2 \<le> app_data.count g" and "net_step\<^sup>*\<^sup>* (net_start s r) st"
  shows "granted st = 1 \<and> sent_count st \<le> 1 \<and> \<not> sender_closed st"
proof -
  obtain bs where i: "net_inv (app_data.count g) bs 1 (srx_data.count h) (net_start s r)"
    "1 \<le> app_data.count g" "0 \<le> srx_data.count h"
    using net_start_inv [OF assms(1-5)] assms(6) by auto
  have "granted (net_start s r) = 1" using srx_start(3) [OF assms(4,5)] assms(6) by (simp add: net_start_def)
  from net_window_of_one [OF assms(8) i this] have g: "granted st = 1" .
  have inv: "net_inv (app_data.count g) bs 1 (srx_data.count h) st"
    by (rule net_steps_inv [OF assms(8) i(1,2) _ i(3)]) simp
  then have "ssn_state (app_data.count g) (app_data.count g) False bs (sent_count st) (confirmed st) (sender st)"
    by (simp add: net_inv_def)
  note c = ssn_state_counts(3) [OF this]
  have "int (sent_count st) \<le> 1" "confirmed st \<le> sent_count st" using inv g by (simp_all add: net_inv_def)
  then show ?thesis using c g assms(7) by (simp add: sender_closed_def)
qed

theorem net_window_of_one_stalls_witness:
  "\<exists>s r. two_sent [PN_CONNECTION_INIT] = Inr s \<and> srx_main [(CHR ''f'', ''1'')] [SR_CONNECTION_INIT] = Inr r
     \<and> (\<nexists>st. net_step\<^sup>*\<^sup>* (net_start s r) st \<and> sender_closed st)"
proof -
  obtain s r where s: "two_sent [PN_CONNECTION_INIT] = Inr s"
    and r: "srx_main [(CHR ''f'', ''1'')] [SR_CONNECTION_INIT] = Inr r"
    using two_sent_start two_received_start(4) by blast
  have "\<not> sender_closed st" if "net_step\<^sup>*\<^sup>* (net_start s r) st" for st
    using net_window_of_one_stalls [OF s sample_ssn_run(1) _ r two_received_start(3) _ _ that]
    by (simp add: ssn_app_data_def srx_app_data_def)
  then show ?thesis using s r by blast
qed

end
